(* ===== verification/KB_Prelude.thy ===== *)
theory KB_Prelude
  imports Main "HOL-Library.Word" "HOL-Library.Char_ord" "HOL-Library.List_Lexorder"
    "HOL-Library.Monad_Syntax" "HOL-Library.Multiset"
begin

text \<open>
  Shared vocabulary of the keybench development: the machine types of the C code, byte
  strings and their order, collections of facts, and the generic lemmas on option-valued
  computations, lists and words that the component theories use.

  A C string or a Lua string of any bytes is a \<open>char list\<close>: a HOL \<open>char\<close> is one
  8-bit unit, and \<open>Char_ord\<close> orders characters by their unsigned byte value, the order
  \<open>memcmp\<close> uses. A computation that can dereference a bad pointer, read an uninitialised
  cell or run forever is option-valued and \<open>None\<close> is that failure.
\<close>

type_synonym u64 = "64 word"
type_synonym u32 = "32 word"
type_synonym bytes = "char list"

named_theorems kb_arith \<open>conversions between words, naturals and integers\<close>
named_theorems kb_opt \<open>inversion of option-valued computations\<close>

subsection \<open>Words\<close>

lemma u64_bound [kb_arith]: "unat (v :: u64) < 2 ^ 64"
  using unsigned_less [of v] by simp

lemma u64_eqI: "unat (v :: u64) = unat w \<Longrightarrow> v = w"
  by (rule unsigned_word_eqI)

subsection \<open>Options\<close>

lemma bind_eq_SomeD [kb_opt]: "Option.bind m f = Some y \<longleftrightarrow> (\<exists>x. m = Some x \<and> f x = Some y)"
  by (cases m) auto

subsection \<open>Lists\<close>

lemma sorted_wrt_less_distinct:
  "sorted_wrt (<) (xs :: 'a :: linorder list) \<Longrightarrow> distinct xs"
  by (simp add: strict_sorted_iff)

lemma fold_min_move: "fold min xs (min x a) = min x (fold min xs (a :: 'a :: linorder))"
  by (induction xs arbitrary: a) (simp_all add: min.left_commute [of _ x])

lemma fold_max_move: "fold max xs (max x a) = max x (fold max xs (a :: 'a :: linorder))"
  by (induction xs arbitrary: a) (simp_all add: max.left_commute [of _ x])

lemma length_filter_eq_sum:
  "length (filter P xs) = (\<Sum>x\<leftarrow>xs. if P x then 1 else 0)"
  by (induction xs) auto

end
