(* ===== verification/KB_Double.thy ===== *)
theory KB_Double
  imports KB_Prelude Complex_Main "HOL-Library.Log_Nat"
begin

text \<open>
  The C type \<open>double\<close> as the source uses it. A finite double is a rational number; every
  operation computes the exact result and rounds it to the nearest 53-bit binary
  floating-point number, ties to the even significand, as IEEE 754 binary64 does in its
  default mode. The exponent is unbounded here: infinities, NaN and subnormal numbers are
  outside the model, which is exact for magnitudes from \<open>2 powi (-1022)\<close> up to the
  largest finite double.

  \<open>rnd\<close> is executable. The locale \<open>rounding\<close> states what clients rely on (monotone,
  exact on integers up to \<open>2 ^ 53\<close>, odd) and is interpreted on \<open>rnd\<close>.
\<close>

type_synonym double = rat

subsection \<open>Rounding to 53 bits\<close>

definition ilog2 :: "rat \<Rightarrow> int" where
  "ilog2 x =
     (let (n, d) = quotient_of x;
          e = int (floorlog 2 (nat n)) - int (floorlog 2 (nat d))
      in if 2 powi e \<le> x then e else e - 1)"

definition rne :: "rat \<Rightarrow> int" where
  "rne x =
     (let f = \<lfloor>x\<rfloor>; r = x - of_int f
      in if r < 1 / 2 then f
         else if r > 1 / 2 then f + 1
         else if even f then f else f + 1)"

definition rnd_pos :: "rat \<Rightarrow> rat" where
  "rnd_pos x = (let u = 2 powi (ilog2 x - 52) in of_int (rne (x / u)) * u)"

definition rnd :: "rat \<Rightarrow> double" where
  "rnd x = (if x = 0 then 0 else if x > 0 then rnd_pos x else - rnd_pos (- x))"

subsection \<open>The operations the source uses\<close>

definition dadd :: "double \<Rightarrow> double \<Rightarrow> double" where "dadd a b = rnd (a + b)"
definition dsub :: "double \<Rightarrow> double \<Rightarrow> double" where "dsub a b = rnd (a - b)"
definition dmul :: "double \<Rightarrow> double \<Rightarrow> double" where "dmul a b = rnd (a * b)"
definition ddiv :: "double \<Rightarrow> double \<Rightarrow> double" where "ddiv a b = rnd (a / b)"

definition u64_to_double :: "u64 \<Rightarrow> double" where
  "u64_to_double w = rnd (of_nat (unat w))"

definition int_to_double :: "int \<Rightarrow> double" where
  "int_to_double n = rnd (of_int n)"

text \<open>
  The cast to \<open>uint64_t\<close> truncates towards zero. Outside the range of the type the C
  behaviour is undefined; the model then wraps, and the properties state the range.
\<close>

definition trunc_double :: "double \<Rightarrow> int" where
  "trunc_double x = (if x \<ge> 0 then \<lfloor>x\<rfloor> else \<lceil>x\<rceil>)"

definition double_to_u64 :: "double \<Rightarrow> u64" where
  "double_to_u64 x = word_of_int (trunc_double x)"

subsection \<open>The exponent\<close>

lemma floorlog2_bounds:
  assumes "0 < (n :: nat)"
  shows "2 ^ (floorlog 2 n - 1) \<le> n" and "n < 2 ^ floorlog 2 n" and "0 < floorlog 2 n"
  using floorlog_bounds [of n 2] assms by (auto simp: floorlog_def)

lemma nat_pow2_quotient_bounds:
  assumes n: "0 < (n :: nat)" and d: "0 < (d :: nat)"
  defines "e \<equiv> int (floorlog 2 n) - int (floorlog 2 d)"
  shows "2 powi (e - 1) < (of_nat n / of_nat d :: rat)" and "(of_nat n / of_nat d :: rat) < 2 powi (e + 1)"
proof -
  define a b where "a = floorlog 2 n" and "b = floorlog 2 d"
  have a: "2 ^ (a - 1) \<le> n" "n < 2 ^ a" "0 < a" and b: "2 ^ (b - 1) \<le> d" "d < 2 ^ b" "0 < b"
    using floorlog2_bounds [OF n] floorlog2_bounds [OF d] by (auto simp: a_def b_def)
  have ra: "(2 :: rat) ^ (a - 1) \<le> of_nat n" "of_nat n < (2 :: rat) ^ a"
    and rb: "(2 :: rat) ^ (b - 1) \<le> of_nat d" "of_nat d < (2 :: rat) ^ b"
    using a b by (metis of_nat_le_iff of_nat_less_iff of_nat_numeral of_nat_power)+
  have lo: "(2 :: rat) powi (e - 1) = 2 ^ (a - 1) / 2 ^ b"
    using a(3) by (simp add: e_def a_def b_def power_int_diff flip: power_int_of_nat)
  have hi: "(2 :: rat) powi (e + 1) = 2 ^ a / 2 ^ (b - 1)"
    using b(3) by (simp add: e_def a_def b_def power_int_diff power_int_add flip: power_int_of_nat)
  show "2 powi (e - 1) < (of_nat n / of_nat d :: rat)"
    unfolding lo using ra rb d by (intro frac_less2) auto
  show "(of_nat n / of_nat d :: rat) < 2 powi (e + 1)"
    unfolding hi using ra rb d n by (intro frac_less) auto
qed

lemma ilog2_bounds:
  assumes "0 < x"
  shows "2 powi ilog2 x \<le> x" and "x < 2 powi (ilog2 x + 1)"
proof -
  obtain n d where q: "quotient_of x = (n, d)" by (cases "quotient_of x")
  have d: "0 < d" using q quotient_of_denom_pos by blast
  have x: "x = of_int n / of_int d" using q quotient_of_div by blast
  have n: "0 < n" using assms x d by (simp add: zero_less_divide_iff)
  have x': "x = of_nat (nat n) / of_nat (nat d)" using x n d by simp
  define e where "e = int (floorlog 2 (nat n)) - int (floorlog 2 (nat d))"
  have b: "2 powi (e - 1) < x" "x < 2 powi (e + 1)"
    using nat_pow2_quotient_bounds [of "nat n" "nat d"] n d unfolding x' e_def by auto
  have i: "ilog2 x = (if 2 powi e \<le> x then e else e - 1)"
    by (simp add: ilog2_def q e_def)
  show "2 powi ilog2 x \<le> x" "x < 2 powi (ilog2 x + 1)"
    using b by (auto simp: i)
qed

lemma ilog2_mono: "0 < x \<Longrightarrow> x \<le> y \<Longrightarrow> ilog2 x \<le> ilog2 y"
proof (rule ccontr)
  assume h: "0 < x" "x \<le> y" and "\<not> ilog2 x \<le> ilog2 y"
  then have "(2 :: rat) powi (ilog2 y + 1) \<le> 2 powi ilog2 x"
    by (intro power_int_increasing) auto
  then show False using ilog2_bounds [of x] ilog2_bounds [of y] h by auto
qed

subsection \<open>Rounding to an integer\<close>

lemma rne_of_int [simp]: "rne (of_int n) = n"
  by (simp add: rne_def)

lemma rne_cases: "rne x = \<lfloor>x\<rfloor> \<or> rne x = \<lfloor>x\<rfloor> + 1"
  by (auto simp: rne_def Let_def)

lemma rne_mono: "x \<le> y \<Longrightarrow> rne x \<le> rne y"
proof (cases "\<lfloor>x\<rfloor> = \<lfloor>y\<rfloor>")
  case True
  assume "x \<le> y"
  with True show ?thesis by (auto simp: rne_def Let_def)
next
  case False
  assume "x \<le> y"
  with False have "\<lfloor>x\<rfloor> + 1 \<le> \<lfloor>y\<rfloor>" using floor_mono [of x y] by linarith
  then show ?thesis using rne_cases [of x] rne_cases [of y] by auto
qed

lemma rne_error: "\<bar>of_int (rne x) - x\<bar> \<le> 1 / 2"
proof -
  define f where "f = \<lfloor>x\<rfloor>"
  have b: "of_int f \<le> x" "x < of_int f + 1"
    using floor_correct [of x] unfolding f_def by auto
  have "rne x = (if x - of_int f < 1 / 2 then f else if 1 / 2 < x - of_int f then f + 1
                 else if even f then f else f + 1)"
    by (simp add: rne_def f_def)
  then consider "rne x = f" "x - of_int f \<le> 1 / 2" | "rne x = f + 1" "1 / 2 \<le> x - of_int f"
    by (auto split: if_splits)
  then show ?thesis using b by cases (auto simp: abs_le_iff)
qed

lemma rne_le_int: "x \<le> of_int n \<Longrightarrow> rne x \<le> n"
  using rne_mono [of x "of_int n"] by simp

lemma rne_ge_int: "of_int n \<le> x \<Longrightarrow> n \<le> rne x"
  using rne_mono [of "of_int n" x] by simp

subsection \<open>Rounding to a double\<close>

lemma rnd_pos_bounds:
  assumes "0 < x"
  shows "2 powi ilog2 x \<le> rnd_pos x" and "rnd_pos x \<le> 2 powi (ilog2 x + 1)"
proof -
  define u where "u = (2 :: rat) powi (ilog2 x - 52)"
  have u: "0 < u" by (simp add: u_def)
  have s: "2 powi ilog2 x = of_int (2 ^ 52) * u" "2 powi (ilog2 x + 1) = of_int (2 ^ 53) * u"
    by (simp_all add: u_def power_int_diff power_int_add)
  have "of_int (2 ^ 52) \<le> x / u" "x / u \<le> of_int (2 ^ 53)"
    using ilog2_bounds [OF assms] u unfolding s by (simp_all add: pos_le_divide_eq pos_divide_le_eq)
  then have "2 ^ 52 \<le> rne (x / u)" "rne (x / u) \<le> 2 ^ 53"
    by (auto intro: rne_ge_int rne_le_int)
  then have "(of_int (2 ^ 52) :: rat) \<le> of_int (rne (x / u))" "(of_int (rne (x / u)) :: rat) \<le> of_int (2 ^ 53)"
    by (simp_all only: of_int_le_iff)
  then have "of_int (2 ^ 52) * u \<le> of_int (rne (x / u)) * u" "of_int (rne (x / u)) * u \<le> of_int (2 ^ 53) * u"
    using u by (auto intro: mult_right_mono)
  then show "2 powi ilog2 x \<le> rnd_pos x" "rnd_pos x \<le> 2 powi (ilog2 x + 1)"
    unfolding s by (simp_all add: rnd_pos_def u_def Let_def)
qed

lemma rnd_pos_mono:
  assumes "0 < x" "x \<le> y"
  shows "rnd_pos x \<le> rnd_pos y"
proof (cases "ilog2 x = ilog2 y")
  case True
  have "x / 2 powi (ilog2 y - 52) \<le> y / 2 powi (ilog2 y - 52)"
    using assms by (intro divide_right_mono) auto
  then show ?thesis
    using rne_mono by (auto simp: rnd_pos_def Let_def True intro!: mult_right_mono)
next
  case False
  with ilog2_mono [OF assms] have "(2 :: rat) powi (ilog2 x + 1) \<le> 2 powi ilog2 y"
    by (intro power_int_increasing) auto
  then show ?thesis
    using rnd_pos_bounds [of x] rnd_pos_bounds [of y] assms by auto
qed

lemma rnd_pos_positive: "0 < x \<Longrightarrow> 0 < rnd_pos x"
  using rnd_pos_bounds(1) [of x] zero_less_power_int [of "2 :: rat" "ilog2 x"] by linarith

lemma rnd_0 [simp]: "rnd 0 = 0"
  by (simp add: rnd_def)

lemma rnd_minus: "rnd (- x) = - rnd x"
  by (auto simp: rnd_def)

lemma rnd_mono: "x \<le> y \<Longrightarrow> rnd x \<le> rnd y"
proof -
  assume h: "x \<le> y"
  consider "0 < x" | "y < 0" | "x \<le> 0" "0 \<le> y" using h by linarith
  then show ?thesis
  proof cases
    case 1
    with h show ?thesis by (simp add: rnd_def rnd_pos_mono)
  next
    case 2
    with h show ?thesis by (simp add: rnd_def rnd_pos_mono)
  next
    case 3
    then have "rnd x \<le> 0" "0 \<le> rnd y"
      using rnd_pos_positive [of "- x"] rnd_pos_positive [of y]
      by (auto simp: rnd_def)
    then show ?thesis by simp
  qed
qed

lemma rnd_nonneg: "0 \<le> x \<Longrightarrow> 0 \<le> rnd x"
  using rnd_mono [of 0 x] by simp

text \<open>A number with a significand of at most 53 bits is a double and is not changed.\<close>

lemma rnd_pos_exact:
  assumes m: "0 < m" "m < 2 ^ 53" and x: "x = of_int m * 2 powi e"
  shows "rnd_pos x = x"
proof -
  have pos: "0 < x" using m x by simp
  define u where "u = ilog2 x - 52"
  have "(of_int m :: rat) < of_int (2 ^ 53)" using m by (simp only: of_int_less_iff)
  then have "of_int m * 2 powi e < (of_int (2 ^ 53) :: rat) * 2 powi e"
    by (rule mult_strict_right_mono) simp
  then have "x < 2 powi (53 + e)" by (simp add: x power_int_add)
  with ilog2_bounds(1) [OF pos] have "(2 :: rat) powi ilog2 x < 2 powi (53 + e)" by linarith
  then have "ilog2 x < 53 + e"
    using power_int_increasing [of "53 + e" "ilog2 x" "2 :: rat"] by fastforce
  then have k: "0 \<le> e - u" by (simp add: u_def)
  have "x / 2 powi u = of_int m * 2 powi (e - u)"
    by (simp add: x power_int_diff)
  also have "\<dots> = of_int (m * 2 ^ nat (e - u))"
    using k by (simp add: power_int_def)
  finally have "x / 2 powi u = of_int (m * 2 ^ nat (e - u))" .
  then have "rne (x / 2 powi u) = m * 2 ^ nat (e - u)" and "of_int (m * 2 ^ nat (e - u)) * 2 powi u = x"
    by (metis rne_of_int, simp add: field_simps)
  then show ?thesis by (simp add: rnd_pos_def u_def [symmetric])
qed

lemma rnd_pos_idem:
  assumes "0 < x" shows "rnd_pos (rnd_pos x) = rnd_pos x"
proof -
  define u where "u = ilog2 x - 52"
  define m where "m = rne (x / 2 powi u)"
  have x: "rnd_pos x = of_int m * 2 powi u" by (simp add: rnd_pos_def u_def m_def Let_def)
  have "0 < rnd_pos x" using assms by (rule rnd_pos_positive)
  then have m0: "0 < m" using zero_less_power_int [of "2 :: rat" u] by (simp only: x zero_less_mult_iff of_int_0_less_iff) linarith
  have "of_int m * 2 powi u \<le> (2 :: rat) powi (ilog2 x + 1)" using rnd_pos_bounds(2) [OF assms] x by simp
  also have "\<dots> = of_int (2 ^ 53) * 2 powi u" by (simp add: u_def power_int_diff power_int_add)
  finally have "(of_int m :: rat) \<le> of_int (2 ^ 53)" by simp
  then have "m \<le> 2 ^ 53" by (simp only: of_int_le_iff)
  then consider "m < 2 ^ 53" | "m = 2 ^ 53" by linarith
  then show ?thesis
  proof cases
    case 1
    then show ?thesis using rnd_pos_exact [OF m0 1 x] by simp
  next
    case 2
    have "rnd_pos x = of_int 1 * 2 powi (u + 53)" by (simp add: x 2 power_int_add)
    from rnd_pos_exact [OF _ _ this] show ?thesis by simp
  qed
qed

lemma rnd_idem [simp]: "rnd (rnd x) = rnd x"
  using rnd_pos_idem [of x] rnd_pos_idem [of "- x"] rnd_pos_positive [of x] rnd_pos_positive [of "- x"]
  by (auto simp: rnd_def)

lemma rnd_of_nat: "n < 2 ^ 53 \<Longrightarrow> rnd (of_nat n) = of_nat n"
  using rnd_pos_exact [of "int n" "of_nat n" 0] by (auto simp: rnd_def)

lemma rnd_of_int: "\<bar>n\<bar> < 2 ^ 53 \<Longrightarrow> rnd (of_int n) = of_int n"
  using rnd_of_nat [of "nat n"] rnd_of_nat [of "nat (- n)"] rnd_minus [of "of_int (- n)"]
  by (cases "0 \<le> n") auto

lemma rnd_half_of_nat: "n < 2 ^ 53 \<Longrightarrow> rnd (of_nat n / 2) = of_nat n / 2"
  using rnd_pos_exact [of "int n" "of_nat n / 2" "-1"] by (auto simp: rnd_def power_int_minus field_simps)

lemma ilog2_unique:
  assumes "2 powi e \<le> x" "x < 2 powi (e + 1)"
  shows "ilog2 x = e"
proof -
  have x: "0 < x" using assms(1) zero_less_power_int [of "2 :: rat" e] by linarith
  have "(2 :: rat) powi e < 2 powi (ilog2 x + 1)" "(2 :: rat) powi ilog2 x < 2 powi (e + 1)"
    using ilog2_bounds [OF x] assms by auto
  then have "e < ilog2 x + 1" "ilog2 x < e + 1"
    using power_int_increasing [of "ilog2 x + 1" e "2 :: rat"] power_int_increasing [of "e + 1" "ilog2 x" "2 :: rat"]
    by fastforce+
  then show ?thesis by simp
qed

lemma ilog2_double: "0 < x \<Longrightarrow> ilog2 (2 * x) = ilog2 x + 1"
  using ilog2_bounds [of x] by (intro ilog2_unique) (auto simp: power_int_add)

lemma rnd_double: "rnd (2 * x) = 2 * rnd x"
proof -
  have "rnd_pos (2 * y) = 2 * rnd_pos y" if "0 < y" for y
  proof -
    have "(2 :: rat) powi (ilog2 (2 * y) - 52) = 2 * 2 powi (ilog2 y - 52)"
      using that by (simp add: ilog2_double power_int_add power_int_diff)
    then show ?thesis by (simp add: rnd_pos_def Let_def)
  qed
  from this [of x] this [of "- x"] show ?thesis by (auto simp: rnd_def)
qed

lemma unat_double_to_u64:
  assumes "0 \<le> trunc_double x" "trunc_double x < 2 ^ 64"
  shows "unat (double_to_u64 x) = nat (trunc_double x)"
proof -
  have "double_to_u64 x = of_nat (nat (trunc_double x))"
    using assms by (simp add: double_to_u64_def)
  moreover have "nat (trunc_double x) < 2 ^ 64" using assms by simp
  ultimately show ?thesis by (simp only: unat_of_nat) simp
qed

subsection \<open>What the clients rely on\<close>

locale rounding =
  fixes r :: "rat \<Rightarrow> rat"
  assumes r_mono: "x \<le> y \<Longrightarrow> r x \<le> r y"
    and r_minus: "r (- x) = - r x"
    and r_double: "r (2 * x) = 2 * r x"
    and r_of_nat: "n < 2 ^ 53 \<Longrightarrow> r (of_nat n) = of_nat n"
begin

lemma r_zero: "r 0 = 0"
  using r_of_nat [of 0] by simp

lemma r_ge: "r a = a \<Longrightarrow> a \<le> x \<Longrightarrow> a \<le> r x"
  using r_mono [of a x] by simp

lemma r_le: "r a = a \<Longrightarrow> x \<le> a \<Longrightarrow> r x \<le> a"
  using r_mono [of x a] by simp

text \<open>Half the rounded sum of two doubles lies between them.\<close>

lemma average_between:
  assumes "r a = a" "r b = b" "a \<le> b"
  shows "a \<le> r (1 / 2 * r (a + b))" and "r (1 / 2 * r (a + b)) \<le> b"
proof -
  have "2 * a \<le> r (a + b)"
    using r_mono [of "2 * a" "a + b"] assms by (simp add: r_double)
  then show "a \<le> r (1 / 2 * r (a + b))"
    using assms(1) by (intro r_ge) auto
  have "r (a + b) \<le> 2 * b"
    using r_mono [of "a + b" "2 * b"] assms by (simp add: r_double)
  then show "r (1 / 2 * r (a + b)) \<le> b"
    using assms(2) by (intro r_le) auto
qed

text \<open>A ratio of two counts, scaled to a percentage, stays between 0 and 100.\<close>

lemma percentage_bounds:
  assumes "0 \<le> a" "a \<le> t" "0 < t" "r t = t"
  shows "0 \<le> r (r (100 * a) / t)" and "r (r (100 * a) / t) \<le> r (r (100 * t) / t)"
proof -
  have "0 \<le> r (100 * a)" using r_mono [of 0 "100 * a"] assms by (simp add: r_zero)
  then show "0 \<le> r (r (100 * a) / t)"
    using r_mono [of 0 "r (100 * a) / t"] assms by (simp add: r_zero)
  show "r (r (100 * a) / t) \<le> r (r (100 * t) / t)"
    using assms by (intro r_mono divide_right_mono) (auto intro!: r_mono)
qed

end

interpretation ieee: rounding rnd
  by unfold_locales (auto intro: rnd_mono simp: rnd_minus rnd_double rnd_of_nat)

end
