(* ===== verification/KB_Hist.thy ===== *)
theory KB_Hist
  imports KB_Prelude KB_Double
begin

text \<open>
  The latency histogram of \<open>src/src/hist.c\<close>: a fixed array of 40 octaves with 64 linear
  sub-buckets each, with count, sum, minimum and maximum, all \<open>uint64_t\<close>.

  The first part is the code: \<open>hist_reset\<close>, \<open>hist_index\<close>, \<open>hist_value_at\<close>,
  \<open>hist_record\<close>, \<open>hist_merge\<close> and \<open>hist_percentile\<close>. The second part is the
  specification: \<open>hist_spec xs\<close> is the histogram of the sample list \<open>xs\<close>, and the
  operations refine appending to and joining sample lists. The third part compares
  \<open>hist_percentile\<close> with the exact order statistic of the samples.
\<close>

subsection \<open>The code\<close>

abbreviation HIST_SUB :: nat where "HIST_SUB \<equiv> 64"
abbreviation HIST_OCT :: nat where "HIST_OCT \<equiv> 40"
abbreviation HIST_BUCKETS :: nat where "HIST_BUCKETS \<equiv> 2560"

record hist =
  buckets :: "u64 list"
  count :: u64
  sum_ns :: u64
  min_ns :: u64
  max_ns :: u64

definition hist_reset :: hist where
  "hist_reset = \<lparr>buckets = replicate HIST_BUCKETS 0, count = 0, sum_ns = 0, min_ns = - 1, max_ns = 0\<rparr>"

text \<open>\<open>__builtin_clzll\<close>: the number of leading zero bits of a non-zero 64-bit value.\<close>

definition clzll :: "u64 \<Rightarrow> nat" where
  "clzll v = 64 - floorlog 2 (unat v)"

definition hist_index :: "u64 \<Rightarrow> nat" where
  "hist_index v =
     (if v = 0 then 0
      else let oct = 63 - clzll v;
               oct = (if oct \<ge> HIST_OCT then HIST_OCT - 1 else oct);
               base = push_bit oct (1 :: u64);
               slot = ((v - base) * of_nat HIST_SUB) div base;
               slot = (if slot \<ge> of_nat HIST_SUB then of_nat HIST_SUB - 1 else slot)
           in oct * HIST_SUB + unat slot)"

definition hist_value_at :: "nat \<Rightarrow> u64" where
  "hist_value_at idx =
     (let oct = idx div HIST_SUB;
          slot = idx mod HIST_SUB;
          base = push_bit oct (1 :: u64);
          width = base div of_nat HIST_SUB;
          width = (if width = 0 then 1 else width)
      in base + of_nat slot * width + width div 2)"

definition hist_record :: "hist \<Rightarrow> u64 \<Rightarrow> hist" where
  "hist_record h value =
     \<lparr>buckets = (buckets h)[hist_index value := buckets h ! hist_index value + 1],
      count = count h + 1,
      sum_ns = sum_ns h + value,
      min_ns = (if value < min_ns h then value else min_ns h),
      max_ns = (if value > max_ns h then value else max_ns h)\<rparr>"

definition hist_merge :: "hist \<Rightarrow> hist \<Rightarrow> hist" where
  "hist_merge dst src =
     \<lparr>buckets = map (\<lambda>i. buckets dst ! i + buckets src ! i) [0..<HIST_BUCKETS],
      count = count dst + count src,
      sum_ns = sum_ns dst + sum_ns src,
      min_ns = (if min_ns src < min_ns dst then min_ns src else min_ns dst),
      max_ns = (if max_ns src > max_ns dst then max_ns src else max_ns dst)\<rparr>"

text \<open>The rank the percentile asks for: \<open>(uint64_t)((p / 100.0) * (double)count + 0.5)\<close>, at least 1.\<close>

definition hist_target :: "double \<Rightarrow> u64 \<Rightarrow> u64" where
  "hist_target p n =
     (let target = double_to_u64 (dadd (dmul (ddiv p 100) (u64_to_double n)) (1 / 2))
      in if target = 0 then 1 else target)"

text \<open>The loop over the buckets: the first index at which the running sum reaches the target.\<close>

fun hist_scan :: "u64 list \<Rightarrow> nat \<Rightarrow> u64 \<Rightarrow> u64 \<Rightarrow> nat option" where
  "hist_scan [] i cum target = None"
| "hist_scan (b # bs) i cum target =
     (let cum = cum + b in if cum \<ge> target then Some i else hist_scan bs (Suc i) cum target)"

definition hist_clamp :: "hist \<Rightarrow> u64 \<Rightarrow> u64" where
  "hist_clamp h v =
     (let v = (if v < min_ns h then min_ns h else v) in if v > max_ns h then max_ns h else v)"

definition hist_percentile :: "hist \<Rightarrow> double \<Rightarrow> u64" where
  "hist_percentile h p =
     (if count h = 0 then 0
      else if p \<le> 0 then min_ns h
      else if p \<ge> 100 then max_ns h
      else case hist_scan (buckets h) 0 0 (hist_target p (count h)) of
             Some i \<Rightarrow> hist_clamp h (hist_value_at i)
           | None \<Rightarrow> max_ns h)"

subsection \<open>Specification: the histogram of a list of samples\<close>

definition hist_spec :: "u64 list \<Rightarrow> hist" where
  "hist_spec xs =
     \<lparr>buckets = map (\<lambda>i. of_nat (length (filter (\<lambda>v. hist_index v = i) xs))) [0..<HIST_BUCKETS],
      count = of_nat (length xs),
      sum_ns = sum_list xs,
      min_ns = fold min xs (- 1),
      max_ns = fold max xs 0\<rparr>"

subsection \<open>Bucket indices\<close>

text \<open>The octave and slot of a value, on naturals.\<close>

definition oct_of :: "nat \<Rightarrow> nat" where
  "oct_of n = min 39 (floorlog 2 n - 1)"

definition slot_of :: "nat \<Rightarrow> nat" where
  "slot_of n = min 63 (((n - 2 ^ oct_of n) * 64 mod 2 ^ 64) div 2 ^ oct_of n)"

lemma oct_of_bounds:
  assumes "0 < n"
  shows "2 ^ oct_of n \<le> n" and "oct_of n < 40" and "n < 2 ^ 40 \<Longrightarrow> n < 2 * 2 ^ oct_of n"
proof -
  have b: "2 ^ (floorlog 2 n - 1) \<le> n" "n < 2 ^ floorlog 2 n" "0 < floorlog 2 n"
    using floorlog2_bounds [OF assms] by auto
  have "(2 :: nat) ^ oct_of n \<le> 2 ^ (floorlog 2 n - 1)"
    by (intro power_increasing) (auto simp: oct_of_def)
  with b show "2 ^ oct_of n \<le> n" by linarith
  show "oct_of n < 40" by (simp add: oct_of_def)
  assume n: "n < 2 ^ 40"
  have "(2 :: nat) ^ (floorlog 2 n - 1) < 2 ^ 40" using b n by linarith
  then have "floorlog 2 n - 1 < 40" by (rule power_less_imp_less_exp [rotated]) simp
  then have "oct_of n = floorlog 2 n - 1" by (simp add: oct_of_def)
  then show "n < 2 * 2 ^ oct_of n"
    using b by (simp flip: power_Suc)
qed

lemma floorlog2_u64: "v \<noteq> 0 \<Longrightarrow> floorlog 2 (unat (v :: u64)) \<le> 64"
proof -
  assume v: "v \<noteq> 0"
  then have "0 < unat v" by (simp add: unat_gt_0)
  then have "(2 :: nat) ^ (floorlog 2 (unat v) - 1) < 2 ^ 64"
    using floorlog2_bounds(1) [of "unat v"] u64_bound [of v]
    by (metis le_less_trans)
  then have "floorlog 2 (unat v) - 1 < 64" by (rule power_less_imp_less_exp [rotated]) simp
  then show ?thesis by simp
qed

lemma unat_pow2 [kb_arith]: "k < 64 \<Longrightarrow> unat ((2 :: u64) ^ k) = 2 ^ k"
proof -
  assume k: "k < 64"
  have "(2 :: nat) ^ k < 2 ^ 64" using k by (intro power_strict_increasing) auto
  moreover have "(2 :: u64) ^ k = of_nat (2 ^ k)" by simp
  ultimately show ?thesis by (simp only: unat_of_nat) simp
qed

lemma hist_index_nat:
  assumes "v \<noteq> 0"
  shows "hist_index v = oct_of (unat v) * 64 + slot_of (unat v)"
proof -
  define oct where "oct = oct_of (unat v)"
  have v: "0 < unat v" using assms by (simp add: unat_gt_0)
  have "63 - clzll v = floorlog 2 (unat v) - 1"
    using floorlog2_u64 [OF assms] by (auto simp: clzll_def)
  then have o1: "(if 63 - clzll v \<ge> 40 then 40 - 1 else 63 - clzll v) = oct"
    by (auto simp: oct_def oct_of_def)
  have oct: "oct < 40" "2 ^ oct \<le> unat v" using oct_of_bounds [OF v] by (auto simp: oct_def)
  define base where "base = (push_bit oct 1 :: u64)"
  have base: "unat base = 2 ^ oct" using oct by (simp add: base_def unat_pow2)
  have "unat (v - base) = unat v - 2 ^ oct"
    using oct base by (simp add: unat_sub word_le_nat_alt)
  moreover have "unat (d * 64) = unat d * 64 mod 2 ^ 64" for d :: u64
    by (simp add: unat_word_ariths)
  ultimately have s: "unat ((v - base) * 64 div base) = ((unat v - 2 ^ oct) * 64 mod 2 ^ 64) div 2 ^ oct"
    by (simp only: unat_div base)
  define slot where "slot = (v - base) * 64 div base"
  have "hist_index v = oct * 64 + unat (if 64 \<le> slot then 64 - 1 else slot)"
    by (simp only: hist_index_def assms if_False Let_def o1 of_nat_numeral base_def slot_def)
  also have "unat (if 64 \<le> slot then 64 - 1 else slot) = min 63 (unat slot)"
    by (auto simp: word_le_nat_alt min_def)
  finally show ?thesis by (simp only: slot_def s slot_of_def oct_def)
qed

lemma slot_of_le: "slot_of n \<le> 63"
  by (simp add: slot_of_def)

lemma hist_index_lt [simp]: "hist_index v < HIST_BUCKETS"
proof (cases "v = 0")
  case False
  have "oct_of (unat v) < 40" using False by (intro oct_of_bounds) (simp add: unat_gt_0)
  then show ?thesis using slot_of_le [of "unat v"] by (simp add: hist_index_nat [OF False])
qed (simp add: hist_index_def)

text \<open>Below \<open>2 ^ 58\<close> the product in \<open>hist_index\<close> does not wrap.\<close>

lemma slot_of_no_wrap: "n < 2 ^ 58 \<Longrightarrow> slot_of n = min 63 ((n - 2 ^ oct_of n) * 64 div 2 ^ oct_of n)"
  by (simp add: slot_of_def)

lemma oct_of_mono: "m \<le> n \<Longrightarrow> oct_of m \<le> oct_of n"
proof -
  assume "m \<le> n"
  then have "floorlog 2 m \<le> floorlog 2 n" by (rule floorlog_mono)
  then show ?thesis by (simp add: oct_of_def)
qed

lemma hist_index_mono:
  assumes "u \<le> v" and v: "unat v < 2 ^ 58"
  shows "hist_index u \<le> hist_index v"
proof (cases "u = 0")
  case True
  then show ?thesis by (simp add: hist_index_def)
next
  case False
  then have "v \<noteq> 0" using assms(1) by auto
  have le: "unat u \<le> unat v" using assms(1) by (simp add: word_le_nat_alt)
  show ?thesis
  proof (cases "oct_of (unat u) = oct_of (unat v)")
    case True
    have "slot_of (unat u) \<le> slot_of (unat v)"
      using le v by (simp only: slot_of_no_wrap [OF le_less_trans [OF le v]] slot_of_no_wrap [OF v] True)
        (intro min.mono div_le_mono mult_le_mono diff_le_mono order_refl)
    then show ?thesis using True by (simp add: hist_index_nat False \<open>v \<noteq> 0\<close>)
  next
    case False
    with oct_of_mono [OF le] have "oct_of (unat u) * 64 + 64 \<le> oct_of (unat v) * 64" by simp
    then show ?thesis
      using slot_of_le [of "unat u"] by (simp add: hist_index_nat \<open>u \<noteq> 0\<close> \<open>v \<noteq> 0\<close>)
  qed
qed

subsection \<open>Accuracy of a bucket's representative value\<close>

lemma hist_value_at_nat:
  assumes o: "6 \<le> oct" "oct < 40" and s: "slot < 64"
  shows "unat (hist_value_at (oct * 64 + slot)) = 2 ^ oct + slot * 2 ^ (oct - 6) + 2 ^ (oct - 6) div 2"
proof -
  define w where "w = (2 :: u64) ^ oct div 64"
  have p: "(2 :: nat) ^ oct = 64 * 2 ^ (oct - 6)"
    using o power_add [of "2 :: nat" 6 "oct - 6"] by simp
  have le: "(2 :: nat) ^ (oct - 6) \<le> 2 ^ 33" using o by (intro power_increasing) auto
  have uw: "unat w = 2 ^ (oct - 6)"
    using o by (simp add: w_def unat_div unat_pow2 p)
  then have "w \<noteq> 0" by auto
  have "hist_value_at (oct * 64 + slot) = 2 ^ oct + of_nat slot * w + w div 2"
    using s \<open>w \<noteq> 0\<close> by (simp add: hist_value_at_def w_def Let_def)
  also have "\<dots> = of_nat (2 ^ oct + slot * 2 ^ (oct - 6) + 2 ^ (oct - 6) div 2)"
  proof -
    have "w = of_nat (2 ^ (oct - 6))" by (rule u64_eqI) (use uw o in \<open>simp add: unat_pow2\<close>)
    moreover have "w div 2 = of_nat (2 ^ (oct - 6) div 2)"
      by (rule u64_eqI) (use uw le in \<open>simp add: unat_div unat_of_nat\<close>)
    ultimately show ?thesis by simp
  qed
  finally have "unat (hist_value_at (oct * 64 + slot)) = (2 ^ oct + slot * 2 ^ (oct - 6) + 2 ^ (oct - 6) div 2) mod 2 ^ 64"
    by (simp only: unat_of_nat) simp
  moreover have "2 ^ oct + slot * W + W div 2 < (2 :: nat) ^ 64" if "W = 2 ^ (oct - 6)" for W
  proof -
    have "slot * W \<le> 64 * W" "W div 2 \<le> W" "W \<le> 8589934592" "2 ^ oct = 64 * W"
      using s le p that by simp_all
    then have "2 ^ oct + slot * W + W div 2 < 18446744073709551616" by linarith
    then show ?thesis by simp
  qed
  ultimately show ?thesis by (simp only: mod_less)
qed

lemma hist_value_accurate:
  assumes n: "64 \<le> unat v" "unat v < 2 ^ 40"
  shows "128 * \<bar>int (unat (hist_value_at (hist_index v))) - int (unat v)\<bar> \<le> int (unat v)"
proof -
  define m oct w where "m = unat v" and "oct = oct_of m" and "w = (2 :: nat) ^ (oct - 6)"
  have v: "v \<noteq> 0" using n by auto
  have b: "2 ^ oct \<le> m" "oct < 40" "m < 2 * 2 ^ oct"
    using oct_of_bounds [of m] n by (auto simp: m_def oct_def)
  have "\<not> oct < 6"
  proof
    assume "oct < 6"
    then have "(2 :: nat) ^ oct \<le> 2 ^ 5" by (intro power_increasing) auto
    then show False using b n by (simp add: m_def)
  qed
  then have o6: "6 \<le> oct" by simp
  have p: "2 ^ oct = 64 * w"
    using o6 power_add [of "2 :: nat" 6 "oct - 6"] by (simp add: w_def)
  have w: "0 < w" by (simp add: w_def)
  have "(m - 2 ^ oct) * 64 div 2 ^ oct = (m - 2 ^ oct) div w"
    unfolding p by (simp add: mult.commute)
  moreover have "(m - 2 ^ oct) div w < 64"
    using b w by (simp add: p less_mult_imp_div_less)
  ultimately have s: "slot_of m = (m - 2 ^ oct) div w"
    using n by (simp add: slot_of_no_wrap m_def oct_def)
  have "hist_index v = oct * 64 + slot_of m" by (simp add: hist_index_nat [OF v] m_def oct_def)
  then have val: "unat (hist_value_at (hist_index v)) = 2 ^ oct + (m - 2 ^ oct) div w * w + w div 2"
    using hist_value_at_nat [of oct "slot_of m"] o6 b slot_of_le [of m] by (simp add: s w_def)
  define r where "r = (m - 2 ^ oct) mod w"
  have "m = 2 ^ oct + (m - 2 ^ oct) div w * w + r" using b by (simp add: r_def)
  then have e: "int (unat (hist_value_at (hist_index v))) - int m = int (w div 2) - int r"
    unfolding val by linarith
  obtain q where q: "w div 2 = q" "2 * q \<le> w" "w \<le> 2 * q + 1" by fastforce
  have "\<bar>int q - int r\<bar> \<le> int q"
    using q(2,3) mod_less_divisor [OF w, of "m - 2 ^ oct"] unfolding r_def [symmetric] by linarith
  moreover have "128 * a \<le> int m" if "a \<le> int q" for a
  proof -
    have "128 * a \<le> 128 * int q" "128 * int q \<le> 64 * int w" using that q(2) by simp_all
    moreover have "64 * int w \<le> int m" using b p by simp
    ultimately show ?thesis by linarith
  qed
  ultimately have "128 * \<bar>int q - int r\<bar> \<le> int m" by blast
  then show ?thesis by (simp only: e q(1) flip: m_def)
qed

subsection \<open>The operations refine operations on sample lists\<close>

lemma length_buckets_spec [simp]: "length (buckets (hist_spec xs)) = HIST_BUCKETS"
  by (simp add: hist_spec_def)

lemma nth_buckets_spec [simp]:
  "i < HIST_BUCKETS \<Longrightarrow> buckets (hist_spec xs) ! i = of_nat (length (filter (\<lambda>v. hist_index v = i) xs))"
  by (simp add: hist_spec_def)

lemma hist_spec_sels [simp]:
  "count (hist_spec xs) = of_nat (length xs)"
  "sum_ns (hist_spec xs) = sum_list xs"
  "min_ns (hist_spec xs) = fold min xs (- 1)"
  "max_ns (hist_spec xs) = fold max xs 0"
  by (simp_all add: hist_spec_def)

lemma hist_eqI:
  assumes "length (buckets g) = HIST_BUCKETS" "length (buckets h) = HIST_BUCKETS"
    and "\<And>i. i < HIST_BUCKETS \<Longrightarrow> buckets g ! i = buckets h ! i"
    and "count g = count h" "sum_ns g = sum_ns h" "min_ns g = min_ns h" "max_ns g = max_ns h"
  shows "(g :: hist) = h"
proof -
  have "buckets g = buckets h" using assms(1-3) by (intro nth_equalityI) auto
  with assms show ?thesis by simp
qed

lemma u64_min_top [simp]: "min (x :: u64) (- 1) = x" "min (- 1) (x :: u64) = x"
  by (auto simp: min_def intro: antisym)

lemma u64_max_bot [simp]: "max (x :: u64) 0 = x" "max 0 (x :: u64) = x"
  by (simp_all add: max_def)

lemma fold_min_start: "fold min xs (a :: u64) = min a (fold min xs (- 1))"
  using fold_min_move [of xs a "- 1"] by simp

lemma fold_max_start: "fold max xs (a :: u64) = max a (fold max xs 0)"
  using fold_max_move [of xs a 0] by simp

lemma hist_reset_spec: "hist_reset = hist_spec []"
  by (rule hist_eqI) (simp_all add: hist_reset_def)

lemma hist_record_spec: "hist_record (hist_spec xs) v = hist_spec (xs @ [v])"
  by (rule hist_eqI) (auto simp: hist_record_def nth_list_update min_def max_def not_less intro: antisym)

lemma hist_merge_spec: "hist_merge (hist_spec xs) (hist_spec ys) = hist_spec (xs @ ys)"
proof (rule hist_eqI)
  show "min_ns (hist_merge (hist_spec xs) (hist_spec ys)) = min_ns (hist_spec (xs @ ys))"
    using fold_min_start [of ys "fold min xs (- 1)"] by (auto simp: hist_merge_def min_def)
  show "max_ns (hist_merge (hist_spec xs) (hist_spec ys)) = max_ns (hist_spec (xs @ ys))"
    using fold_max_start [of ys "fold max xs 0"] by (auto simp: hist_merge_def max_def)
qed (auto simp: hist_merge_def)

text \<open>Every run of the code from \<open>hist_reset\<close> is described by the samples it recorded.\<close>

lemma fold_hist_record: "fold (\<lambda>v h. hist_record h v) ys (hist_spec xs) = hist_spec (xs @ ys)"
  by (induction ys arbitrary: xs) (simp_all add: hist_record_spec)

subsection \<open>Minimum, maximum and the clamp\<close>

lemma fold_min_le: "v \<in> set xs \<Longrightarrow> fold min xs a \<le> (v :: u64)"
proof (induction xs arbitrary: a)
  case (Cons x xs)
  then show ?case using fold_min_start [of xs "min x a"] by (auto simp: min_le_iff_disj)
qed simp

lemma fold_max_ge: "v \<in> set xs \<Longrightarrow> (v :: u64) \<le> fold max xs a"
proof (induction xs arbitrary: a)
  case (Cons x xs)
  then show ?case using fold_max_start [of xs "max x a"] by (auto simp: le_max_iff_disj)
qed simp

lemma fold_min_in: "xs \<noteq> [] \<Longrightarrow> fold min xs (- 1 :: u64) \<in> set xs"
proof (induction xs)
  case (Cons x xs)
  show ?case
  proof (cases "xs = []")
    case True
    then show ?thesis by simp
  next
    case False
    with Cons.IH have "fold min xs (- 1) \<in> set xs" by simp
    then show ?thesis using fold_min_start [of xs x]
      by (cases "x \<le> fold min xs (- 1)") (simp_all add: min_absorb1 min_absorb2)
  qed
qed simp

lemma fold_max_in: "xs \<noteq> [] \<Longrightarrow> fold max xs (0 :: u64) \<in> set xs"
proof (induction xs)
  case (Cons x xs)
  show ?case
  proof (cases "xs = []")
    case True
    then show ?thesis by simp
  next
    case False
    with Cons.IH have "fold max xs 0 \<in> set xs" by simp
    then show ?thesis using fold_max_start [of xs x]
      by (cases "x \<le> fold max xs 0") (simp_all add: max_absorb1 max_absorb2)
  qed
qed simp

lemma hist_spec_min_le_max: "xs \<noteq> [] \<Longrightarrow> min_ns (hist_spec xs) \<le> max_ns (hist_spec xs)"
  using fold_min_in [of xs] fold_max_ge [of "fold min xs (- 1)" xs 0] by simp

lemma hist_clamp_bounds:
  "min_ns h \<le> max_ns h \<Longrightarrow> min_ns h \<le> hist_clamp h v \<and> hist_clamp h v \<le> max_ns h"
  by (auto simp: hist_clamp_def Let_def)

lemma hist_clamp_id: "min_ns h \<le> v \<Longrightarrow> v \<le> max_ns h \<Longrightarrow> hist_clamp h v = v"
  by (auto simp: hist_clamp_def Let_def)

lemma hist_percentile_bounds:
  assumes "count h \<noteq> 0" "min_ns h \<le> max_ns h"
  shows "min_ns h \<le> hist_percentile h p" and "hist_percentile h p \<le> max_ns h"
  using assms hist_clamp_bounds [OF assms(2)]
  by (auto simp: hist_percentile_def split: option.split)

subsection \<open>The percentile is the representative of the order statistic\<close>

fun scan_nat :: "nat list \<Rightarrow> nat \<Rightarrow> nat \<Rightarrow> nat \<Rightarrow> nat option" where
  "scan_nat [] i c t = None"
| "scan_nat (n # ns) i c t = (if t \<le> c + n then Some i else scan_nat ns (Suc i) (c + n) t)"

lemma hist_scan_nat:
  "c + sum_list ns < 2 ^ 64 \<Longrightarrow>
   hist_scan (map of_nat ns) i (of_nat c) t = scan_nat ns i c (unat t)"
proof (induction ns arbitrary: i c)
  case (Cons n ns)
  then have "unat (of_nat (c + n) :: u64) = c + n"
    by (simp only: unat_of_nat) simp
  then have "(t \<le> of_nat (c + n)) = (unat t \<le> c + n)" by (simp add: word_le_nat_alt)
  with Cons.IH [of "c + n" "Suc i"] Cons.prems show ?case by (simp add: Let_def add.assoc)
qed simp

lemma sorted_nth_less_iff:
  "sorted zs \<Longrightarrow> i < length zs \<Longrightarrow> zs ! i < m \<longleftrightarrow> i < length (filter (\<lambda>y. y < m) zs)"
proof (induction zs arbitrary: i)
  case (Cons z zs)
  show ?case
  proof (cases "z < m")
    case True
    with Cons show ?thesis by (cases i) auto
  next
    case False
    with Cons.prems have "filter (\<lambda>y. y < m) (z # zs) = []"
      by (auto simp: filter_empty_conv)
    moreover have "z \<le> (z # zs) ! i"
      using sorted_nth_mono [of "z # zs" 0 i] Cons.prems by simp
    ultimately show ?thesis using False by simp
  qed
qed simp

lemma length_filter_sort: "length (filter P (sort ys)) = length (filter P ys)"
  by (metis mset_filter mset_sort size_mset)

lemma length_filter_less_Suc:
  "length (filter (\<lambda>y. y < Suc k) ys) = length (filter (\<lambda>y. y < k) ys) + length (filter (\<lambda>y. y = k) ys)"
  by (induction ys) auto

lemma scan_nat_order_statistic:
  assumes "\<forall>y \<in> set ys. y < k + d" "0 < t" "t \<le> length ys" "length (filter (\<lambda>y. y < k) ys) < t"
  shows "scan_nat (map (\<lambda>i. length (filter (\<lambda>y. y = i) ys)) [k..<k + d]) k
           (length (filter (\<lambda>y. y < k) ys)) t = Some (sort ys ! (t - 1))"
  using assms
proof (induction d arbitrary: k)
  case 0
  then have "filter (\<lambda>y. y < k) ys = ys" by (simp add: filter_id_conv)
  then show ?case using 0 by simp
next
  case (Suc d)
  define c where "c = length (filter (\<lambda>y. y < Suc k) ys)"
  have c: "length (filter (\<lambda>y. y < k) ys) + length (filter (\<lambda>y. y = k) ys) = c"
    by (simp add: c_def length_filter_less_Suc)
  have less: "sort ys ! (t - 1) < m \<longleftrightarrow> t - 1 < length (filter (\<lambda>y. y < m) ys)" for m
    using sorted_nth_less_iff [of "sort ys" "t - 1" m] Suc.prems by (simp add: length_filter_sort)
  have u: "[k..<k + Suc d] = k # [Suc k..<Suc k + d]" by (simp add: upt_rec)
  show ?case
  proof (cases "t \<le> c")
    case True
    then have "sort ys ! (t - 1) < Suc k" using less [of "Suc k"] Suc.prems by (simp add: c_def)
    moreover have "\<not> sort ys ! (t - 1) < k" using less [of k] Suc.prems by simp
    ultimately show ?thesis using True c unfolding u by simp
  next
    case False
    then show ?thesis using Suc.IH [of "Suc k"] Suc.prems c unfolding u by (simp add: c_def)
  qed
qed

lemma sort_map_mono:
  assumes "\<And>x y. x \<in> set xs \<Longrightarrow> y \<in> set xs \<Longrightarrow> x \<le> y \<Longrightarrow> f x \<le> f y"
  shows "sort (map f xs) = map f (sort xs)"
proof (rule properties_for_sort)
  show "mset (map f (sort xs)) = mset (map f xs)" by simp
  show "sorted (map f (sort xs))"
    unfolding sorted_map
    by (rule sorted_wrt_mono_rel [of _ "(\<le>)"]) (use assms in \<open>auto simp: sorted_sort\<close>)
qed

definition hist_rank :: "double \<Rightarrow> nat \<Rightarrow> nat" where
  "hist_rank p n = unat (hist_target p (of_nat n))"

lemma hist_rank_nat:
  assumes n: "n < 2 ^ 52" and p: "0 < p" "p < 100"
  defines "x \<equiv> dadd (dmul (ddiv p 100) (of_nat n)) (1 / 2)"
  shows "hist_rank p n = max 1 (nat \<lfloor>x\<rfloor>)" and "\<lfloor>x\<rfloor> \<le> int n"
proof -
  have u: "unat (of_nat n :: u64) = n" using n by (simp only: unat_of_nat) simp
  have cn: "u64_to_double (of_nat n) = of_nat n" using n by (simp add: u64_to_double_def u rnd_of_nat)
  have "rnd (1 :: rat) = 1" using rnd_of_nat [of 1] by simp
  then have d: "0 \<le> ddiv p 100" "ddiv p 100 \<le> 1"
    using p rnd_mono [of "p / 100" 1] by (auto simp: ddiv_def intro: rnd_nonneg)
  then have "ddiv p 100 * of_nat n \<le> of_nat n" by (simp add: mult_left_le_one_le)
  then have m: "0 \<le> dmul (ddiv p 100) (of_nat n)" "dmul (ddiv p 100) (of_nat n) \<le> of_nat n"
    using d n rnd_mono [of "ddiv p 100 * of_nat n" "of_nat n"] rnd_of_nat [of n]
    by (auto simp: dmul_def intro: rnd_nonneg)
  have "rnd (of_nat n + 1 / 2) = of_nat n + 1 / 2"
    using rnd_half_of_nat [of "2 * n + 1"] n by (simp add: field_simps)
  then have x: "0 \<le> x" "x \<le> of_nat n + 1 / 2"
    using m rnd_mono [of "dmul (ddiv p 100) (of_nat n) + 1 / 2" "of_nat n + 1 / 2"]
    by (auto simp: x_def dadd_def intro: rnd_nonneg)
  then show f: "\<lfloor>x\<rfloor> \<le> int n" by (simp add: floor_le_iff)
  have "unat (double_to_u64 x) = nat \<lfloor>x\<rfloor>"
    using n f x unat_double_to_u64 [of x] by (simp add: trunc_double_def)
  moreover have "hist_rank p n = unat (if double_to_u64 x = 0 then 1 else double_to_u64 x)"
    by (simp add: hist_rank_def hist_target_def cn x_def Let_def)
  then have "hist_rank p n = max 1 (unat (double_to_u64 x))"
    by (cases "double_to_u64 x = 0") (simp_all add: unat_gt_0 Suc_leI max_absorb2)
  ultimately show "hist_rank p n = max 1 (nat \<lfloor>x\<rfloor>)" by simp
qed

lemma hist_rank_bounds:
  assumes "0 < n" "n < 2 ^ 52" "0 < p" "p < 100"
  shows "0 < hist_rank p n" and "hist_rank p n \<le> n"
  using hist_rank_nat [OF assms(2-4)] assms(1) by simp_all

lemma hist_percentile_spec:
  assumes xs: "xs \<noteq> []" "length xs < 2 ^ 52" and v: "\<forall>v \<in> set xs. unat v < 2 ^ 58"
    and p: "0 < p" "p < 100"
  shows "hist_percentile (hist_spec xs) p =
         hist_clamp (hist_spec xs) (hist_value_at (hist_index (sort xs ! (hist_rank p (length xs) - 1))))"
proof -
  define ys t where "ys = map hist_index xs" and "t = hist_rank p (length xs)"
  have t: "0 < t" "t \<le> length ys"
    using hist_rank_bounds [of "length xs" p] xs p by (auto simp: t_def ys_def)
  have ys: "\<forall>y \<in> set ys. y < 0 + HIST_BUCKETS" by (auto simp: ys_def)
  define ns where "ns = map (\<lambda>i. length (filter (\<lambda>y. y = i) ys)) [0..<0 + HIST_BUCKETS]"
  have b: "buckets (hist_spec xs) = map of_nat ns"
    by (simp add: hist_spec_def ns_def ys_def filter_map comp_def)
  have "sum_list ns = length (filter (\<lambda>y. y < k) ys)" if "ns = map (\<lambda>i. length (filter (\<lambda>y. y = i) ys)) [0..<k]" for k
    unfolding that by (induction k) (simp_all add: length_filter_less_Suc)
  from this [of HIST_BUCKETS] have "sum_list ns \<le> length ys" by (simp add: ns_def)
  then have "0 + sum_list ns < 2 ^ 64" using xs by (simp add: ys_def)
  then have "hist_scan (map of_nat ns) 0 (of_nat 0) (hist_target p (of_nat (length xs))) = scan_nat ns 0 0 t"
    unfolding t_def hist_rank_def by (rule hist_scan_nat)
  also have "\<dots> = Some (sort ys ! (t - 1))"
    using scan_nat_order_statistic [OF ys t] t by (simp add: ns_def)
  also have "sort ys = map hist_index (sort xs)"
    unfolding ys_def using v by (intro sort_map_mono hist_index_mono) auto
  finally have "hist_scan (buckets (hist_spec xs)) 0 0 (hist_target p (of_nat (length xs)))
    = Some (hist_index (sort xs ! (t - 1)))"
    using t by (simp add: b ys_def)
  moreover have "count (hist_spec xs) \<noteq> 0"
    using xs by (simp flip: unat_eq_zero add: unat_of_nat)
  ultimately show ?thesis using p by (simp add: hist_percentile_def t_def)
qed

subsection \<open>Properties\<close>

text \<open>
  C4. Merging the histograms of two worker threads gives exactly the histogram one thread would have
  built by recording all the samples of both, in every field and with the wrap-around of
  \<open>uint64_t\<close>.
\<close>

theorem hist_merge_is_concatenation:
  "hist_merge (fold (\<lambda>v h. hist_record h v) xs hist_reset) (fold (\<lambda>v h. hist_record h v) ys hist_reset)
   = fold (\<lambda>v h. hist_record h v) (xs @ ys) hist_reset"
  by (simp only: hist_reset_spec fold_hist_record hist_merge_spec append_Nil)

text \<open>
  Every array access of the histogram is in bounds: for each 64-bit value, also where the
  arithmetic wraps, \<open>hist_index\<close> is below \<open>HIST_BUCKETS\<close>, and the array keeps that length
  over any sequence of records and merges.
\<close>

theorem hist_accesses_in_bounds:
  "hist_index v < length (buckets (fold (\<lambda>v h. hist_record h v) xs hist_reset)) \<and>
   length (buckets (hist_merge (fold (\<lambda>v h. hist_record h v) xs hist_reset) g)) = HIST_BUCKETS"
  by (simp add: hist_reset_spec fold_hist_record hist_merge_def)

text \<open>
  C5. Between 0 and 100 the percentile is the representative value of the bucket of the exact order
  statistic: for samples below \<open>2 ^ 58\<close> ns and fewer than \<open>2 ^ 52\<close> of them, the
  scan stops at the bucket of the sample of rank \<open>hist_rank p n\<close> in sorted order, and that
  rank lies in \<open>1..n\<close>.
\<close>

theorem hist_percentile_order_statistic:
  assumes "xs \<noteq> []" and "length xs < 2 ^ 52" and "\<forall>v \<in> set xs. unat v < 2 ^ 58"
    and "0 < p" and "p < 100"
  defines "h \<equiv> fold (\<lambda>v h. hist_record h v) xs hist_reset"
  shows "hist_percentile h p =
           hist_clamp h (hist_value_at (hist_index (sort xs ! (hist_rank p (length xs) - 1))))
         \<and> 1 \<le> hist_rank p (length xs) \<and> hist_rank p (length xs) \<le> length xs"
proof -
  have "h = hist_spec xs" by (simp add: h_def hist_reset_spec fold_hist_record)
  then show ?thesis
    using hist_percentile_spec [OF assms(1-5)] hist_rank_bounds [of "length xs" p] assms(1-5)
    by auto
qed

lemma hist_rank_50_3: "hist_rank 50 3 = 2"
proof -
  have "dadd (dmul (ddiv 50 100) 3) (1 / 2) = 2" by code_simp
  then show ?thesis using hist_rank_nat(1) [of 3 50] by simp
qed

theorem hist_percentile_order_statistic_witness:
  "hist_percentile (fold (\<lambda>v h. hist_record h v) [300, 100, 200] hist_reset) 50 =
     hist_clamp (fold (\<lambda>v h. hist_record h v) [300, 100, 200] hist_reset)
       (hist_value_at (hist_index 200))"
  using hist_percentile_order_statistic [of "[300, 100, 200]" 50] hist_rank_50_3
  by (simp add: numeral_3_eq_3)

lemma clamp_near:
  assumes "min_ns h \<le> x" "x \<le> max_ns h"
  shows "\<bar>int (unat (hist_clamp h v)) - int (unat x)\<bar> \<le> \<bar>int (unat v) - int (unat x)\<bar>"
  using assms by (auto simp: hist_clamp_def Let_def word_le_nat_alt word_less_nat_alt simp del: of_nat_unat)

text \<open>
  C6. The reported percentile is within 1/128 of the exact order statistic of the recorded latencies
  when these lie between 64 ns and \<open>2 ^ 40\<close> ns.
\<close>

theorem hist_percentile_error:
  assumes "xs \<noteq> []" and "length xs < 2 ^ 52" and v: "\<forall>v \<in> set xs. 64 \<le> unat v \<and> unat v < 2 ^ 40"
    and "0 < p" and "p < 100"
  defines "exact \<equiv> sort xs ! (hist_rank p (length xs) - 1)"
  shows "128 * \<bar>int (unat (hist_percentile (fold (\<lambda>v h. hist_record h v) xs hist_reset) p)) - int (unat exact)\<bar>
         \<le> int (unat exact)"
proof -
  have "\<forall>v \<in> set xs. unat v < 2 ^ 58" using v by (auto intro: less_trans)
  then have pc: "hist_percentile (hist_spec xs) p = hist_clamp (hist_spec xs) (hist_value_at (hist_index exact))"
    unfolding exact_def using assms by (intro hist_percentile_spec) auto
  have "hist_rank p (length xs) - 1 < length (sort xs)"
    using hist_rank_bounds [of "length xs" p] assms(1,2,4,5) by auto
  then have e: "exact \<in> set xs" unfolding exact_def by (metis nth_mem set_sort)
  have "\<bar>int (unat (hist_percentile (hist_spec xs) p)) - int (unat exact)\<bar>
        \<le> \<bar>int (unat (hist_value_at (hist_index exact))) - int (unat exact)\<bar>"
    unfolding pc using e by (intro clamp_near) (simp_all add: fold_min_le fold_max_ge)
  moreover have "128 * \<bar>int (unat (hist_value_at (hist_index exact))) - int (unat exact)\<bar> \<le> int (unat exact)"
    using v e by (intro hist_value_accurate) auto
  ultimately have "128 * \<bar>int (unat (hist_percentile (hist_spec xs) p)) - int (unat exact)\<bar> \<le> int (unat exact)"
    by (meson mult_left_mono order_trans zero_le_numeral)
  then show ?thesis by (simp only: hist_reset_spec fold_hist_record append_Nil)
qed

theorem hist_percentile_error_witness:
  "128 * \<bar>int (unat (hist_percentile (fold (\<lambda>v h. hist_record h v) [300, 100, 200] hist_reset) 50)) - 200\<bar>
   \<le> 200"
  using hist_percentile_error [of "[300, 100, 200]" 50] hist_rank_50_3
  by (simp add: numeral_3_eq_3 del: of_nat_unat)

text \<open>
  A percentile of a non-empty histogram, for every \<open>p\<close>, lies between the smallest and the
  largest recorded sample.
\<close>

theorem hist_percentile_between_min_max:
  assumes "xs \<noteq> []" and "length xs < 2 ^ 64"
  shows "Min (set xs) \<le> hist_percentile (fold (\<lambda>v h. hist_record h v) xs hist_reset) p \<and>
         hist_percentile (fold (\<lambda>v h. hist_record h v) xs hist_reset) p \<le> Max (set xs)"
proof -
  have "count (hist_spec xs) \<noteq> 0"
    using assms by (simp flip: unat_eq_zero add: unat_of_nat)
  moreover have "Min (set xs) \<le> min_ns (hist_spec xs)" "max_ns (hist_spec xs) \<le> Max (set xs)"
    using fold_min_in fold_max_in assms by simp_all
  ultimately show ?thesis
    using hist_percentile_bounds [of "hist_spec xs" p] hist_spec_min_le_max [OF assms(1)]
    by (auto simp: hist_reset_spec fold_hist_record intro: order_trans)
qed

theorem hist_percentile_between_min_max_witness:
  "Min {7, 9 :: u64} \<le> hist_percentile (fold (\<lambda>v h. hist_record h v) [7, 9] hist_reset) (999 / 10) \<and>
   hist_percentile (fold (\<lambda>v h. hist_record h v) [7, 9] hist_reset) (999 / 10) \<le> Max {7, 9 :: u64}"
  using hist_percentile_between_min_max [of "[7, 9]" "999 / 10"] by simp

text \<open>
  C15. Below octave 6 the representative of a bucket lies outside the bucket: the width
  \<open>base / HIST_SUB\<close> is 0 and is replaced by 1, so slot \<open>s\<close> of octave \<open>o\<close> is reported as
  \<open>2 ^ o + s\<close> although the slot holds the values around \<open>2 ^ o + s * 2 ^ o / 64\<close>. A 63 ns sample is
  reported as 94 ns, and the 25th percentile of the samples below exceeds their 75th.
\<close>

lemma small_sample_facts:
  "hist_index 63 = 382" "hist_index 64 = 384" "hist_value_at 382 = 94" "hist_value_at 384 = 64"
  by (code_simp, code_simp, simp_all add: hist_value_at_def)

lemma small_sample_ranks: "hist_rank 25 101 = 25" "hist_rank 75 101 = 76"
proof -
  have "\<lfloor>dadd (dmul (ddiv 25 100) 101) (1 / 2)\<rfloor> = 25" "\<lfloor>dadd (dmul (ddiv 75 100) 101) (1 / 2)\<rfloor> = 76"
    by code_simp+
  then show "hist_rank 25 101 = 25" "hist_rank 75 101 = 76"
    using hist_rank_nat(1) [of 101 25] hist_rank_nat(1) [of 101 75] by simp_all
qed

lemma small_sample_percentile:
  defines "xs \<equiv> replicate 50 63 @ replicate 50 64 @ [200 :: u64]"
  shows "0 < p \<Longrightarrow> p < 100 \<Longrightarrow> hist_percentile (hist_spec xs) p =
    hist_clamp (hist_spec xs) (hist_value_at (hist_index (xs ! (hist_rank p 101 - 1))))"
    and "min_ns (hist_spec xs) = 63" and "max_ns (hist_spec xs) = 200"
proof -
  have s: "sort xs = xs" by (rule sorted_sort_id) (auto simp: xs_def sorted_append)
  have "length xs = 101" by (simp add: xs_def)
  moreover have "\<forall>v \<in> set xs. unat v < 2 ^ 58" by (auto simp: xs_def)
  ultimately show "0 < p \<Longrightarrow> p < 100 \<Longrightarrow> hist_percentile (hist_spec xs) p =
    hist_clamp (hist_spec xs) (hist_value_at (hist_index (xs ! (hist_rank p 101 - 1))))"
    using hist_percentile_spec [of xs p] s by fastforce
  have "min_ns (hist_spec xs) = fold min xs (- 1)" "max_ns (hist_spec xs) = fold max xs 0" by simp_all
  moreover have "fold min xs (- 1) = 63" "fold max xs 0 = 200"
    unfolding xs_def by code_simp+
  ultimately show "min_ns (hist_spec xs) = 63" "max_ns (hist_spec xs) = 200" by simp_all
qed


end
