(* ===== verification/KB_Bench.thy ===== *)
theory KB_Bench
  imports KB_Prelude KB_Double
begin

text \<open>
  The shared header \<open>src/src/bench.h\<close>: the key order, the return codes and the backend
  vtable; and the abstract contract of a sorted key value store that the engines promise.

  A key or value with its length is a \<open>bytes\<close> list. A callback's \<open>void *arg\<close> is a value
  threaded through the calls. An engine operation takes the engine state (the \<open>ctx\<close>) and
  returns its C result with the new state, or \<open>None\<close> when the C code would dereference an
  invalid pointer or not return.
\<close>

subsection \<open>Key order\<close>

text \<open>\<open>memcmp\<close> of the C library: the first differing unsigned byte decides. Callers use the sign only.\<close>

fun memcmp :: "bytes \<Rightarrow> bytes \<Rightarrow> nat \<Rightarrow> int" where
  "memcmp (x # a) (y # b) (Suc n) =
     (if x = y then memcmp a b n else int (of_char x) - int (of_char y))"
| "memcmp a b n = 0"

definition kv_keycmp :: "bytes \<Rightarrow> bytes \<Rightarrow> int" where
  "kv_keycmp a b =
     (let n = (if length a < length b then length a else length b);
          c = memcmp a b n
      in if c \<noteq> 0 then c
         else (if length a > length b then 1 else 0) - (if length a < length b then 1 else 0))"

subsection \<open>Return codes and the backend vtable\<close>

definition KV_RETRY :: int where "KV_RETRY = - 2"
definition KV_ERR :: int where "KV_ERR = - 1"

type_synonym 'a kv_range_cb = "'a \<Rightarrow> bytes \<Rightarrow> bytes \<Rightarrow> int \<times> 'a"

text \<open>
  \<open>kv_backend\<close>: an optional entry of the vtable is an option. The \<open>stats\<close> entry calls its
  callback once per metric, so it is the list of those calls in order.
\<close>

record ('c, 'a) kv_backend =
  be_name :: string
  be_ctx :: 'c
  be_put :: "'c \<Rightarrow> bytes \<Rightarrow> bytes \<Rightarrow> (int \<times> 'c) option"
  be_putbatch :: "('c \<Rightarrow> (bytes \<times> bytes) list \<Rightarrow> (int \<times> 'c) option) option"
  be_get :: "'c \<Rightarrow> bytes \<Rightarrow> (int \<times> bytes option \<times> 'c) option"
  be_del :: "'c \<Rightarrow> bytes \<Rightarrow> (int \<times> 'c) option"
  be_delbatch :: "('c \<Rightarrow> bytes list \<Rightarrow> (int \<times> 'c) option) option"
  be_range :: "'c \<Rightarrow> bytes \<Rightarrow> bytes \<Rightarrow> int \<Rightarrow> 'a kv_range_cb option \<Rightarrow> 'a \<Rightarrow> (int \<times> 'a \<times> 'c) option"
  be_close :: "'c \<Rightarrow> 'c option"
  be_version :: "('c \<Rightarrow> string) option"
  be_stats :: "('c \<Rightarrow> (string \<times> double) list) option"
  be_datadir :: "('c \<Rightarrow> string) option"

subsection \<open>The abstract store: strictly sorted association lists\<close>

type_synonym rows = "(bytes \<times> bytes) list"

abbreviation rows_ok :: "rows \<Rightarrow> bool" where
  "rows_ok al \<equiv> sorted_wrt (<) (map fst al)"

fun rows_put :: "bytes \<Rightarrow> bytes \<Rightarrow> rows \<Rightarrow> rows" where
  "rows_put k v [] = [(k, v)]"
| "rows_put k v ((a, b) # al) =
     (if k < a then (k, v) # (a, b) # al else if k = a then (k, v) # al else (a, b) # rows_put k v al)"

fun rows_del :: "bytes \<Rightarrow> rows \<Rightarrow> rows" where
  "rows_del k [] = []"
| "rows_del k ((a, b) # al) = (if k = a then al else (a, b) # rows_del k al)"

definition rows_range :: "bytes \<Rightarrow> bytes \<Rightarrow> rows \<Rightarrow> rows" where
  "rows_range lo hi al = filter (\<lambda>(k, v). lo \<le> k \<and> k < hi) al"

text \<open>
  Feeding rows to a callback until it asks to stop or the limit is reached. \<open>c0\<close> is what a row
  that stops the scan adds to the returned count: 0 for the skiplist, 1 for the other engines.
\<close>

fun rows_feed :: "int \<Rightarrow> int \<Rightarrow> 'a kv_range_cb option \<Rightarrow> rows \<Rightarrow> int \<Rightarrow> 'a \<Rightarrow> int \<times> 'a" where
  "rows_feed c0 limit cb [] n arg = (n, arg)"
| "rows_feed c0 limit cb ((k, v) # al) n arg =
     (if limit \<le> 0 \<or> n < limit then
        (case cb of
           None \<Rightarrow> rows_feed c0 limit cb al (n + 1) arg
         | Some f \<Rightarrow>
             (case f arg k v of
                (stop, arg) \<Rightarrow> if stop \<noteq> 0 then (n + c0, arg) else rows_feed c0 limit cb al (n + 1) arg))
      else (n, arg))"

subsection \<open>The key comparison is the byte-lexicographic order\<close>

lemma memcmp_prefix:
  "n = min (length a) (length b) \<Longrightarrow>
   (if memcmp a b n \<noteq> 0 then memcmp a b n < 0 else length a < length b) = (a < b) \<and>
   (memcmp a b n = 0 \<longrightarrow> take n a = take n b)"
proof (induction n arbitrary: a b)
  case 0
  then show ?case by (cases a; cases b) auto
next
  case (Suc n)
  then obtain x a' y b' where ab: "a = x # a'" "b = y # b'" by (cases a; cases b) auto
  with Suc.prems have "n = min (length a') (length b')" by simp
  from Suc.IH [OF this] show ?case by (cases "x = y") (auto simp: ab less_char_def)
qed

lemma kv_keycmp_less: "kv_keycmp a b < 0 \<longleftrightarrow> a < b"
proof -
  define c where "c = memcmp a b (if length a < length b then length a else length b)"
  have "(if length a < length b then length a else length b) = min (length a) (length b)" by auto
  then have "(if c \<noteq> 0 then c < 0 else length a < length b) = (a < b)"
    unfolding c_def by (rule memcmp_prefix [THEN conjunct1])
  moreover have "kv_keycmp a b = (if c \<noteq> 0 then c else
      (if length a > length b then 1 else 0) - (if length a < length b then 1 else 0))"
    by (simp only: kv_keycmp_def Let_def c_def)
  ultimately show ?thesis by (cases "c = 0") (auto simp flip: not_less)
qed

lemma memcmp_swap: "memcmp b a n = - memcmp a b n"
  by (induction a b n rule: memcmp.induct) auto

lemma kv_keycmp_swap: "kv_keycmp b a = - kv_keycmp a b"
proof -
  define n where "n = (if length a < length b then length a else length b)"
  have n: "(if length b < length a then length b else length a) = n" by (auto simp: n_def)
  show ?thesis
    unfolding kv_keycmp_def Let_def n_def [symmetric] n memcmp_swap [of b a n] by auto
qed

lemma kv_keycmp_greater: "0 < kv_keycmp a b \<longleftrightarrow> b < a"
  using kv_keycmp_less [of b a] kv_keycmp_swap [of a b] by simp

lemma kv_keycmp_eq: "kv_keycmp a b = 0 \<longleftrightarrow> a = b"
  using kv_keycmp_less [of a b] kv_keycmp_greater [of a b] by (metis less_irrefl linorder_neqE linorder_less_linear)

lemma kv_keycmp_ge: "0 \<le> kv_keycmp a b \<longleftrightarrow> b \<le> a"
  using kv_keycmp_less [of a b] by (simp add: not_less [symmetric])

lemmas kv_keycmp_order = kv_keycmp_less kv_keycmp_greater kv_keycmp_eq kv_keycmp_ge

subsection \<open>Laws of the abstract store\<close>

lemma set_rows_put: "fst ` set (rows_put k v al) = insert k (fst ` set al)"
  by (induction k v al rule: rows_put.induct) auto

lemma rows_ok_put: "rows_ok al \<Longrightarrow> rows_ok (rows_put k v al)"
proof (induction al)
  case (Cons p al)
  have "fst ` set (rows_put k v al) = insert k (fst ` set al)" by (rule set_rows_put)
  then have *: "\<forall>x \<in> set (rows_put k v al). fst x = k \<or> fst x \<in> fst ` set al" by blast
  with Cons show ?case by (cases p) (fastforce simp: image_iff)
qed simp

lemma rows_del_id: "k \<notin> fst ` set al \<Longrightarrow> rows_del k al = al"
  by (induction al) auto

lemma set_rows_del: "set (rows_del k al) \<subseteq> set al"
  by (induction k al rule: rows_del.induct) auto

lemma rows_ok_del: "rows_ok al \<Longrightarrow> rows_ok (rows_del k al)"
proof (induction al)
  case (Cons p al)
  then show ?case using set_rows_del [of k al] by (cases p) auto
qed simp

lemma map_of_rows_put: "map_of (rows_put k v al) = (map_of al)(k \<mapsto> v)"
  by (induction al) (auto simp: fun_eq_iff)

lemma map_of_rows_del: "rows_ok al \<Longrightarrow> map_of (rows_del k al) = (map_of al)(k := None)"
proof (induction al)
  case (Cons p al)
  then have "map_of al (fst p) = None" by (auto simp: map_of_eq_None_iff)
  with Cons show ?case by (cases p) (auto simp: fun_eq_iff)
qed simp

lemma rows_put_append:
  assumes "\<forall>x \<in> set pre. fst x < k" "\<forall>x \<in> set suf. k < fst x"
  shows "rows_put k v (pre @ suf) = pre @ (k, v) # suf"
  using assms
proof (induction pre)
  case Nil
  then show ?case by (cases suf) auto
next
  case (Cons p pre)
  then show ?case by (cases p) auto
qed

lemma rows_put_replace:
  "\<forall>x \<in> set pre. fst x < k \<Longrightarrow> rows_put k v (pre @ (k, w) # suf) = pre @ (k, v) # suf"
  by (induction pre) auto

lemma rows_del_append:
  "\<forall>x \<in> set pre. fst x < k \<Longrightarrow> rows_del k (pre @ (k, w) # suf) = pre @ suf"
  by (induction pre) auto

subsection \<open>Property\<close>

text \<open>
  The key comparison decides the lexicographic order of byte strings with unsigned bytes (a proper
  prefix comes first), is zero for equal keys only, and changes sign when its arguments are swapped.
\<close>

theorem kv_keycmp_is_byte_order:
  "(kv_keycmp a b < 0 \<longleftrightarrow> (a, b) \<in> lexord {(u, v). (of_char u :: nat) < of_char v}) \<and>
   (kv_keycmp a b = 0 \<longleftrightarrow> a = b) \<and> kv_keycmp b a = - kv_keycmp a b"
  using kv_keycmp_less [of a b] kv_keycmp_eq [of a b] kv_keycmp_swap [of b a]
  by (simp add: list_less_def less_char_def)

end
