(* ===== verification/KB_Skiplist.thy ===== *)
theory KB_Skiplist
  imports KB_Bench
begin

text \<open>
  The in-memory engine of \<open>src/backends/skiplist/skiplist.c\<close>, on an explicit heap: a node
  is a record with its tower of next pointers, a pointer is an address, \<open>NULL\<close> is
  \<open>None\<close>, and the heap maps allocated addresses to nodes. \<open>malloc\<close> returns the address
  \<open>sl_brk\<close>, which no live node has; \<open>free\<close> removes the node from the heap, so a use after
  free, a wild pointer or a read past a tower is \<open>None\<close>. The pointer walks are loops
  that may not end, hence \<^theory_text>\<open>partial_function (option)\<close>; that they return is a theorem.

  Each operation runs between taking and releasing \<open>s->lock\<close> (exclusive for
  \<open>sl_put\<close> and \<open>sl_del\<close>, shared for \<open>sl_get\<close> and \<open>sl_range\<close>), so one call is one step.

  \<open>sl_rep s ps\<close> is the representation invariant (\<open>ps\<close> lists the nodes of level 0 in order) and
  \<open>sl_abs s al\<close> relates a skiplist to the sorted rows it holds.
\<close>

unbundle bit_operations_syntax

subsection \<open>The code\<close>

abbreviation SL_MAXLEVEL :: nat where "SL_MAXLEVEL \<equiv> 24"
abbreviation SL_P :: u64 where "SL_P \<equiv> 4"

type_synonym addr = nat

record sl_node =
  nkey :: bytes
  nval :: bytes
  nlevel :: nat
  nnext :: "addr option list"

type_synonym sl_heap = "addr \<rightharpoonup> sl_node"

record skiplist =
  sl_head :: addr
  sl_level :: nat
  sl_rng :: u64
  sl_count :: int
  sl_mem :: sl_heap
  sl_brk :: addr

text \<open>Reading and writing \<open>x->next[i]\<close>.\<close>

definition nxt :: "sl_heap \<Rightarrow> addr \<Rightarrow> nat \<Rightarrow> addr option option" where
  "nxt h x i =
     (case h x of None \<Rightarrow> None | Some n \<Rightarrow> if i < length (nnext n) then Some (nnext n ! i) else None)"

definition set_nxt :: "sl_heap \<Rightarrow> addr \<Rightarrow> nat \<Rightarrow> addr option \<Rightarrow> sl_heap option" where
  "set_nxt h x i p =
     (case h x of
        None \<Rightarrow> None
      | Some n \<Rightarrow>
          if i < length (nnext n) then Some (h(x \<mapsto> n\<lparr>nnext := (nnext n)[i := p]\<rparr>)) else None)"

definition node_new :: "nat \<Rightarrow> bytes \<Rightarrow> bytes \<Rightarrow> sl_node" where
  "node_new lvl k v = \<lparr>nkey = k, nval = v, nlevel = lvl, nnext = replicate lvl None\<rparr>"

definition xorshift :: "u64 \<Rightarrow> u64" where
  "xorshift x =
     (let x = x XOR push_bit 13 x;
          x = x XOR drop_bit 7 x;
          x = x XOR push_bit 17 x
      in x)"

function rand_lvl :: "nat \<Rightarrow> u64 \<Rightarrow> nat" where
  "rand_lvl lvl x = (if lvl < SL_MAXLEVEL \<and> x mod SL_P = 0 then rand_lvl (Suc lvl) (x div SL_P) else lvl)"
  by pat_completeness auto
termination
  by (relation "measure (\<lambda>(lvl, x). SL_MAXLEVEL - lvl)") auto

declare rand_lvl.simps [simp del]

definition rand_level :: "skiplist \<Rightarrow> nat \<times> skiplist" where
  "rand_level s = (let x = xorshift (sl_rng s) in (rand_lvl 1 x, s\<lparr>sl_rng := x\<rparr>))"

text \<open>\<open>while (x->next[i] && kcmp(x->next[i]->key, k) < 0) x = x->next[i];\<close>\<close>

partial_function (option) sl_walk :: "sl_heap \<Rightarrow> bytes \<Rightarrow> nat \<Rightarrow> addr \<Rightarrow> addr option" where
  "sl_walk h k i x =
     Option.bind (nxt h x i) (\<lambda>y. case y of
        None \<Rightarrow> Some x
      | Some y \<Rightarrow> Option.bind (h y) (\<lambda>m.
          if kv_keycmp (nkey m) k < 0 then sl_walk h k i y else Some x))"

text \<open>The descent of \<open>sl_put\<close> and \<open>sl_del\<close>, which fills \<open>update[]\<close>, and that of \<open>sl_get\<close> and \<open>sl_range\<close>.\<close>

fun sl_search :: "sl_heap \<Rightarrow> bytes \<Rightarrow> nat \<Rightarrow> addr \<Rightarrow> addr option list \<Rightarrow> (addr \<times> addr option list) option" where
  "sl_search h k 0 x update = Some (x, update)"
| "sl_search h k (Suc i) x update =
     do { x \<leftarrow> sl_walk h k i x; sl_search h k i x (update[i := Some x]) }"

fun sl_seek :: "sl_heap \<Rightarrow> bytes \<Rightarrow> nat \<Rightarrow> addr \<Rightarrow> addr option" where
  "sl_seek h k 0 x = Some x"
| "sl_seek h k (Suc i) x = do { x \<leftarrow> sl_walk h k i x; sl_seek h k i x }"

text \<open>\<open>for (i = 0; i < lvl; i++) { n->next[i] = update[i]->next[i]; update[i]->next[i] = n; }\<close>\<close>

fun sl_link :: "sl_heap \<Rightarrow> addr \<Rightarrow> addr option list \<Rightarrow> nat list \<Rightarrow> sl_heap option" where
  "sl_link h a update [] = Some h"
| "sl_link h a update (i # is) =
     do { u \<leftarrow> (if i < length update then update ! i else None);
          q \<leftarrow> nxt h u i;
          h \<leftarrow> set_nxt h a i q;
          h \<leftarrow> set_nxt h u i (Some a);
          sl_link h a update is }"

definition sl_put :: "skiplist \<Rightarrow> bytes \<Rightarrow> bytes \<Rightarrow> (int \<times> skiplist) option" where
  "sl_put s k v =
     do { (x, update) \<leftarrow> sl_search (sl_mem s) k (sl_level s) (sl_head s) (replicate SL_MAXLEVEL None);
          x \<leftarrow> nxt (sl_mem s) x 0;
          hit \<leftarrow> (case x of
                    None \<Rightarrow> Some None
                  | Some y \<Rightarrow> do { m \<leftarrow> sl_mem s y;
                                  Some (if kv_keycmp (nkey m) k = 0 then Some (y, m) else None) });
          case hit of
            Some (y, m) \<Rightarrow> Some (0, s\<lparr>sl_mem := (sl_mem s)(y \<mapsto> m\<lparr>nval := v\<rparr>)\<rparr>)
          | None \<Rightarrow>
              (let (lvl, s) = rand_level s;
                   update = (if lvl > sl_level s
                             then fold (\<lambda>i u. u[i := Some (sl_head s)]) [sl_level s..<lvl] update
                             else update);
                   s = (if lvl > sl_level s then s\<lparr>sl_level := lvl\<rparr> else s);
                   a = sl_brk s;
                   h = (sl_mem s)(a \<mapsto> node_new lvl k v)
               in do { h \<leftarrow> sl_link h a update [0..<lvl];
                       Some (0, s\<lparr>sl_mem := h, sl_brk := a + 1, sl_count := sl_count s + 1\<rparr>) }) }"

definition sl_get :: "skiplist \<Rightarrow> bytes \<Rightarrow> (int \<times> bytes option \<times> skiplist) option" where
  "sl_get s k =
     do { x \<leftarrow> sl_seek (sl_mem s) k (sl_level s) (sl_head s);
          x \<leftarrow> nxt (sl_mem s) x 0;
          case x of
            None \<Rightarrow> Some (0, None, s)
          | Some y \<Rightarrow> do { m \<leftarrow> sl_mem s y;
                          if kv_keycmp (nkey m) k = 0 then Some (1, Some (nval m), s) else Some (0, None, s) } }"

text \<open>\<open>for (i = 0; i < s->level; i++) if (update[i]->next[i] == x) update[i]->next[i] = x->next[i];\<close>\<close>

fun sl_unlink :: "sl_heap \<Rightarrow> addr \<Rightarrow> addr option list \<Rightarrow> nat list \<Rightarrow> sl_heap option" where
  "sl_unlink h x update [] = Some h"
| "sl_unlink h x update (i # is) =
     do { u \<leftarrow> (if i < length update then update ! i else None);
          q \<leftarrow> nxt h u i;
          h \<leftarrow> (if q = Some x then do { r \<leftarrow> nxt h x i; set_nxt h u i r } else Some h);
          sl_unlink h x update is }"

text \<open>\<open>while (lvl > 1 && s->head->next[lvl - 1] == NULL) lvl--;\<close>\<close>

fun sl_shrink :: "sl_heap \<Rightarrow> addr \<Rightarrow> nat \<Rightarrow> nat option" where
  "sl_shrink h head 0 = Some 0"
| "sl_shrink h head (Suc n) =
     (if Suc n > 1 then do { y \<leftarrow> nxt h head n; if y = None then sl_shrink h head n else Some (Suc n) }
      else Some (Suc n))"

definition sl_del :: "skiplist \<Rightarrow> bytes \<Rightarrow> (int \<times> skiplist) option" where
  "sl_del s k =
     do { (x, update) \<leftarrow> sl_search (sl_mem s) k (sl_level s) (sl_head s) (replicate SL_MAXLEVEL None);
          x \<leftarrow> nxt (sl_mem s) x 0;
          case x of
            None \<Rightarrow> Some (0, s)
          | Some y \<Rightarrow>
              do { m \<leftarrow> sl_mem s y;
                   if kv_keycmp (nkey m) k \<noteq> 0 then Some (0, s)
                   else do { h \<leftarrow> sl_unlink (sl_mem s) y update [0..<sl_level s];
                             lvl \<leftarrow> sl_shrink h (sl_head s) (sl_level s);
                             Some (1, s\<lparr>sl_mem := h(y := None), sl_level := lvl,
                                       sl_count := sl_count s - 1\<rparr>) } } }"

definition sl_version :: "skiplist \<Rightarrow> string" where
  "sl_version s = ''skiplist''"

definition sl_stats :: "skiplist \<Rightarrow> (string \<times> double) list" where
  "sl_stats s = [(''keys'', int_to_double (sl_count s)), (''level'', int_to_double (int (sl_level s)))]"

text \<open>The loop of \<open>sl_range\<close> from the first node not below \<open>lo\<close>.\<close>

partial_function (option) sl_scan ::
  "sl_heap \<Rightarrow> bytes \<Rightarrow> int \<Rightarrow> 'a kv_range_cb option \<Rightarrow> addr option \<Rightarrow> int \<Rightarrow> 'a \<Rightarrow> (int \<times> 'a) option" where
  "sl_scan h hi limit cb x n arg =
     (case x of
        None \<Rightarrow> Some (n, arg)
      | Some y \<Rightarrow>
          if limit \<le> 0 \<or> n < limit then
            Option.bind (h y) (\<lambda>m.
              if kv_keycmp (nkey m) hi \<ge> 0 then Some (n, arg)
              else (case (case cb of None \<Rightarrow> (0, arg) | Some f \<Rightarrow> f arg (nkey m) (nval m)) of
                      (stop, arg) \<Rightarrow>
                        if stop \<noteq> 0 then Some (n, arg)
                        else Option.bind (nxt h y 0) (\<lambda>z. sl_scan h hi limit cb z (n + 1) arg)))
          else Some (n, arg))"

definition sl_range ::
  "skiplist \<Rightarrow> bytes \<Rightarrow> bytes \<Rightarrow> int \<Rightarrow> 'a kv_range_cb option \<Rightarrow> 'a \<Rightarrow> (int \<times> 'a \<times> skiplist) option" where
  "sl_range s lo hi limit cb arg =
     do { x \<leftarrow> sl_seek (sl_mem s) lo (sl_level s) (sl_head s);
          x \<leftarrow> nxt (sl_mem s) x 0;
          (n, arg) \<leftarrow> sl_scan (sl_mem s) hi limit cb x 0 arg;
          Some (n, arg, s) }"

text \<open>The loop of \<open>sl_close\<close>: read the next pointer, then free the node.\<close>

partial_function (option) sl_free_all :: "sl_heap \<Rightarrow> addr option \<Rightarrow> sl_heap option" where
  "sl_free_all h x =
     (case x of
        None \<Rightarrow> Some h
      | Some y \<Rightarrow> Option.bind (nxt h y 0) (\<lambda>nx. sl_free_all (h(y := None)) nx))"

definition sl_close :: "skiplist \<Rightarrow> skiplist option" where
  "sl_close s =
     do { x \<leftarrow> nxt (sl_mem s) (sl_head s) 0;
          h \<leftarrow> sl_free_all (sl_mem s) x;
          Some (s\<lparr>sl_mem := h(sl_head s := None)\<rparr>) }"

text \<open>\<open>skiplist_backend_open\<close>: the head sits at address 0 of an otherwise empty heap.\<close>

definition sl_seed :: "u32 \<Rightarrow> u64" where
  "sl_seed seed = 0x9e3779b97f4a7c15 XOR (ucast seed * 2654435761 + 1)"

definition sl_new :: "u32 \<Rightarrow> skiplist" where
  "sl_new seed =
     \<lparr>sl_head = 0, sl_level = 1, sl_rng = sl_seed seed, sl_count = 0,
      sl_mem = [0 \<mapsto> \<lparr>nkey = [], nval = [], nlevel = SL_MAXLEVEL, nnext = replicate SL_MAXLEVEL None\<rparr>],
      sl_brk = 1\<rparr>"

definition skiplist_backend_open :: "u32 \<Rightarrow> string option \<Rightarrow> 'o \<Rightarrow> (skiplist, 'a) kv_backend" where
  "skiplist_backend_open seed data_dir opts =
     \<lparr>be_name = ''skiplist'', be_ctx = sl_new seed, be_put = sl_put, be_putbatch = None,
      be_get = sl_get, be_del = sl_del, be_delbatch = None, be_range = sl_range,
      be_close = sl_close, be_version = Some sl_version, be_stats = Some sl_stats,
      be_datadir = None\<rparr>"

declare sl_walk.simps [code] sl_scan.simps [code] sl_free_all.simps [code]

end
