(* ===== verification/KB_Skiplist_Rep.thy ===== *)
theory KB_Skiplist_Rep
  imports KB_Skiplist
begin

text \<open>
  The representation invariant of the skiplist and the lemmas on pointer chains that the
  correctness proofs use: how a chain at one level decomposes, what the walks return, and how
  linking and unlinking a tower changes every level at once.
\<close>

subsection \<open>Chains\<close>

fun chain :: "sl_heap \<Rightarrow> nat \<Rightarrow> addr \<Rightarrow> addr list \<Rightarrow> bool" where
  "chain h i x [] \<longleftrightarrow> nxt h x i = Some None"
| "chain h i x (p # ps) \<longleftrightarrow> nxt h x i = Some (Some p) \<and> chain h i p ps"

abbreviation key_of :: "sl_heap \<Rightarrow> addr \<Rightarrow> bytes" where "key_of h p \<equiv> nkey (the (h p))"
abbreviation val_of :: "sl_heap \<Rightarrow> addr \<Rightarrow> bytes" where "val_of h p \<equiv> nval (the (h p))"
abbreviation lvl_of :: "sl_heap \<Rightarrow> addr \<Rightarrow> nat" where "lvl_of h p \<equiv> nlevel (the (h p))"

text \<open>The nodes of \<open>ps\<close> that take part in level \<open>i\<close>.\<close>

abbreviation at_level :: "sl_heap \<Rightarrow> nat \<Rightarrow> addr list \<Rightarrow> addr list" where
  "at_level h i ps \<equiv> filter (\<lambda>p. i < lvl_of h p) ps"

definition node_ok :: "nat \<Rightarrow> sl_node \<Rightarrow> bool" where
  "node_ok lv n \<longleftrightarrow> 1 \<le> nlevel n \<and> nlevel n \<le> lv \<and> length (nnext n) = nlevel n"

definition sl_rep :: "skiplist \<Rightarrow> addr list \<Rightarrow> bool" where
  "sl_rep s ps \<longleftrightarrow>
     distinct (sl_head s # ps) \<and>
     dom (sl_mem s) = insert (sl_head s) (set ps) \<and>
     (\<forall>p \<in> dom (sl_mem s). p < sl_brk s) \<and>
     1 \<le> sl_level s \<and> sl_level s \<le> SL_MAXLEVEL \<and>
     length (nnext (the (sl_mem s (sl_head s)))) = SL_MAXLEVEL \<and>
     (\<forall>p \<in> set ps. node_ok (sl_level s) (the (sl_mem s p))) \<and>
     sorted_wrt (<) (map (key_of (sl_mem s)) ps) \<and>
     (\<forall>i < SL_MAXLEVEL. chain (sl_mem s) i (sl_head s) (at_level (sl_mem s) i ps)) \<and>
     sl_count s = int (length ps)"

definition sl_rows :: "sl_heap \<Rightarrow> addr list \<Rightarrow> rows" where
  "sl_rows h ps = map (\<lambda>p. (key_of h p, val_of h p)) ps"

definition sl_abs :: "skiplist \<Rightarrow> rows \<Rightarrow> bool" where
  "sl_abs s al \<longleftrightarrow> (\<exists>ps. sl_rep s ps \<and> al = sl_rows (sl_mem s) ps)"

lemma chain_append:
  "chain h i x (ps @ qs) \<Longrightarrow> chain h i (last (x # ps)) qs"
  by (induction ps arbitrary: x) auto

lemma chain_start: "chain h i x ps \<Longrightarrow> nxt h x i \<noteq> None"
  by (cases ps) auto

lemma chain_last: "chain h i x ps \<Longrightarrow> nxt h (last (x # ps)) i = Some None"
  using chain_append [of h i x ps "[]"] by simp

lemma chain_next:
  "chain h i x (ps @ qs) \<Longrightarrow> nxt h (last (x # ps)) i = Some (case qs of [] \<Rightarrow> None | q # _ \<Rightarrow> Some q)"
  using chain_append [of h i x ps qs] by (cases qs) auto

lemma chain_cong:
  "(\<And>y. y \<in> set (x # ps) \<Longrightarrow> nxt g y i = nxt h y i) \<Longrightarrow> chain g i x ps = chain h i x ps"
  by (induction ps arbitrary: x) auto

text \<open>Inserting a node behind the last node of a prefix, and removing it again.\<close>

lemma chain_insert:
  assumes "chain h i x (ps @ qs)" "distinct (x # ps @ qs)" "a \<notin> set (x # ps @ qs)"
    and "nxt g a i = nxt h (last (x # ps)) i"
    and "nxt g (last (x # ps)) i = Some (Some a)"
    and "\<And>y. y \<noteq> a \<Longrightarrow> y \<noteq> last (x # ps) \<Longrightarrow> nxt g y i = nxt h y i"
  shows "chain g i x (ps @ a # qs)"
  using assms
proof (induction ps arbitrary: x)
  case Nil
  have "chain g i a qs"
  proof (cases qs)
    case Nil
    with Nil.prems show ?thesis by simp
  next
    case (Cons q qs')
    have "chain g i q qs' = chain h i q qs'"
      using Nil.prems Cons by (intro chain_cong Nil.prems(6)) auto
    with Cons Nil.prems show ?thesis by simp
  qed
  with Nil.prems show ?case by simp
next
  case (Cons p ps)
  have "x \<noteq> last (p # ps)" using Cons.prems(2) last_in_set [of "p # ps"] by force
  with Cons.prems have "nxt g x i = nxt h x i" by simp
  moreover have "chain g i p (ps @ a # qs)" using Cons.prems by (intro Cons.IH) auto
  ultimately show ?case using Cons.prems by simp
qed

lemma chain_remove:
  assumes "chain h i x (ps @ a # qs)" "distinct (x # ps @ a # qs)"
    and "nxt g (last (x # ps)) i = nxt h a i"
    and "\<And>y. y \<noteq> a \<Longrightarrow> y \<noteq> last (x # ps) \<Longrightarrow> nxt g y i = nxt h y i"
  shows "chain g i x (ps @ qs)"
  using assms
proof (induction ps arbitrary: x)
  case Nil
  show ?case
  proof (cases qs)
    case Nil
    with Nil.prems show ?thesis by simp
  next
    case (Cons q qs')
    have "chain g i q qs' = chain h i q qs'"
      using Nil.prems Cons by (intro chain_cong Nil.prems(4)) auto
    with Cons Nil.prems show ?thesis by simp
  qed
next
  case (Cons p ps)
  have "x \<noteq> last (p # ps)" using Cons.prems(2) last_in_set [of "p # ps"] by force
  with Cons.prems have "nxt g x i = nxt h x i" by simp
  moreover have "chain g i p (ps @ qs)" using Cons.prems by (intro Cons.IH) auto
  ultimately show ?case using Cons.prems by simp
qed

subsection \<open>Walking a chain\<close>

lemma sl_walk_chain:
  assumes "chain h i x ps" "set ps \<subseteq> dom h"
  shows "sl_walk h k i x = Some (last (x # takeWhile (\<lambda>p. key_of h p < k) ps))"
  using assms
proof (induction ps arbitrary: x)
  case Nil
  then show ?case by (simp add: sl_walk.simps)
next
  case (Cons p ps)
  then obtain m where m: "h p = Some m" by auto
  have "sl_walk h k i x = (if key_of h p < k then sl_walk h k i p else Some x)"
    using Cons.prems m by (subst sl_walk.simps) (simp add: kv_keycmp_order)
  then show ?case using Cons by simp
qed

text \<open>
  The predecessor of a key at level \<open>i\<close>, when \<open>pre\<close> are the nodes below the key: the last
  of them that reaches that level, or the head.
\<close>

definition pred_at :: "sl_heap \<Rightarrow> addr \<Rightarrow> addr list \<Rightarrow> nat \<Rightarrow> addr" where
  "pred_at h head pre i = last (head # at_level h i pre)"

lemma last_filter_split:
  assumes "\<And>p. P p \<Longrightarrow> Q p"
  shows "\<exists>as bs. filter Q ps = as @ bs \<and> last (x # as) = last (x # filter P ps)"
proof (cases "filter P ps = []")
  case True
  then show ?thesis by (intro exI [of _ "[]"] exI [of _ "filter Q ps"]) simp
next
  case False
  define l where "l = last (filter P ps)"
  have "l \<in> set (filter Q ps)"
    using assms last_in_set [OF False] by (auto simp: l_def)
  then obtain as bs where "filter Q ps = as @ l # bs" by (meson split_list)
  then have "filter Q ps = (as @ [l]) @ bs \<and> last (x # (as @ [l])) = last (x # filter P ps)"
    using False by (simp add: l_def)
  then show ?thesis by blast
qed

lemma sl_walk_step:
  assumes ch: "chain h i head (at_level h i (pre @ suf))" and dom: "set (pre @ suf) \<subseteq> dom h"
    and pre: "\<forall>p \<in> set pre. key_of h p < k" and suf: "\<forall>p \<in> set suf. \<not> key_of h p < k"
  shows "sl_walk h k i (pred_at h head pre (Suc i)) = Some (pred_at h head pre i)"
proof -
  obtain as bs where ab: "at_level h i pre = as @ bs" "last (head # as) = pred_at h head pre (Suc i)"
    unfolding pred_at_def using last_filter_split [of "\<lambda>p. Suc i < lvl_of h p" "\<lambda>p. i < lvl_of h p" pre head]
    by auto
  have c: "chain h i (pred_at h head pre (Suc i)) (bs @ at_level h i suf)"
    using chain_append [of h i head as "bs @ at_level h i suf"] ch ab by simp
  have d: "set bs \<subseteq> set pre" using ab(1) by (metis filter_is_subset Un_upper2 order_trans set_append)
  have t: "takeWhile (\<lambda>p. key_of h p < k) (bs @ at_level h i suf) = bs"
  proof -
    have "takeWhile (\<lambda>p. key_of h p < k) (at_level h i suf) = []"
      using suf by (cases "at_level h i suf") (auto dest: filter_eq_ConsD simp: Cons_eq_filter_iff)
    then show ?thesis using d pre by (subst takeWhile_append2) auto
  qed
  have "set (bs @ at_level h i suf) \<subseteq> dom h" using d dom by auto
  then have "sl_walk h k i (pred_at h head pre (Suc i)) = Some (last (pred_at h head pre (Suc i) # bs))"
    using sl_walk_chain [OF c, of k] unfolding t by blast
  moreover have "last (pred_at h head pre (Suc i) # bs) = pred_at h head pre i"
    unfolding pred_at_def ab(1) ab(2) [unfolded pred_at_def, symmetric] by simp
  ultimately show ?thesis by simp
qed

lemma sl_search_correct:
  assumes "\<forall>i < n. chain h i head (at_level h i (pre @ suf))" and "set (pre @ suf) \<subseteq> dom h"
    and "\<forall>p \<in> set pre. key_of h p < k" and "\<forall>p \<in> set suf. \<not> key_of h p < k"
  shows "\<exists>upd. sl_search h k n (pred_at h head pre n) update = Some (pred_at h head pre 0, upd) \<and>
           length upd = length update \<and>
           (\<forall>i < length update. upd ! i = (if i < n then Some (pred_at h head pre i) else update ! i))"
  using assms
proof (induction n arbitrary: update)
  case (Suc n)
  let ?u = "update[n := Some (pred_at h head pre n)]"
  obtain upd where upd: "sl_search h k n (pred_at h head pre n) ?u = Some (pred_at h head pre 0, upd)"
      "length upd = length ?u"
      "\<forall>i < length ?u. upd ! i = (if i < n then Some (pred_at h head pre i) else ?u ! i)"
    using Suc.IH [of ?u] Suc.prems by auto
  have "sl_walk h k n (pred_at h head pre (Suc n)) = Some (pred_at h head pre n)"
    using Suc.prems by (intro sl_walk_step) auto
  then show ?case using upd by (auto simp: nth_list_update less_Suc_eq)
qed simp

lemma sl_seek_search: "sl_seek h k n x = map_option fst (sl_search h k n x update)"
proof (induction n arbitrary: x update)
  case (Suc n)
  then show ?case by (cases "sl_walk h k n x") auto
qed simp

subsection \<open>Heap updates that keep every node\<close>

text \<open>Two heaps with the same nodes up to the next pointers.\<close>

definition same_nodes :: "sl_heap \<Rightarrow> sl_heap \<Rightarrow> bool" where
  "same_nodes g h \<longleftrightarrow>
     dom g = dom h \<and>
     (\<forall>p. key_of g p = key_of h p \<and> val_of g p = val_of h p \<and> lvl_of g p = lvl_of h p \<and>
          length (nnext (the (g p))) = length (nnext (the (h p))))"

lemma same_nodes_refl: "same_nodes h h"
  by (simp add: same_nodes_def)

lemma same_nodes_trans: "same_nodes f g \<Longrightarrow> same_nodes g h \<Longrightarrow> same_nodes f h"
  by (simp add: same_nodes_def)

lemma same_nodesD:
  assumes "same_nodes g h"
  shows "dom g = dom h" and "key_of g p = key_of h p" and "val_of g p = val_of h p"
    and "lvl_of g p = lvl_of h p" and "length (nnext (the (g p))) = length (nnext (the (h p)))"
  using assms by (simp_all add: same_nodes_def)

lemma set_nxt_ok:
  assumes "x \<in> dom h" "i < length (nnext (the (h x)))"
  shows "\<exists>g. set_nxt h x i p = Some g \<and> same_nodes g h \<and>
            (\<forall>y j. nxt g y j = (if y = x \<and> j = i then Some p else nxt h y j))"
proof -
  obtain n where n: "h x = Some n" using assms by auto
  then have "set_nxt h x i p = Some (h(x \<mapsto> n\<lparr>nnext := (nnext n)[i := p]\<rparr>))"
    using assms by (simp add: set_nxt_def)
  moreover have "same_nodes (h(x \<mapsto> n\<lparr>nnext := (nnext n)[i := p]\<rparr>)) h"
    using n by (auto simp: same_nodes_def)
  moreover have "nxt (h(x \<mapsto> n\<lparr>nnext := (nnext n)[i := p]\<rparr>)) y j = (if y = x \<and> j = i then Some p else nxt h y j)" for y j
    using n assms by (auto simp: nxt_def nth_list_update)
  ultimately show ?thesis by blast
qed

lemma nxt_SomeD: "nxt h x i = Some q \<Longrightarrow> x \<in> dom h \<and> i < length (nnext (the (h x)))"
  by (auto simp: nxt_def split: option.splits if_splits)

text \<open>The linking loop writes the new node and its predecessor at each of its levels, and nothing else.\<close>

lemma sl_link_correct:
  assumes "distinct is"
    and "\<forall>i \<in> set is. i < length update \<and> update ! i = Some (u i) \<and> u i \<noteq> a \<and> nxt h (u i) i \<noteq> None \<and> nxt h a i \<noteq> None"
  shows "\<exists>g. sl_link h a update is = Some g \<and> same_nodes g h \<and>
           (\<forall>y j. nxt g y j = (if j \<in> set is then if y = a then nxt h (u j) j
                                 else if y = u j then Some (Some a) else nxt h y j
                               else nxt h y j))"
  using assms
proof (induction "is" arbitrary: h)
  case Nil
  then show ?case by (simp add: same_nodes_refl)
next
  case (Cons i "is")
  then have i: "i < length update" "update ! i = Some (u i)" "u i \<noteq> a" "i \<notin> set is" by auto
  obtain q where q: "nxt h (u i) i = Some q" using Cons.prems by auto
  obtain g1 where g1: "set_nxt h a i q = Some g1" "same_nodes g1 h"
      "\<forall>y j. nxt g1 y j = (if y = a \<and> j = i then Some q else nxt h y j)"
    using set_nxt_ok [of a h i q] Cons.prems nxt_SomeD [of h a i] by force
  obtain g2 where g2: "set_nxt g1 (u i) i (Some a) = Some g2" "same_nodes g2 g1"
      "\<forall>y j. nxt g2 y j = (if y = u i \<and> j = i then Some (Some a) else nxt g1 y j)"
    using set_nxt_ok [of "u i" g1 i "Some a"] nxt_SomeD [of h "u i" i] q same_nodesD [OF g1(2)] by force
  have "\<forall>j \<in> set is. j < length update \<and> update ! j = Some (u j) \<and> u j \<noteq> a \<and> nxt g2 (u j) j \<noteq> None \<and> nxt g2 a j \<noteq> None"
    using Cons.prems g1 g2 by auto
  with Cons.prems obtain g where g: "sl_link g2 a update is = Some g" "same_nodes g g2"
      "\<forall>y j. nxt g y j = (if j \<in> set is then if y = a then nxt g2 (u j) j
                           else if y = u j then Some (Some a) else nxt g2 y j else nxt g2 y j)"
    using Cons.IH [of g2] by auto
  have "sl_link h a update (i # is) = Some g" using i q g1(1) g2(1) g(1) by simp
  moreover have "same_nodes g h" using g(2) g2(2) g1(2) by (blast intro: same_nodes_trans)
  moreover have "nxt g y j = (if j \<in> set (i # is) then if y = a then nxt h (u j) j
      else if y = u j then Some (Some a) else nxt h y j else nxt h y j)" for y j
    using g(3) g2(3) g1(3) i q by auto
  ultimately show ?case by blast
qed

lemma sl_unlink_correct:
  assumes "distinct is"
    and "\<forall>i \<in> set is. i < length update \<and> update ! i = Some (u i) \<and> u i \<noteq> x \<and> nxt h (u i) i \<noteq> None \<and>
           (nxt h (u i) i = Some (Some x) \<longrightarrow> nxt h x i \<noteq> None)"
  shows "\<exists>g. sl_unlink h x update is = Some g \<and> same_nodes g h \<and>
           (\<forall>y j. nxt g y j = (if j \<in> set is \<and> y = u j \<and> nxt h (u j) j = Some (Some x) then nxt h x j
                               else nxt h y j))"
  using assms
proof (induction "is" arbitrary: h)
  case Nil
  then show ?case by (simp add: same_nodes_refl)
next
  case (Cons i "is")
  then have i: "i < length update" "update ! i = Some (u i)" "u i \<noteq> x" "i \<notin> set is" by auto
  obtain q where q: "nxt h (u i) i = Some q" using Cons.prems by auto
  have "\<exists>g1. (if q = Some x then do { r \<leftarrow> nxt h x i; set_nxt h (u i) i r } else Some h) = Some g1 \<and>
          same_nodes g1 h \<and>
          (\<forall>y j. nxt g1 y j = (if y = u i \<and> j = i \<and> q = Some x then nxt h x i else nxt h y j))"
  proof (cases "q = Some x")
    case True
    with Cons.prems q obtain r where r: "nxt h x i = Some r" by auto
    with True show ?thesis
      using set_nxt_ok [of "u i" h i r] nxt_SomeD [OF q] by auto
  qed (simp add: same_nodes_refl)
  then obtain g1 where g1: "(if q = Some x then do { r \<leftarrow> nxt h x i; set_nxt h (u i) i r } else Some h) = Some g1"
      "same_nodes g1 h" "\<forall>y j. nxt g1 y j = (if y = u i \<and> j = i \<and> q = Some x then nxt h x i else nxt h y j)"
    by blast
  have "\<forall>j \<in> set is. nxt g1 (u j) j = nxt h (u j) j \<and> nxt g1 x j = nxt h x j"
    using g1(3) i(4) by auto
  then obtain g where g: "sl_unlink g1 x update is = Some g" "same_nodes g g1"
      "\<forall>y j. nxt g y j = (if j \<in> set is \<and> y = u j \<and> nxt g1 (u j) j = Some (Some x) then nxt g1 x j else nxt g1 y j)"
    using Cons.IH [of g1] Cons.prems by auto
  have "sl_unlink h x update (i # is) = Some g" using i q g1(1) g(1) by simp
  moreover have "same_nodes g h" using g(2) g1(2) by (blast intro: same_nodes_trans)
  moreover have "nxt g y j = (if j \<in> set (i # is) \<and> y = u j \<and> nxt h (u j) j = Some (Some x) then nxt h x j
      else nxt h y j)" for y j
    using g(3) g1(3) i q by auto
  ultimately show ?case by blast
qed

lemma sl_shrink_correct:
  assumes "1 \<le> n" "\<forall>i < n. nxt h head i \<noteq> None"
  shows "\<exists>l. sl_shrink h head n = Some l \<and> 1 \<le> l \<and> l \<le> n \<and> (\<forall>i. l \<le> i \<longrightarrow> i < n \<longrightarrow> nxt h head i = Some None)"
  using assms
proof (induction n)
  case (Suc n)
  show ?case
  proof (cases "n = 0")
    case False
    obtain y where y: "nxt h head n = Some y" using Suc.prems by auto
    show ?thesis
    proof (cases y)
      case None
      with Suc.IH Suc.prems False y show ?thesis by (auto simp: less_Suc_eq)
    next
      case (Some p)
      with False y show ?thesis by auto
    qed
  qed auto
qed simp

subsection \<open>Searching a well-formed skiplist\<close>

lemma sl_repD:
  assumes "sl_rep s ps"
  shows "distinct (sl_head s # ps)" and "dom (sl_mem s) = insert (sl_head s) (set ps)"
    and "\<forall>p \<in> dom (sl_mem s). p < sl_brk s" and "1 \<le> sl_level s" and "sl_level s \<le> SL_MAXLEVEL"
    and "length (nnext (the (sl_mem s (sl_head s)))) = SL_MAXLEVEL"
    and "\<forall>p \<in> set ps. node_ok (sl_level s) (the (sl_mem s p))"
    and "sorted_wrt (<) (map (key_of (sl_mem s)) ps)"
    and "\<forall>i < SL_MAXLEVEL. chain (sl_mem s) i (sl_head s) (at_level (sl_mem s) i ps)"
    and "sl_count s = int (length ps)"
  using assms by (auto simp: sl_rep_def)

lemma sl_rep_lvl:
  assumes "sl_rep s ps" "p \<in> set ps"
  shows "1 \<le> lvl_of (sl_mem s) p" and "lvl_of (sl_mem s) p \<le> sl_level s"
    and "length (nnext (the (sl_mem s p))) = lvl_of (sl_mem s) p"
  using sl_repD(7) [OF assms(1)] assms(2) by (simp_all add: node_ok_def)

lemma sl_rep_split:
  assumes "sl_rep s ps"
  shows "\<exists>pre suf upd. ps = pre @ suf \<and>
    (\<forall>p \<in> set pre. key_of (sl_mem s) p < k) \<and> (\<forall>p \<in> set suf. \<not> key_of (sl_mem s) p < k) \<and>
    sl_search (sl_mem s) k (sl_level s) (sl_head s) (replicate SL_MAXLEVEL None)
      = Some (last (sl_head s # pre), upd) \<and>
    length upd = SL_MAXLEVEL \<and>
    (\<forall>i < SL_MAXLEVEL. i < sl_level s \<longrightarrow> upd ! i = Some (pred_at (sl_mem s) (sl_head s) pre i))"
proof -
  let ?h = "sl_mem s"
  note rep = sl_repD [OF assms]
  define pre suf where "pre = takeWhile (\<lambda>p. key_of ?h p < k) ps" and "suf = dropWhile (\<lambda>p. key_of ?h p < k) ps"
  have ps: "ps = pre @ suf" by (simp add: pre_def suf_def)
  have pre: "\<forall>p \<in> set pre. key_of ?h p < k" by (auto simp: pre_def dest: set_takeWhileD)
  have suf: "\<forall>p \<in> set suf. \<not> key_of ?h p < k"
  proof (cases suf)
    case (Cons q qs)
    then have "\<not> key_of ?h q < k" using hd_dropWhile [of "\<lambda>p. key_of ?h p < k" ps] by (simp add: suf_def)
    moreover have "\<forall>p \<in> set qs. key_of ?h q < key_of ?h p"
      using rep(8) by (simp add: ps Cons sorted_wrt_append)
    ultimately show ?thesis using Cons by fastforce
  qed simp
  have ok: "1 \<le> lvl_of ?h p \<and> lvl_of ?h p \<le> sl_level s" if "p \<in> set pre" for p
    using rep(7) that by (simp add: ps node_ok_def)
  have "at_level ?h (sl_level s) pre = []" using ok by (fastforce simp: filter_empty_conv)
  moreover have "at_level ?h 0 pre = pre" using ok by (fastforce simp: filter_id_conv)
  ultimately have p: "pred_at ?h (sl_head s) pre (sl_level s) = sl_head s"
      "pred_at ?h (sl_head s) pre 0 = last (sl_head s # pre)"
    by (simp_all add: pred_at_def)
  have "set (pre @ suf) \<subseteq> dom ?h" "\<forall>i < sl_level s. chain ?h i (sl_head s) (at_level ?h i (pre @ suf))"
    using rep by (auto simp: ps)
  from sl_search_correct [OF this(2,1) pre suf, of "replicate SL_MAXLEVEL None"]
  obtain upd where "sl_search ?h k (sl_level s) (sl_head s) (replicate SL_MAXLEVEL None) = Some (last (sl_head s # pre), upd)"
    "length upd = SL_MAXLEVEL" "\<forall>i < SL_MAXLEVEL. i < sl_level s \<longrightarrow> upd ! i = Some (pred_at ?h (sl_head s) pre i)"
    unfolding p by auto
  with ps pre suf show ?thesis by blast
qed

lemma sl_rep_succ:
  assumes "sl_rep s (pre @ suf)" "i < SL_MAXLEVEL"
  shows "nxt (sl_mem s) (pred_at (sl_mem s) (sl_head s) pre i) i =
    Some (case at_level (sl_mem s) i suf of [] \<Rightarrow> None | q # _ \<Rightarrow> Some q)"
  unfolding pred_at_def using sl_repD(9) [OF assms(1)] assms(2) by (intro chain_next) auto

lemma sl_rep_succ0:
  assumes "sl_rep s (pre @ suf)"
  shows "nxt (sl_mem s) (last (sl_head s # pre)) 0 = Some (case suf of [] \<Rightarrow> None | q # _ \<Rightarrow> Some q)"
proof -
  have ok: "1 \<le> lvl_of (sl_mem s) p" if "p \<in> set pre \<or> p \<in> set suf" for p
    using sl_repD(7) [OF assms] that by (auto simp: node_ok_def)
  have "at_level (sl_mem s) 0 pre = pre" using ok by (fastforce simp: filter_id_conv)
  moreover have "at_level (sl_mem s) 0 suf = suf" using ok by (fastforce simp: filter_id_conv)
  ultimately show ?thesis using sl_rep_succ [OF assms, of 0] by (simp only: pred_at_def)
qed

lemma pred_at_in: "pred_at h head pre i \<in> insert head (set pre)"
  unfolding pred_at_def using last_in_set [of "at_level h i pre"] by (cases "at_level h i pre = []") auto

lemma sl_rows_append [simp]: "sl_rows h (ps @ qs) = sl_rows h ps @ sl_rows h qs"
  by (simp add: sl_rows_def)

lemma sl_rows_simps [simp]:
  "sl_rows h [] = []" "sl_rows h (p # ps) = (key_of h p, val_of h p) # sl_rows h ps"
  "map fst (sl_rows h ps) = map (key_of h) ps" "length (sl_rows h ps) = length ps"
  by (simp_all add: sl_rows_def)

lemma sl_rows_cong:
  "(\<And>p. p \<in> set ps \<Longrightarrow> key_of g p = key_of h p \<and> val_of g p = val_of h p) \<Longrightarrow> sl_rows g ps = sl_rows h ps"
  by (simp add: sl_rows_def)

end
