(* ===== verification/KB_Skiplist_Correct.thy ===== *)
theory KB_Skiplist_Correct
  imports KB_Skiplist_Rep
begin

text \<open>
  Correctness of the skiplist operations: each one, started in a well-formed skiplist,
  returns (no bad pointer, no endless loop), re-establishes the representation invariant and
  refines the operation on sorted rows.
\<close>

subsection \<open>Opening, levels and the generator\<close>

lemma sl_rep_new: "sl_rep (sl_new seed) []"
  by (auto simp: sl_rep_def sl_new_def nxt_def)

lemma rand_lvl_bounds: "lvl \<le> SL_MAXLEVEL \<Longrightarrow> lvl \<le> rand_lvl lvl x \<and> rand_lvl lvl x \<le> SL_MAXLEVEL"
proof (induction lvl x rule: rand_lvl.induct)
  case (1 lvl x)
  then show ?case
    by (cases "lvl < SL_MAXLEVEL \<and> x mod SL_P = 0") (simp_all only: rand_lvl.simps [of lvl x] if_True if_False, auto)
qed

lemma rand_level_bounds: "rand_level s = (lvl, s') \<Longrightarrow> 1 \<le> lvl \<and> lvl \<le> SL_MAXLEVEL"
  using rand_lvl_bounds [of 1 "xorshift (sl_rng s)"] by (auto simp: rand_level_def Let_def)

lemma fold_update:
  "length (fold (\<lambda>i u. u[i := c]) is u) = length u \<and>
   (\<forall>j < length u. fold (\<lambda>i u. u[i := c]) is u ! j = (if j \<in> set is then c else u ! j))"
  by (induction "is" arbitrary: u) (auto simp: nth_list_update)

subsection \<open>Put\<close>

lemma sl_put_hit:
  fixes v :: bytes
  assumes rep: "sl_rep s (pre @ q # suf)" and k: "key_of (sl_mem s) q = k"
  defines "s' \<equiv> s\<lparr>sl_mem := (sl_mem s)(q \<mapsto> (the (sl_mem s q))\<lparr>nval := v\<rparr>)\<rparr>"
  shows "sl_rep s' (pre @ q # suf)"
    and "sl_rows (sl_mem s') (pre @ q # suf) = sl_rows (sl_mem s) pre @ (k, v) # sl_rows (sl_mem s) suf"
proof -
  note r = sl_repD [OF rep]
  have q: "q \<in> dom (sl_mem s)" "q \<noteq> sl_head s" "q \<notin> set pre" "q \<notin> set suf" using r(1,2) by auto
  have n: "nxt (sl_mem s') y i = nxt (sl_mem s) y i" for y i
    using q by (auto simp: s'_def nxt_def)
  have c: "chain (sl_mem s') i x ps = chain (sl_mem s) i x ps" for i x ps
    by (rule chain_cong) (simp add: n)
  have f: "key_of (sl_mem s') p = key_of (sl_mem s) p" "lvl_of (sl_mem s') p = lvl_of (sl_mem s) p"
    "length (nnext (the (sl_mem s' p))) = length (nnext (the (sl_mem s p)))" for p
    by (simp_all add: s'_def)
  have d: "dom (sl_mem s') = dom (sl_mem s)" using q by (auto simp: s'_def)
  have e: "sl_head s' = sl_head s" "sl_level s' = sl_level s" "sl_brk s' = sl_brk s" "sl_count s' = sl_count s"
    by (simp_all add: s'_def)
  show "sl_rep s' (pre @ q # suf)"
    using r unfolding sl_rep_def e d c f node_ok_def by blast
  have "sl_rows (sl_mem s') pre = sl_rows (sl_mem s) pre" "sl_rows (sl_mem s') suf = sl_rows (sl_mem s) suf"
    using q by (auto intro!: sl_rows_cong simp: s'_def)
  then show "sl_rows (sl_mem s') (pre @ q # suf) = sl_rows (sl_mem s) pre @ (k, v) # sl_rows (sl_mem s) suf"
    using k by (simp add: s'_def)
qed

lemma sl_put_new:
  assumes rep: "sl_rep s (pre @ suf)" and lt: "\<forall>p \<in> set pre. key_of (sl_mem s) p < k"
    and gt: "\<forall>p \<in> set suf. k < key_of (sl_mem s) p" and lvl: "1 \<le> lvl" "lvl \<le> SL_MAXLEVEL"
    and upd: "length upd = SL_MAXLEVEL" "\<forall>i < lvl. upd ! i = Some (pred_at (sl_mem s) (sl_head s) pre i)"
  defines "a \<equiv> sl_brk s"
  shows "\<exists>g. sl_link ((sl_mem s)(a \<mapsto> node_new lvl k v)) a upd [0..<lvl] = Some g \<and>
    (\<forall>t. sl_mem t = g \<longrightarrow> sl_head t = sl_head s \<longrightarrow> sl_level t = max lvl (sl_level s) \<longrightarrow> sl_brk t = a + 1 \<longrightarrow>
       sl_count t = sl_count s + 1 \<longrightarrow> sl_rep t (pre @ a # suf)) \<and>
    sl_rows g (pre @ a # suf) = sl_rows (sl_mem s) pre @ (k, v) # sl_rows (sl_mem s) suf"
proof -
  let ?h = "sl_mem s" and ?hd = "sl_head s"
  note r = sl_repD [OF rep]
  define h1 where "h1 = ?h(a \<mapsto> node_new lvl k v)"
  have a: "a \<notin> dom ?h" using r(3) by (auto simp: a_def)
  then have an: "a \<noteq> ?hd" "a \<notin> set pre" "a \<notin> set suf" using r(2) by auto
  define u where "u = pred_at ?h ?hd pre"
  have u: "u i \<noteq> a" "u i \<in> dom ?h" for i using pred_at_in [of ?h ?hd pre i] an r(2) by (auto simp: u_def)
  have n1: "nxt h1 y i = (if y = a then if i < lvl then Some None else None else nxt ?h y i)" for y i
    by (auto simp: h1_def nxt_def node_new_def)
  have nu: "nxt ?h (u i) i \<noteq> None" if "i < lvl" for i
    using sl_rep_succ [OF rep, of i] that lvl by (simp add: u_def)
  have "\<forall>i \<in> set [0..<lvl]. i < length upd \<and> upd ! i = Some (u i) \<and> u i \<noteq> a \<and> nxt h1 (u i) i \<noteq> None \<and> nxt h1 a i \<noteq> None"
    using upd lvl u nu by (auto simp: n1 u_def)
  from sl_link_correct [OF _ this]
  obtain g where g: "sl_link h1 a upd [0..<lvl] = Some g" "same_nodes g h1"
    "\<And>y j. nxt g y j = (if j < lvl then if y = a then nxt h1 (u j) j else if y = u j then Some (Some a) else nxt h1 y j
                        else nxt h1 y j)"
    by auto
  note sn = same_nodesD [OF g(2)]
  have ka: "key_of g a = k" "val_of g a = v" "lvl_of g a = lvl" "length (nnext (the (g a))) = lvl"
    by (simp_all add: sn h1_def node_new_def)
  have ko: "key_of g p = key_of ?h p" "val_of g p = val_of ?h p" "lvl_of g p = lvl_of ?h p"
    "length (nnext (the (g p))) = length (nnext (the (?h p)))" if "p \<noteq> a" for p
    using that by (simp_all add: sn h1_def)
  have kps: "key_of g p = key_of ?h p" "val_of g p = val_of ?h p" "lvl_of g p = lvl_of ?h p"
    if "p \<in> set pre \<or> p \<in> set suf" for p
    using that an by (metis ko)+
  have al: "at_level g i pre = at_level ?h i pre" "at_level g i suf = at_level ?h i suf" for i
    by (auto intro!: filter_cong simp: kps)
  have ch: "chain g i ?hd (at_level g i (pre @ a # suf))" if i: "i < SL_MAXLEVEL" for i
  proof -
    have c0: "chain ?h i ?hd (at_level ?h i pre @ at_level ?h i suf)" using r(9) i by simp
    have dd: "distinct (?hd # at_level ?h i pre @ at_level ?h i suf)" "a \<notin> set (?hd # at_level ?h i pre @ at_level ?h i suf)"
      using r(1) an by auto
    show ?thesis
    proof (cases "i < lvl")
      case True
      have "chain g i ?hd (at_level ?h i pre @ a # at_level ?h i suf)"
        by (rule chain_insert [OF c0 dd]) (use True g(3) n1 u in \<open>auto simp: u_def pred_at_def\<close>)
      then show ?thesis using True by (simp add: al ka)
    next
      case False
      have "chain g i ?hd (at_level ?h i pre @ at_level ?h i suf) = chain ?h i ?hd (at_level ?h i pre @ at_level ?h i suf)"
        using False g(3) n1 dd(2) by (intro chain_cong) auto
      then show ?thesis using False c0 by (simp add: al ka)
    qed
  qed
  have rows: "sl_rows g (pre @ a # suf) = sl_rows ?h pre @ (k, v) # sl_rows ?h suf"
  proof -
    have "sl_rows g pre = sl_rows ?h pre" "sl_rows g suf = sl_rows ?h suf"
      by (auto intro!: sl_rows_cong simp: kps)
    then show ?thesis by (simp add: ka)
  qed
  have srt: "sorted_wrt (<) (map (key_of g) (pre @ a # suf))"
  proof -
    have "map (key_of g) (pre @ a # suf) = map (key_of ?h) pre @ k # map (key_of ?h) suf"
      by (simp add: ka kps)
    then show ?thesis using r(8) lt gt by (simp only:) (simp add: sorted_wrt_append)
  qed
  have "sl_rep t (pre @ a # suf)"
    if "sl_mem t = g" "sl_head t = ?hd" "sl_level t = max lvl (sl_level s)" "sl_brk t = a + 1" "sl_count t = sl_count s + 1" for t
    unfolding sl_rep_def that
  proof (intro conjI)
    show "distinct (?hd # pre @ a # suf)" using r(1) an by auto
    show "dom g = insert ?hd (set (pre @ a # suf))" using r(2) by (auto simp: sn(1) h1_def)
    show "\<forall>p \<in> dom g. p < a + 1" using r(3) by (auto simp: sn(1) h1_def a_def less_SucI)
    show "1 \<le> max lvl (sl_level s)" "max lvl (sl_level s) \<le> SL_MAXLEVEL" using lvl r(5) by auto
    show "length (nnext (the (g ?hd))) = SL_MAXLEVEL" using r(6) an by (simp add: ko)
    show "\<forall>p \<in> set (pre @ a # suf). node_ok (max lvl (sl_level s)) (the (g p))"
    proof
      fix p assume "p \<in> set (pre @ a # suf)"
      then consider "p = a" | "p \<noteq> a" "p \<in> set (pre @ suf)" by auto
      then show "node_ok (max lvl (sl_level s)) (the (g p))"
        using sl_rep_lvl [OF rep, of p] lvl by cases (simp_all add: node_ok_def ka ko max.coboundedI2)
    qed
    show "\<forall>i < SL_MAXLEVEL. chain g i ?hd (at_level g i (pre @ a # suf))" using ch by blast
    show "sl_count s + 1 = int (length (pre @ a # suf))" using r(10) by simp
  qed (rule srt)
  with g(1) rows show ?thesis unfolding h1_def by blast
qed

text \<open>Where the search for \<open>k\<close> ends: before a suffix that starts with \<open>k\<close>, or with nothing or a larger key.\<close>

lemma sl_rep_find:
  assumes "sl_rep s ps"
  obtains
    (hit) pre q suf upd where "ps = pre @ q # suf" "\<forall>p \<in> set pre. key_of (sl_mem s) p < k"
      "key_of (sl_mem s) q = k"
      "sl_search (sl_mem s) k (sl_level s) (sl_head s) (replicate SL_MAXLEVEL None) = Some (last (sl_head s # pre), upd)"
      "nxt (sl_mem s) (last (sl_head s # pre)) 0 = Some (Some q)"
      "length upd = SL_MAXLEVEL" "\<forall>i < sl_level s. upd ! i = Some (pred_at (sl_mem s) (sl_head s) pre i)"
  | (miss) pre suf upd where "ps = pre @ suf" "\<forall>p \<in> set pre. key_of (sl_mem s) p < k"
      "\<forall>p \<in> set suf. k < key_of (sl_mem s) p"
      "sl_search (sl_mem s) k (sl_level s) (sl_head s) (replicate SL_MAXLEVEL None) = Some (last (sl_head s # pre), upd)"
      "nxt (sl_mem s) (last (sl_head s # pre)) 0 = Some (case suf of [] \<Rightarrow> None | q # _ \<Rightarrow> Some q)"
      "length upd = SL_MAXLEVEL" "\<forall>i < sl_level s. upd ! i = Some (pred_at (sl_mem s) (sl_head s) pre i)"
proof -
  let ?h = "sl_mem s"
  obtain pre suf upd where *: "ps = pre @ suf" "\<forall>p \<in> set pre. key_of ?h p < k" "\<forall>p \<in> set suf. \<not> key_of ?h p < k"
      "sl_search ?h k (sl_level s) (sl_head s) (replicate SL_MAXLEVEL None) = Some (last (sl_head s # pre), upd)"
      "length upd = SL_MAXLEVEL"
      "\<forall>i < SL_MAXLEVEL. i < sl_level s \<longrightarrow> upd ! i = Some (pred_at ?h (sl_head s) pre i)"
    using sl_rep_split [OF assms, of k] by blast
  note r = sl_repD [OF assms]
  have nx: "nxt ?h (last (sl_head s # pre)) 0 = Some (case suf of [] \<Rightarrow> None | q # _ \<Rightarrow> Some q)"
    using sl_rep_succ0 assms *(1) by blast
  have upd: "\<forall>i < sl_level s. upd ! i = Some (pred_at ?h (sl_head s) pre i)" using *(6) r(5) by auto
  show thesis
  proof (cases suf)
    case Nil
    show ?thesis by (rule miss [OF *(1,2) _ *(4) nx *(5) upd]) (simp add: Nil)
  next
    case (Cons q qs)
    have gt: "\<forall>p \<in> set qs. key_of ?h q < key_of ?h p" using r(8) by (simp add: *(1) Cons sorted_wrt_append)
    show ?thesis
    proof (cases "key_of ?h q = k")
      case True
      show ?thesis by (rule hit [OF _ *(2) True *(4) _ *(5) upd]) (use *(1) nx Cons in simp_all)
    next
      case False
      have "\<forall>p \<in> set suf. k < key_of ?h p"
        using *(3) False gt Cons by (metis linorder_neqE list.set_intros(1) order_less_trans set_ConsD)
      then show ?thesis by (rule miss [OF *(1,2) _ *(4) nx *(5) upd])
    qed
  qed
qed

lemma in_dom_the: "p \<in> dom h \<Longrightarrow> h p = Some (the (h p))"
  by auto

lemma sl_rep_node: "sl_rep s ps \<Longrightarrow> p \<in> set ps \<Longrightarrow> sl_mem s p = Some (the (sl_mem s p))"
  using sl_repD(2) [of s ps] by (intro in_dom_the) auto

theorem sl_put_refines:
  assumes "sl_rep s ps"
  shows "\<exists>s' ps'. sl_put s k v = Some (0, s') \<and> sl_rep s' ps' \<and>
           sl_rows (sl_mem s') ps' = rows_put k v (sl_rows (sl_mem s) ps)"
  using assms
proof (cases rule: sl_rep_find [where k = k])
  case (hit pre q suf upd)
  let ?s = "s\<lparr>sl_mem := (sl_mem s)(q \<mapsto> (the (sl_mem s q))\<lparr>nval := v\<rparr>)\<rparr>"
  obtain m where "sl_mem s q = Some m" using sl_rep_node [OF assms, of q] hit(1) by simp
  then have "sl_put s k v = Some (0, ?s)"
    unfolding sl_put_def using hit(3,4,5) by (simp add: kv_keycmp_order)
  moreover have "sl_rows (sl_mem s) pre @ (k, v) # sl_rows (sl_mem s) suf = rows_put k v (sl_rows (sl_mem s) ps)"
    using rows_put_replace [of "sl_rows (sl_mem s) pre" k v "val_of (sl_mem s) q" "sl_rows (sl_mem s) suf"] hit(1,2,3)
    by (auto simp: sl_rows_def)
  ultimately show ?thesis using sl_put_hit [of s pre q suf k v] assms hit(1,3) by metis
next
  case (miss pre suf upd)
  obtain lvl t where t: "rand_level s = (lvl, t)" by fastforce
  have lvl: "1 \<le> lvl" "lvl \<le> SL_MAXLEVEL" using rand_level_bounds [OF t] by auto
  have ts: "sl_mem t = sl_mem s" "sl_head t = sl_head s" "sl_level t = sl_level s" "sl_brk t = sl_brk s" "sl_count t = sl_count s"
    using t by (auto simp: rand_level_def Let_def)
  define upd' where "upd' = (if lvl > sl_level s then fold (\<lambda>i u. u[i := Some (sl_head s)]) [sl_level s..<lvl] upd else upd)"
  have "pred_at (sl_mem s) (sl_head s) pre i = sl_head s" if "sl_level s \<le> i" for i
  proof -
    have "at_level (sl_mem s) i pre = []"
      using sl_rep_lvl(2) [OF assms] that by (fastforce simp: filter_empty_conv miss(1))
    then show ?thesis by (simp add: pred_at_def)
  qed
  then have upd': "length upd' = SL_MAXLEVEL" "\<forall>i < lvl. upd' ! i = Some (pred_at (sl_mem s) (sl_head s) pre i)"
    using fold_update [of "Some (sl_head s)" "[sl_level s..<lvl]" upd] miss(6,7) lvl by (auto simp: upd'_def)
  obtain g where g: "sl_link ((sl_mem s)(sl_brk s \<mapsto> node_new lvl k v)) (sl_brk s) upd' [0..<lvl] = Some g"
      "\<forall>t. sl_mem t = g \<longrightarrow> sl_head t = sl_head s \<longrightarrow> sl_level t = max lvl (sl_level s) \<longrightarrow> sl_brk t = sl_brk s + 1 \<longrightarrow>
         sl_count t = sl_count s + 1 \<longrightarrow> sl_rep t (pre @ sl_brk s # suf)"
      "sl_rows g (pre @ sl_brk s # suf) = sl_rows (sl_mem s) pre @ (k, v) # sl_rows (sl_mem s) suf"
    using sl_put_new [OF assms [unfolded miss(1)] miss(2,3) lvl upd', of v] by blast
  let ?t = "(if lvl > sl_level s then t\<lparr>sl_level := lvl\<rparr> else t)"
  let ?s = "?t\<lparr>sl_mem := g, sl_brk := sl_brk s + 1, sl_count := sl_count s + 1\<rparr>"
  have h: "(case (case suf of [] \<Rightarrow> None | q # _ \<Rightarrow> Some q) of None \<Rightarrow> Some None
      | Some y \<Rightarrow> do { m \<leftarrow> sl_mem s y; Some (if kv_keycmp (nkey m) k = 0 then Some (y, m) else None) }) = Some None"
  proof (cases suf)
    case (Cons q qs)
    then have "sl_mem s q = Some (the (sl_mem s q))" "k < key_of (sl_mem s) q"
      using sl_rep_node [OF assms, of q] miss(1,3) by auto
    then show ?thesis using Cons by (auto simp: kv_keycmp_order bind_eq_Some_conv)
  qed simp
  have "sl_put s k v = Some (0, ?s)"
    unfolding sl_put_def using miss(4,5) h t g(1) ts
    by (cases "lvl > sl_level s") (simp_all add: Let_def upd'_def)
  moreover have "sl_rep ?s (pre @ sl_brk s # suf)" using ts by (intro g(2) [rule_format]) auto
  moreover have "sl_rows (sl_mem s) pre @ (k, v) # sl_rows (sl_mem s) suf = rows_put k v (sl_rows (sl_mem s) ps)"
    using rows_put_append [of "sl_rows (sl_mem s) pre" k "sl_rows (sl_mem s) suf" v] miss(1,2,3)
    by (auto simp: sl_rows_def)
  ultimately show ?thesis using g(3) by (intro exI [of _ ?s] exI [of _ "pre @ sl_brk s # suf"]) auto
qed

subsection \<open>Get\<close>

lemma sl_seek_of_search:
  "sl_search h k n x u = Some (y, upd) \<Longrightarrow> sl_seek h k n x = Some y"
  using sl_seek_search [of h k n x u] by simp

lemma map_of_sl_rows:
  assumes "sl_rep s ps" "p \<in> set ps"
  shows "map_of (sl_rows (sl_mem s) ps) (key_of (sl_mem s) p) = Some (val_of (sl_mem s) p)"
proof (rule map_of_is_SomeI)
  show "distinct (map fst (sl_rows (sl_mem s) ps))"
    using sorted_wrt_less_distinct [OF sl_repD(8) [OF assms(1)]] by simp
qed (use assms(2) in \<open>auto simp: sl_rows_def\<close>)

theorem sl_get_refines:
  assumes "sl_rep s ps"
  shows "sl_get s k = Some (case map_of (sl_rows (sl_mem s) ps) k of None \<Rightarrow> (0, None, s) | Some v \<Rightarrow> (1, Some v, s))"
  using assms
proof (cases rule: sl_rep_find [where k = k])
  case (hit pre q suf upd)
  obtain m where "sl_mem s q = Some m" using sl_rep_node [OF assms, of q] hit(1) by simp
  moreover have "map_of (sl_rows (sl_mem s) ps) k = Some (val_of (sl_mem s) q)"
    using map_of_sl_rows [OF assms, of q] hit(1,3) by simp
  ultimately show ?thesis
    unfolding sl_get_def using hit(3,5) sl_seek_of_search [OF hit(4)] by (simp add: kv_keycmp_order)
next
  case (miss pre suf upd)
  have "k \<notin> key_of (sl_mem s) ` set ps" using miss(1,2,3) by auto
  then have none: "map_of (sl_rows (sl_mem s) ps) k = None"
    by (auto simp: map_of_eq_None_iff sl_rows_def image_iff)
  show ?thesis
  proof (cases suf)
    case Nil
    with none miss(5) sl_seek_of_search [OF miss(4)] show ?thesis by (simp add: sl_get_def)
  next
    case (Cons q qs)
    then obtain m where "sl_mem s q = Some m" "k < nkey m" using sl_rep_node [OF assms, of q] miss(1,3) by fastforce
    with none Cons miss(5) sl_seek_of_search [OF miss(4)] show ?thesis
      by (auto simp: sl_get_def kv_keycmp_order)
  qed
qed

subsection \<open>Delete\<close>

lemma sl_unlink_chains:
  assumes rep: "sl_rep s (pre @ q # suf)"
    and upd: "length upd = SL_MAXLEVEL" "\<forall>i < sl_level s. upd ! i = Some (pred_at (sl_mem s) (sl_head s) pre i)"
  shows "\<exists>g. sl_unlink (sl_mem s) q upd [0..<sl_level s] = Some g \<and> same_nodes g (sl_mem s) \<and>
    (\<forall>i < SL_MAXLEVEL. chain g i (sl_head s) (at_level (sl_mem s) i (pre @ suf)))"
proof -
  let ?h = "sl_mem s" and ?hd = "sl_head s"
  note r = sl_repD [OF rep]
  define u where "u = pred_at ?h ?hd pre"
  have uq: "u i \<noteq> q" for i using pred_at_in [of ?h ?hd pre i] r(1) by (auto simp: u_def)
  have un: "nxt ?h (u i) i = Some (case at_level ?h i (q # suf) of [] \<Rightarrow> None | p # _ \<Rightarrow> Some p)" if "i < SL_MAXLEVEL" for i
    using sl_rep_succ [OF rep that] by (simp only: u_def)
  have uq_iff: "nxt ?h (u i) i = Some (Some q) \<longleftrightarrow> i < lvl_of ?h q" if "i < SL_MAXLEVEL" for i
  proof (cases "i < lvl_of ?h q")
    case False
    have "q \<notin> set (at_level ?h i suf)" using r(1) by auto
    with False un [OF that] show ?thesis by (cases "at_level ?h i suf") auto
  qed (simp add: un [OF that])
  have qn: "nxt ?h q i \<noteq> None" if "i < lvl_of ?h q" for i
    using sl_rep_lvl(3) [OF rep, of q] sl_rep_node [OF rep, of q] that by (auto simp: nxt_def split: option.splits)
  have "\<forall>i \<in> set [0..<sl_level s]. i < length upd \<and> upd ! i = Some (u i) \<and> u i \<noteq> q \<and> nxt ?h (u i) i \<noteq> None \<and>
      (nxt ?h (u i) i = Some (Some q) \<longrightarrow> nxt ?h q i \<noteq> None)"
    using upd r(5) uq qn un uq_iff by (simp add: u_def)
  from sl_unlink_correct [OF _ this]
  obtain g where g: "sl_unlink ?h q upd [0..<sl_level s] = Some g" "same_nodes g ?h"
    "\<And>y j. nxt g y j = (if j < sl_level s \<and> y = u j \<and> nxt ?h (u j) j = Some (Some q) then nxt ?h q j else nxt ?h y j)"
    by auto
  have "chain g i ?hd (at_level ?h i (pre @ suf))" if i: "i < SL_MAXLEVEL" for i
  proof -
    have c0: "chain ?h i ?hd (at_level ?h i (pre @ q # suf))" using r(9) i by blast
    show ?thesis
    proof (cases "i < lvl_of ?h q")
      case True
      have c1: "chain ?h i ?hd (at_level ?h i pre @ q # at_level ?h i suf)" using c0 True by simp
      have d: "distinct (?hd # at_level ?h i pre @ q # at_level ?h i suf)" using r(1) by auto
      have l: "i < sl_level s" using True sl_rep_lvl(2) [OF rep, of q] by simp
      have "chain g i ?hd (at_level ?h i pre @ at_level ?h i suf)"
        by (rule chain_remove [OF c1 d]) (use True l g(3) [of _ i] uq_iff [OF i] in \<open>auto simp: u_def pred_at_def\<close>)
      then show ?thesis by simp
    next
      case False
      have "chain g i ?hd (at_level ?h i (pre @ suf)) = chain ?h i ?hd (at_level ?h i (pre @ suf))"
        using False g(3) [of _ i] uq_iff [OF i] by (intro chain_cong) auto
      then show ?thesis using False c0 by simp
    qed
  qed
  with g(1,2) show ?thesis by blast
qed

lemma sl_del_hit:
  assumes rep: "sl_rep s (pre @ q # suf)" and same: "same_nodes g (sl_mem s)"
    and ch: "\<forall>i < SL_MAXLEVEL. chain g i (sl_head s) (at_level (sl_mem s) i (pre @ suf))"
  shows "\<exists>l. sl_shrink g (sl_head s) (sl_level s) = Some l \<and>
    sl_rep (s\<lparr>sl_mem := g(q := None), sl_level := l, sl_count := sl_count s - 1\<rparr>) (pre @ suf) \<and>
    sl_rows (g(q := None)) (pre @ suf) = sl_rows (sl_mem s) (pre @ suf)"
proof -
  let ?h = "sl_mem s" and ?hd = "sl_head s" and ?g = "g(q := None)"
  note r = sl_repD [OF rep] and sn = same_nodesD [OF same]
  have hn: "nxt g ?hd i \<noteq> None" if "i < sl_level s" for i
    using ch that r(5) by (meson chain_start order_less_le_trans)
  obtain l where l: "sl_shrink g ?hd (sl_level s) = Some l" "1 \<le> l" "l \<le> sl_level s"
      "\<forall>i. l \<le> i \<longrightarrow> i < sl_level s \<longrightarrow> nxt g ?hd i = Some None"
    using sl_shrink_correct [OF r(4), of g ?hd] hn by blast
  have q: "q \<noteq> ?hd" "q \<notin> set (pre @ suf)" using r(1) by auto
  have ll: "lvl_of ?h p \<le> l" if p: "p \<in> set (pre @ suf)" for p
  proof (rule ccontr)
    assume "\<not> lvl_of ?h p \<le> l"
    then have "l < lvl_of ?h p" by simp
    moreover have lv: "lvl_of ?h p \<le> sl_level s" using sl_rep_lvl(2) [OF rep, of p] p by auto
    ultimately have "p \<in> set (at_level ?h l (pre @ suf))" "l < sl_level s" using p by auto
    moreover have "chain g l ?hd (at_level ?h l (pre @ suf))" "nxt g ?hd l = Some None"
      using ch l(4) r(5) \<open>l < sl_level s\<close> by simp_all
    ultimately show False by (metis chain.simps(2) list.exhaust list.set_intros(1) option.distinct(1) option.inject
          empty_iff list.set(1))
  qed
  have f: "key_of ?g p = key_of ?h p" "val_of ?g p = val_of ?h p" "lvl_of ?g p = lvl_of ?h p"
     "length (nnext (the (?g p))) = length (nnext (the (?h p)))" if "p \<noteq> q" for p
    using that by (simp_all add: sn)
  have fp: "key_of ?g p = key_of ?h p" "val_of ?g p = val_of ?h p" "lvl_of ?g p = lvl_of ?h p"
     "length (nnext (the (?g p))) = length (nnext (the (?h p)))" if "p \<in> set pre \<or> p \<in> set suf" for p
    using f [of p] that q by auto
  have al: "at_level ?g i (pre @ suf) = at_level ?h i (pre @ suf)" for i
    by (intro filter_cong) (use fp(3) in auto)
  have cg: "chain ?g i ?hd (at_level ?h i (pre @ suf)) = chain g i ?hd (at_level ?h i (pre @ suf))" for i
    by (rule chain_cong) (use q in \<open>auto simp: nxt_def\<close>)
  define t where "t = s\<lparr>sl_mem := ?g, sl_level := l, sl_count := sl_count s - 1\<rparr>"
  have t: "sl_mem t = ?g" "sl_head t = ?hd" "sl_level t = l" "sl_count t = sl_count s - 1" "sl_brk t = sl_brk s"
    by (simp_all add: t_def)
  have "sl_rep t (pre @ suf)"
    unfolding sl_rep_def t
  proof (intro conjI)
    show "distinct (?hd # pre @ suf)" using r(1) by auto
    show "dom ?g = insert ?hd (set (pre @ suf))" using r(2) q by (auto simp: sn(1))
    show "\<forall>p \<in> dom ?g. p < sl_brk s" using r(3) by (auto simp: sn(1))
    show "1 \<le> l" "l \<le> SL_MAXLEVEL" using l(2,3) r(5) by auto
    show "length (nnext (the (?g ?hd))) = SL_MAXLEVEL" using r(6) f(4) q(1) by metis
    show "\<forall>p \<in> set (pre @ suf). node_ok l (the (?g p))"
    proof
      fix p assume p: "p \<in> set (pre @ suf)"
      show "node_ok l (the (?g p))"
        unfolding node_ok_def using p fp [of p] ll [of p] sl_rep_lvl [OF rep, of p] by auto
    qed
    have "map (key_of ?g) (pre @ suf) = map (key_of ?h) (pre @ suf)"
      by (rule map_cong) (use fp(1) in auto)
    then show "sorted_wrt (<) (map (key_of ?g) (pre @ suf))"
      using r(8) by (simp only:) (simp add: sorted_wrt_append)
    show "\<forall>i < SL_MAXLEVEL. chain ?g i ?hd (at_level ?g i (pre @ suf))" using ch by (simp only: al cg)
    show "sl_count s - 1 = int (length (pre @ suf))" using r(10) by simp
  qed
  moreover have "sl_rows ?g (pre @ suf) = sl_rows ?h (pre @ suf)" by (rule sl_rows_cong) (use fp in auto)
  ultimately show ?thesis using l(1) unfolding t_def by blast
qed

theorem sl_del_refines:
  assumes "sl_rep s ps"
  shows "\<exists>s' ps'. sl_del s k = Some (if map_of (sl_rows (sl_mem s) ps) k = None then 0 else 1, s') \<and>
           sl_rep s' ps' \<and> sl_rows (sl_mem s') ps' = rows_del k (sl_rows (sl_mem s) ps)"
  using assms
proof (cases rule: sl_rep_find [where k = k])
  case (hit pre q suf upd)
  note rep = assms [unfolded hit(1)]
  obtain g where g: "sl_unlink (sl_mem s) q upd [0..<sl_level s] = Some g" "same_nodes g (sl_mem s)"
      "\<forall>i < SL_MAXLEVEL. chain g i (sl_head s) (at_level (sl_mem s) i (pre @ suf))"
    using sl_unlink_chains [OF rep hit(6,7)] by blast
  obtain l where l: "sl_shrink g (sl_head s) (sl_level s) = Some l"
      "sl_rep (s\<lparr>sl_mem := g(q := None), sl_level := l, sl_count := sl_count s - 1\<rparr>) (pre @ suf)"
      "sl_rows (g(q := None)) (pre @ suf) = sl_rows (sl_mem s) (pre @ suf)"
    using sl_del_hit [OF rep g(2,3)] by blast
  obtain m where "sl_mem s q = Some m" using sl_rep_node [OF rep, of q] by simp
  then have "sl_del s k = Some (1, s\<lparr>sl_mem := g(q := None), sl_level := l, sl_count := sl_count s - 1\<rparr>)"
    unfolding sl_del_def using hit(3,4,5) g(1) l(1) by (simp add: kv_keycmp_order)
  moreover have "map_of (sl_rows (sl_mem s) ps) k \<noteq> None" using map_of_sl_rows [OF assms, of q] hit(1,3) by simp
  moreover have "rows_del k (sl_rows (sl_mem s) ps) = sl_rows (sl_mem s) (pre @ suf)"
    using rows_del_append [of "sl_rows (sl_mem s) pre" k "val_of (sl_mem s) q" "sl_rows (sl_mem s) suf"] hit(1,2,3)
    by (auto simp: sl_rows_def)
  ultimately show ?thesis using l(2,3) by (intro exI [of _ "s\<lparr>sl_mem := g(q := None), sl_level := l, sl_count := sl_count s - 1\<rparr>"]
      exI [of _ "pre @ suf"]) simp
next
  case (miss pre suf upd)
  have k: "k \<notin> fst ` set (sl_rows (sl_mem s) ps)" using miss(1,2,3) by (auto simp: sl_rows_def)
  have "sl_del s k = Some (0, s)"
  proof (cases suf)
    case Nil
    with miss(4,5) show ?thesis by (simp add: sl_del_def)
  next
    case (Cons q qs)
    then obtain m where "sl_mem s q = Some m" "k < nkey m" using sl_rep_node [OF assms, of q] miss(1,3) by fastforce
    with Cons miss(4,5) show ?thesis by (auto simp: sl_del_def kv_keycmp_order)
  qed
  with k show ?thesis
    using assms rows_del_id [OF k] by (auto simp: map_of_eq_None_iff)
qed

subsection \<open>Range\<close>

lemma sl_scan_chain:
  assumes "chain h 0 x ps" "set ps \<subseteq> dom h" "sorted_wrt (<) (map (key_of h) ps)"
  shows "sl_scan h hi limit cb (case ps of [] \<Rightarrow> None | q # _ \<Rightarrow> Some q) n arg =
    Some (rows_feed 0 limit cb (filter (\<lambda>r. fst r < hi) (sl_rows h ps)) n arg)"
  using assms
proof (induction ps arbitrary: x n arg)
  case Nil
  then show ?case by (simp add: sl_scan.simps)
next
  case (Cons p ps)
  then obtain m where m: "h p = Some m" by auto
  have nx: "nxt h p 0 = Some (case ps of [] \<Rightarrow> None | q # _ \<Rightarrow> Some q)"
    using Cons.prems(1) by (cases ps) auto
  have IH: "sl_scan h hi limit cb (case ps of [] \<Rightarrow> None | q # _ \<Rightarrow> Some q) n arg =
      Some (rows_feed 0 limit cb (filter (\<lambda>r. fst r < hi) (sl_rows h ps)) n arg)" for n arg
    using Cons.prems by (intro Cons.IH [of p]) auto
  show ?case
  proof (cases "nkey m < hi")
    case True
    then show ?thesis using m nx IH
      by (auto simp: sl_scan.simps [of _ _ _ _ "Some p"] kv_keycmp_order not_le split: option.split prod.split)
  next
    case False
    have "fst r \<ge> hi" if "r \<in> set (sl_rows h ps)" for r
      using Cons.prems(3) m False that by (fastforce simp: sl_rows_def)
    then have none: "filter (\<lambda>r. fst r < hi) (sl_rows h ps) = []"
      by (meson filter_False leD)
    show ?thesis using m False none
      by (auto simp: sl_scan.simps [of _ _ _ _ "Some p"] kv_keycmp_order)
  qed
qed

theorem sl_range_refines:
  assumes "sl_rep s ps"
  shows "sl_range s lo hi limit cb arg =
    (case rows_feed 0 limit cb (rows_range lo hi (sl_rows (sl_mem s) ps)) 0 arg of (n, arg) \<Rightarrow> Some (n, arg, s))"
proof -
  let ?h = "sl_mem s"
  obtain pre suf upd where *: "ps = pre @ suf" "\<forall>p \<in> set pre. key_of ?h p < lo" "\<forall>p \<in> set suf. \<not> key_of ?h p < lo"
      "sl_search ?h lo (sl_level s) (sl_head s) (replicate SL_MAXLEVEL None) = Some (last (sl_head s # pre), upd)"
    using sl_rep_split [OF assms, of lo] by blast
  note r = sl_repD [OF assms]
  have al: "at_level ?h 0 ps = ps" using sl_rep_lvl(1) [OF assms] by (fastforce simp: filter_id_conv)
  have "chain ?h 0 (sl_head s) (at_level ?h 0 ps)" using r(9) by simp
  then have ch: "chain ?h 0 (last (sl_head s # pre)) suf"
    unfolding al unfolding *(1) by (rule chain_append)
  have nx: "nxt ?h (last (sl_head s # pre)) 0 = Some (case suf of [] \<Rightarrow> None | q # _ \<Rightarrow> Some q)"
    using sl_rep_succ0 assms *(1) by blast
  have sc: "sl_scan ?h hi limit cb (case suf of [] \<Rightarrow> None | q # _ \<Rightarrow> Some q) 0 arg =
      Some (rows_feed 0 limit cb (filter (\<lambda>r. fst r < hi) (sl_rows ?h suf)) 0 arg)"
    by (rule sl_scan_chain [OF ch]) (use r(2,8) in \<open>auto simp: *(1) sorted_wrt_append\<close>)
  have "rows_range lo hi (sl_rows ?h pre) = []"
    using *(2) by (auto simp: rows_range_def sl_rows_def filter_empty_conv)
  moreover have "rows_range lo hi (sl_rows ?h suf) = filter (\<lambda>r. fst r < hi) (sl_rows ?h suf)"
    unfolding rows_range_def using *(3) by (intro filter_cong) (auto simp: sl_rows_def not_less)
  ultimately have rr: "rows_range lo hi (sl_rows ?h ps) = filter (\<lambda>r. fst r < hi) (sl_rows ?h suf)"
    by (simp add: *(1) rows_range_def)
  show ?thesis unfolding sl_range_def
    using sl_seek_of_search [OF *(4)] nx sc by (simp add: rr split: prod.split)
qed

subsection \<open>Close\<close>

lemma sl_free_all_chain:
  assumes "chain h 0 p ps" "distinct (p # ps)"
  shows "sl_free_all h (Some p) = Some (\<lambda>a. if a \<in> set (p # ps) then None else h a)"
  using assms
proof (induction ps arbitrary: h p)
  case Nil
  then show ?case by (auto simp: sl_free_all.simps fun_eq_iff)
next
  case (Cons q qs)
  define h' where "h' = h(p := None)"
  have "nxt h' y 0 = nxt h y 0" if "y \<noteq> p" for y using that by (simp add: nxt_def h'_def)
  with Cons.prems have "chain h' 0 q qs = chain h 0 q qs" by (intro chain_cong) fastforce
  with Cons.prems have "sl_free_all h' (Some q) = Some (\<lambda>a. if a \<in> set (q # qs) then None else h' a)"
    using Cons.IH [of h' q] by simp
  moreover have "(\<lambda>a. if a \<in> set (q # qs) then None else h' a) = (\<lambda>a. if a \<in> set (p # q # qs) then None else h a)"
    by (auto simp: h'_def)
  moreover have "sl_free_all h (Some p) = sl_free_all h' (Some q)"
    using Cons.prems(1) by (simp add: sl_free_all.simps [of h "Some p"] h'_def)
  ultimately show ?case by simp
qed

theorem sl_close_frees:
  assumes "sl_rep s ps"
  shows "\<exists>s'. sl_close s = Some s' \<and> sl_mem s' = Map.empty"
proof -
  let ?h = "sl_mem s"
  note r = sl_repD [OF assms]
  have al: "at_level ?h 0 ps = ps" using sl_rep_lvl(1) [OF assms] by (fastforce simp: filter_id_conv)
  have "chain ?h 0 (sl_head s) (at_level ?h 0 ps)" using r(9) by simp
  then have ch: "chain ?h 0 (sl_head s) ps" unfolding al .
  show ?thesis
  proof (cases ps)
    case Nil
    then show ?thesis using ch r(2) by (auto simp: sl_close_def sl_free_all.simps fun_eq_iff dom_def)
  next
    case (Cons p qs)
    then have "sl_free_all ?h (Some p) = Some (\<lambda>a. if a \<in> set ps then None else ?h a)"
      using sl_free_all_chain [of ?h p qs] ch r(1) by simp
    then show ?thesis using ch r(2) Cons by (auto simp: sl_close_def fun_eq_iff dom_def)
  qed
qed

end
