(* ===== verification/KB_Skiplist_Inv.thy ===== *)
theory KB_Skiplist_Inv
  imports KB_Skiplist_Correct
begin

text \<open>
  What holds of every skiplist the program can build: reachable states as a step relation
  (one step per call, the order in which the lock serialises them), the refinement of the sorted
  rows along every run, and the generator of node levels.
\<close>

unbundle bit_operations_syntax

inductive sl_reach :: "skiplist \<Rightarrow> rows \<Rightarrow> bool" where
  reach_open: "sl_reach (sl_new seed) []"
| reach_put: "sl_reach s al \<Longrightarrow> sl_put s k v = Some (rc, s') \<Longrightarrow> sl_reach s' (rows_put k v al)"
| reach_del: "sl_reach s al \<Longrightarrow> sl_del s k = Some (rc, s') \<Longrightarrow> sl_reach s' (rows_del k al)"
| reach_get: "sl_reach s al \<Longrightarrow> sl_get s k = Some (rc, v, s') \<Longrightarrow> sl_reach s' al"

subsection \<open>The operations on the abstraction\<close>

lemma sl_abs_new: "sl_abs (sl_new seed) []"
  unfolding sl_abs_def using sl_rep_new by (intro exI [of _ "[]"]) simp

lemma sl_abs_rows_ok: "sl_abs s al \<Longrightarrow> rows_ok al"
  by (auto simp: sl_abs_def dest: sl_repD(8))

lemma sl_abs_put:
  assumes "sl_abs s al"
  shows "\<exists>s'. sl_put s k v = Some (0, s') \<and> sl_abs s' (rows_put k v al)"
proof -
  obtain ps where "sl_rep s ps" "al = sl_rows (sl_mem s) ps" using assms by (auto simp: sl_abs_def)
  with sl_put_refines [of s ps k v] show ?thesis unfolding sl_abs_def by metis
qed

lemma sl_abs_get:
  "sl_abs s al \<Longrightarrow> sl_get s k = Some (case map_of al k of None \<Rightarrow> (0, None, s) | Some v \<Rightarrow> (1, Some v, s))"
  by (auto simp: sl_abs_def sl_get_refines)

lemma sl_abs_del:
  assumes "sl_abs s al"
  shows "\<exists>s'. sl_del s k = Some (if map_of al k = None then 0 else 1, s') \<and> sl_abs s' (rows_del k al)"
proof -
  obtain ps where "sl_rep s ps" "al = sl_rows (sl_mem s) ps" using assms by (auto simp: sl_abs_def)
  with sl_del_refines [of s ps k] show ?thesis unfolding sl_abs_def by metis
qed

lemma sl_abs_range:
  "sl_abs s al \<Longrightarrow> sl_range s lo hi limit cb arg =
     (case rows_feed 0 limit cb (rows_range lo hi al) 0 arg of (n, arg') \<Rightarrow> Some (n, arg', s))"
  by (auto simp: sl_abs_def sl_range_refines)

lemma sl_abs_close: "sl_abs s al \<Longrightarrow> \<exists>s'. sl_close s = Some s' \<and> sl_mem s' = Map.empty"
  by (auto simp: sl_abs_def sl_close_frees)

lemma sl_abs_count: "sl_abs s al \<Longrightarrow> sl_count s = int (length al) \<and> card (dom (sl_mem s)) = length al + 1"
proof -
  assume "sl_abs s al"
  then obtain ps where ps: "sl_rep s ps" "length al = length ps" by (auto simp: sl_abs_def)
  have "card (insert (sl_head s) (set ps)) = length ps + 1"
    using distinct_card [OF sl_repD(1) [OF ps(1)]] by simp
  with ps show ?thesis using sl_repD(2,10) [OF ps(1)] by simp
qed

lemma sl_reach_abs: "sl_reach s al \<Longrightarrow> sl_abs s al"
proof (induction rule: sl_reach.induct)
  case (reach_put s al k v rc s')
  then show ?case using sl_abs_put [of s al k v] by auto
next
  case (reach_del s al k rc s')
  then show ?case using sl_abs_del [of s al k] by auto
next
  case (reach_get s al k rc v s')
  then show ?case by (simp add: sl_abs_get split: option.splits)
qed (rule sl_abs_new)

subsection \<open>The level generator\<close>

text \<open>A xor with a proper shift of itself is zero only for zero.\<close>

lemma xor_push_bit_zero:
  fixes x :: u64
  assumes "0 < n" "x XOR push_bit n x = 0"
  shows "x = 0"
proof -
  have eq: "bit x i = bit (push_bit n x) i" for i
    using arg_cong [OF assms(2), of "\<lambda>w. bit w i"] by (simp add: bit_xor_iff)
  have "\<not> bit x i" for i
  proof (induction i rule: less_induct)
    case (less i)
    then show ?case using eq [of i] assms(1) by (auto simp: bit_push_bit_iff)
  qed
  then show ?thesis by (simp add: bit_eq_iff)
qed

lemma xor_drop_bit_zero:
  fixes x :: u64
  assumes "0 < n" "x XOR drop_bit n x = 0"
  shows "x = 0"
proof -
  have eq: "bit x i = bit x (n + i)" for i
    using arg_cong [OF assms(2), of "\<lambda>w. bit w i"] by (simp add: bit_xor_iff bit_drop_bit_eq)
  have "\<not> bit x (64 - j)" if "j \<le> 64" for j
    using that
  proof (induction j rule: less_induct)
    case (less j)
    show ?case
    proof (cases "j < n")
      case True
      then have "\<not> bit x (n + (64 - j))" using less.prems by (auto dest: bit_imp_le_length)
      then show ?thesis using eq by blast
    next
      case False
      then have "n + (64 - j) = 64 - (j - n)" using less.prems by simp
      then show ?thesis using eq [of "64 - j"] less.IH [of "j - n"] False assms(1) less.prems by simp
    qed
  qed
  then have "\<not> bit x i" if "i \<le> 64" for i using that by (metis diff_diff_cancel diff_le_self)
  then have "\<not> bit x i" for i by (cases "i \<le> 64") (auto dest: bit_imp_le_length)
  then show ?thesis by (simp add: bit_eq_iff)
qed

lemma xor_eq_zeroD:
  fixes a b :: u64
  assumes "a XOR b = 0"
  shows "b = a"
proof (rule bit_eqI)
  fix i
  show "bit b i = bit a i"
    using arg_cong [OF assms, of "\<lambda>w. bit w i"] by (simp add: bit_xor_iff)
qed

lemma xorshift_nonzero: "x \<noteq> 0 \<Longrightarrow> xorshift x \<noteq> 0"
  unfolding xorshift_def Let_def by (metis xor_push_bit_zero xor_drop_bit_zero zero_less_numeral)

lemma word_plus_times_unat:
  fixes w :: u64
  assumes "unat w * c + 1 < 2 ^ 64"
  shows "unat (w * of_nat c + 1) = unat w * c + 1"
proof -
  have "w * of_nat c + 1 = of_nat (unat w * c + 1)" by simp
  then show ?thesis using assms by (simp only: unat_of_nat) simp
qed

lemma sl_seed_nonzero: "sl_seed seed \<noteq> 0"
proof
  define w :: u64 where "w = ucast seed"
  have s: "unat seed < 2 ^ 32" using unsigned_less [of seed, where 'a = nat] by simp
  then have w: "unat w < 2 ^ 32"
    by (simp add: w_def unsigned_ucast_eq take_bit_nat_eq_self)
  assume "sl_seed seed = 0"
  then have "w * 2654435761 + 1 = 0x9e3779b97f4a7c15"
    unfolding sl_seed_def w_def by (rule xor_eq_zeroD)
  then have "unat (w * of_nat 2654435761 + 1) = 0x9e3779b97f4a7c15" by simp
  moreover have "unat (w * of_nat 2654435761 + 1) = unat w * 2654435761 + 1"
    by (rule word_plus_times_unat) (use w in simp)
  ultimately have "unat w * 2654435761 + 1 = 0x9e3779b97f4a7c15" by (simp only:)
  then show False using w by simp
qed

lemma word_mod4_iff: "x mod SL_P = 0 \<longleftrightarrow> 4 dvd unat x"
proof -
  have "x mod SL_P = 0 \<longleftrightarrow> unat (x mod SL_P) = 0" by (rule unat_eq_zero [symmetric])
  also have "unat (x mod SL_P) = unat x mod 4" by (simp add: unat_mod)
  finally show ?thesis by (simp add: dvd_eq_mod_eq_0)
qed

lemma rand_lvl_grows:
  "lvl + j < SL_MAXLEVEL \<Longrightarrow> lvl + j < rand_lvl lvl x \<longleftrightarrow> 4 ^ Suc j dvd unat x"
proof (induction j arbitrary: lvl x)
  case 0
  then show ?case
    using rand_lvl_bounds [of "Suc lvl" "x div SL_P"] by (auto simp: rand_lvl.simps [of lvl] word_mod4_iff)
next
  case (Suc j)
  show ?case
  proof (cases "4 dvd unat x")
    case True
    then have "rand_lvl lvl x = rand_lvl (Suc lvl) (x div SL_P)"
      using Suc.prems by (subst rand_lvl.simps) (simp add: word_mod4_iff)
    moreover have "unat (x div SL_P) = unat x div 4" by (simp add: unat_div)
    moreover have "4 ^ Suc (Suc j) dvd unat x \<longleftrightarrow> 4 ^ Suc j dvd unat x div 4"
      using True by (auto elim!: dvdE)
    ultimately show ?thesis using Suc.IH [of "Suc lvl" "x div SL_P"] Suc.prems by simp
  next
    case False
    then have "rand_lvl lvl x = lvl" by (subst rand_lvl.simps) (simp add: word_mod4_iff)
    moreover have "\<not> 4 ^ Suc (Suc j) dvd unat x"
      using False by (metis dvd_mult_left power_Suc)
    ultimately show ?thesis by simp
  qed
qed

lemma sl_put_rng: "sl_put s k v = Some (rc, s') \<Longrightarrow> sl_rng s' = sl_rng s \<or> sl_rng s' = xorshift (sl_rng s)"
  by (auto simp: sl_put_def rand_level_def Let_def bind_eq_Some_conv split: option.splits if_splits prod.splits)

lemma sl_del_rng: "sl_del s k = Some (rc, s') \<Longrightarrow> sl_rng s' = sl_rng s"
  by (auto simp: sl_del_def bind_eq_Some_conv split: option.splits if_splits prod.splits)

lemma sl_get_state: "sl_get s k = Some (rc, v, s') \<Longrightarrow> s' = s"
  by (auto simp: sl_get_def bind_eq_Some_conv split: option.splits if_splits)

subsection \<open>Properties\<close>

text \<open>
  C1. On every skiplist the program can reach, every call returns (no bad pointer, no endless
  walk) and acts on the sorted rows: a put stores the pair and returns 0, a delete removes the
  key and returns whether it was there, a get finds exactly what the rows hold, a range
  feeds the rows of the half-open interval in key order to the callback until it stops or
  the limit is reached.
\<close>

theorem skiplist_refines_rows:
  assumes "sl_reach s al"
  shows "(\<exists>s'. sl_put s k v = Some (0, s') \<and> sl_reach s' (rows_put k v al)) \<and>
    (\<exists>s'. sl_del s k = Some (if map_of al k = None then 0 else 1, s') \<and> sl_reach s' (rows_del k al)) \<and>
    sl_get s k = Some (case map_of al k of None \<Rightarrow> (0, None, s) | Some w \<Rightarrow> (1, Some w, s)) \<and>
    sl_range s lo hi limit cb arg =
      (case rows_feed 0 limit cb (rows_range lo hi al) 0 arg of (n, arg') \<Rightarrow> Some (n, arg', s))"
proof -
  note abs = sl_reach_abs [OF assms]
  show ?thesis
    using sl_abs_put [OF abs, of k v] sl_abs_del [OF abs, of k] sl_abs_get [OF abs, of k]
      sl_abs_range [OF abs, of lo hi limit cb arg] assms
    by (auto intro: reach_put reach_del)
qed

theorem skiplist_refines_rows_witness:
  "sl_get (sl_new 7) ''k'' = Some (0, None, sl_new 7)"
  using skiplist_refines_rows [OF reach_open [of 7], of "''k''" "''v''" "[]" "[]" 0 None "()"] by simp

text \<open>
  C2. The representation invariant holds in every reachable skiplist: the towers of the levels below
  \<open>SL_MAXLEVEL\<close> are chains over the same sorted nodes, no two keys are equal, the counter is the
  number of keys and the heap holds exactly the head and one node per key, so nothing leaks.
\<close>

theorem skiplist_invariant:
  assumes "sl_reach s al"
  shows "(\<exists>ps. sl_rep s ps \<and> al = sl_rows (sl_mem s) ps) \<and> rows_ok al \<and>
    sl_count s = int (length al) \<and> card (dom (sl_mem s)) = length al + 1"
  using sl_reach_abs [OF assms] sl_abs_count [OF sl_reach_abs [OF assms]] sl_abs_rows_ok [OF sl_reach_abs [OF assms]]
  by (simp add: sl_abs_def)

theorem skiplist_invariant_witness:
  "\<exists>s. sl_put (sl_new 0) ''b'' ''1'' = Some (0, s) \<and> sl_count s = 1"
proof -
  obtain s where s: "sl_put (sl_new 0) ''b'' ''1'' = Some (0, s)" using sl_abs_put [OF sl_abs_new] by blast
  then have "sl_reach s (rows_put ''b'' ''1'' [])" using reach_open by (rule reach_put [rotated])
  with s show ?thesis using skiplist_invariant [of s "rows_put ''b'' ''1'' []"] by auto
qed

text \<open>
  C14. Closing a reachable skiplist frees every node, each once and none after use: the walk
  returns and the heap it leaves is empty.
\<close>

theorem skiplist_close_frees_all:
  assumes "sl_reach s al"
  shows "\<exists>s'. sl_close s = Some s' \<and> sl_mem s' = Map.empty"
  using sl_abs_close [OF sl_reach_abs [OF assms]] .

theorem skiplist_close_frees_all_witness:
  "\<exists>s'. sl_close (sl_new 3) = Some s' \<and> sl_mem s' = Map.empty"
  using skiplist_close_frees_all [OF reach_open] .

text \<open>
  C13. The generator never gets stuck at zero: its seed is nonzero for every seed the program
  passes and each step keeps it nonzero. Every level drawn is between 1 and \<open>SL_MAXLEVEL\<close>, and it
  exceeds \<open>j + 1\<close> exactly when the drawn word is divisible by \<open>4 ^ (j + 1)\<close>.
\<close>

theorem skiplist_levels:
  assumes "sl_reach s al"
  shows "sl_rng s \<noteq> 0 \<and>
    (case rand_level s of (lvl, s') \<Rightarrow>
       1 \<le> lvl \<and> lvl \<le> SL_MAXLEVEL \<and> sl_rng s' \<noteq> 0 \<and>
       (\<forall>j < SL_MAXLEVEL - 1. j + 1 < lvl \<longleftrightarrow> 4 ^ (j + 1) dvd unat (sl_rng s')))"
proof -
  have nz: "sl_rng s \<noteq> 0"
    using assms
  proof (induction rule: sl_reach.induct)
    case (reach_open seed)
    then show ?case by (simp add: sl_new_def sl_seed_nonzero)
  next
    case (reach_put s al k v rc s')
    then show ?case using sl_put_rng [OF reach_put.hyps(2)] xorshift_nonzero by metis
  next
    case (reach_del s al k rc s')
    then show ?case by (simp add: sl_del_rng)
  next
    case (reach_get s al k rc v s')
    then show ?case using sl_get_state by metis
  qed
  moreover have "Suc j < rand_lvl 1 (xorshift (sl_rng s)) \<longleftrightarrow> 4 ^ Suc j dvd unat (xorshift (sl_rng s))"
    if "j < SL_MAXLEVEL - 1" for j
    using rand_lvl_grows [of 1 j "xorshift (sl_rng s)"] that by simp
  ultimately show ?thesis
    using rand_lvl_bounds [of 1 "xorshift (sl_rng s)"] xorshift_nonzero [of "sl_rng s"]
    by (simp add: rand_level_def Let_def)
qed

theorem skiplist_levels_witness: "sl_rng (sl_new 1) \<noteq> 0"
  using skiplist_levels [OF reach_open [of 1]] by simp

end
