(* ===== verification/KB_Store.thy ===== *)
theory KB_Store
  imports KB_Skiplist_Inv
begin

text \<open>
  The store facade of \<open>src/src/store.c\<close>: every call goes through the vtable of the open
  backend, writes are repeated while the engine answers \<open>KV_RETRY\<close>, and the batch calls
  fall back to single calls when the engine has no batch entry.

  What the engine's own threads do while \<open>store_backoff\<close> sleeps is the parameter \<open>bg\<close>. The retry
  loop may not end, so it is a \<^theory_text>\<open>partial_function (option)\<close>; the interface of an engine
  is the locale \<open>engine\<close>, which promises that a stall clears, and \<open>exact_engine\<close>, whose writes do not
  fail. Both are interpreted on the skiplist.
\<close>

subsection \<open>The code\<close>

record ('c, 'a) kv_store =
  st_be :: "('c, 'a) kv_backend"

abbreviation st_ctx :: "('c, 'a) kv_store \<Rightarrow> 'c" where "st_ctx s \<equiv> be_ctx (st_be s)"

definition set_ctx :: "('c, 'a) kv_store \<Rightarrow> 'c \<Rightarrow> ('c, 'a) kv_store" where
  "set_ctx s c = s\<lparr>st_be := (st_be s)\<lparr>be_ctx := c\<rparr>\<rparr>"

definition store_open ::
  "(u32 \<Rightarrow> string option \<Rightarrow> 'o \<Rightarrow> ('c, 'a) kv_backend) \<Rightarrow> u32 \<Rightarrow> string option \<Rightarrow> 'o \<Rightarrow> ('c, 'a) kv_store" where
  "store_open inner seed data_dir opts = \<lparr>st_be = inner seed data_dir opts\<rparr>"

definition store_close :: "('c, 'a) kv_store \<Rightarrow> 'c option" where
  "store_close s = be_close (st_be s) (st_ctx s)"

definition store_version :: "('c, 'a) kv_store \<Rightarrow> string" where
  "store_version s = (case be_version (st_be s) of Some f \<Rightarrow> f (st_ctx s) | None \<Rightarrow> be_name (st_be s))"

definition store_datadir :: "('c, 'a) kv_store \<Rightarrow> string option" where
  "store_datadir s = (case be_datadir (st_be s) of Some f \<Rightarrow> Some (f (st_ctx s)) | None \<Rightarrow> None)"

definition store_stats :: "('c, 'a) kv_store \<Rightarrow> (string \<times> double) list" where
  "store_stats s = (case be_stats (st_be s) of Some f \<Rightarrow> f (st_ctx s) | None \<Rightarrow> [])"

text \<open>\<open>while ((rc = f(ctx)) == KV_RETRY) store_backoff();\<close>\<close>

partial_function (option) retry :: "('c \<Rightarrow> 'c) \<Rightarrow> ('c \<Rightarrow> (int \<times> 'c) option) \<Rightarrow> 'c \<Rightarrow> (int \<times> 'c) option" where
  "retry bg f c =
     Option.bind (f c) (\<lambda>r. if fst r = KV_RETRY then retry bg f (bg (snd r)) else Some r)"

declare retry.simps [code]

definition store_put :: "('c \<Rightarrow> 'c) \<Rightarrow> ('c, 'a) kv_store \<Rightarrow> bytes \<Rightarrow> bytes \<Rightarrow> (int \<times> ('c, 'a) kv_store) option" where
  "store_put bg s k v =
     do { (rc, c) \<leftarrow> retry bg (\<lambda>c. be_put (st_be s) c k v) (st_ctx s); Some (rc, set_ctx s c) }"

fun putbatch_loop ::
  "('c \<Rightarrow> 'c) \<Rightarrow> ('c, 'a) kv_store \<Rightarrow> (bytes \<times> bytes) list \<Rightarrow> int \<Rightarrow> (int \<times> ('c, 'a) kv_store) option" where
  "putbatch_loop bg s [] rc = Some (rc, s)"
| "putbatch_loop bg s ((k, v) # kvs) rc =
     do { (r, s) \<leftarrow> store_put bg s k v; putbatch_loop bg s kvs (if r \<noteq> 0 then - 1 else rc) }"

definition store_putbatch ::
  "('c \<Rightarrow> 'c) \<Rightarrow> ('c, 'a) kv_store \<Rightarrow> (bytes \<times> bytes) list \<Rightarrow> (int \<times> ('c, 'a) kv_store) option" where
  "store_putbatch bg s kvs =
     (case be_putbatch (st_be s) of
        Some f \<Rightarrow> do { (rc, c) \<leftarrow> retry bg (\<lambda>c. f c kvs) (st_ctx s); Some (rc, set_ctx s c) }
      | None \<Rightarrow> putbatch_loop bg s kvs 0)"

definition store_get ::
  "('c, 'a) kv_store \<Rightarrow> bytes \<Rightarrow> (int \<times> bytes option \<times> ('c, 'a) kv_store) option" where
  "store_get s k =
     do { (found, bv, c) \<leftarrow> be_get (st_be s) (st_ctx s) k;
          Some (found, if found > 0 then bv else None, set_ctx s c) }"

definition store_del :: "('c \<Rightarrow> 'c) \<Rightarrow> ('c, 'a) kv_store \<Rightarrow> bytes \<Rightarrow> (int \<times> ('c, 'a) kv_store) option" where
  "store_del bg s k =
     do { (rc, c) \<leftarrow> retry bg (\<lambda>c. be_del (st_be s) c k) (st_ctx s); Some (rc, set_ctx s c) }"

fun delbatch_loop ::
  "('c \<Rightarrow> 'c) \<Rightarrow> ('c, 'a) kv_store \<Rightarrow> bytes list \<Rightarrow> int \<Rightarrow> (int \<times> ('c, 'a) kv_store) option" where
  "delbatch_loop bg s [] rc = Some (rc, s)"
| "delbatch_loop bg s (k # ks) rc =
     do { (r, s) \<leftarrow> store_del bg s k; delbatch_loop bg s ks (if r < 0 then - 1 else rc) }"

definition store_delbatch ::
  "('c \<Rightarrow> 'c) \<Rightarrow> ('c, 'a) kv_store \<Rightarrow> bytes list \<Rightarrow> (int \<times> ('c, 'a) kv_store) option" where
  "store_delbatch bg s ks =
     (case be_delbatch (st_be s) of
        Some f \<Rightarrow> do { (rc, c) \<leftarrow> retry bg (\<lambda>c. f c ks) (st_ctx s); Some (rc, set_ctx s c) }
      | None \<Rightarrow> delbatch_loop bg s ks 0)"

definition store_range ::
  "('c, 'a) kv_store \<Rightarrow> bytes \<Rightarrow> bytes \<Rightarrow> int \<Rightarrow> 'a kv_range_cb option \<Rightarrow> 'a \<Rightarrow>
   (int \<times> 'a \<times> ('c, 'a) kv_store) option" where
  "store_range s lo hi limit cb arg =
     do { (n, arg, c) \<leftarrow> be_range (st_be s) (st_ctx s) lo hi limit cb arg; Some (n, arg, set_ctx s c) }"

subsection \<open>The retry loop\<close>

text \<open>The result of the first attempt that is not \<open>KV_RETRY\<close>, if it is among the first \<open>n + 1\<close>.\<close>

fun attempt :: "('c \<Rightarrow> 'c) \<Rightarrow> ('c \<Rightarrow> (int \<times> 'c) option) \<Rightarrow> nat \<Rightarrow> 'c \<Rightarrow> (int \<times> 'c) option" where
  "attempt bg f 0 c = f c"
| "attempt bg f (Suc n) c =
     do { (rc, c) \<leftarrow> f c; if rc = KV_RETRY then attempt bg f n (bg c) else Some (rc, c) }"

lemma retry_attempt:
  "attempt bg f n c = Some (rc, c') \<Longrightarrow> rc \<noteq> KV_RETRY \<Longrightarrow> retry bg f c = Some (rc, c')"
proof (induction n arbitrary: c)
  case 0
  then show ?case by (simp add: retry.simps)
next
  case (Suc n)
  then show ?case by (subst retry.simps) (auto simp: bind_eq_Some_conv split: if_splits)
qed

lemma retry_result:
  assumes "retry bg f c = Some r"
  shows "fst r \<noteq> KV_RETRY \<and> (\<exists>n. attempt bg f n c = Some r)"
  using _ assms
proof (rule retry.raw_induct [where P = "\<lambda>bg f c r. fst r \<noteq> KV_RETRY \<and> (\<exists>n. attempt bg f n c = Some r)"])
  fix rec :: "('c \<Rightarrow> 'c) \<Rightarrow> ('c \<Rightarrow> (int \<times> 'c) option) \<Rightarrow> 'c \<Rightarrow> (int \<times> 'c) option"
    and bg :: "'c \<Rightarrow> 'c" and f :: "'c \<Rightarrow> (int \<times> 'c) option" and c r
  assume IH: "\<And>bg f c r. rec bg f c = Some r \<Longrightarrow> fst r \<noteq> KV_RETRY \<and> (\<exists>n. attempt bg f n c = Some r)"
    and step: "Option.bind (f c) (\<lambda>r. if fst r = KV_RETRY then rec bg f (bg (snd r)) else Some r) = Some r"
  obtain p where p: "f c = Some p" "(if fst p = KV_RETRY then rec bg f (bg (snd p)) else Some p) = Some r"
    using step by (auto simp: bind_eq_Some_conv)
  show "fst r \<noteq> KV_RETRY \<and> (\<exists>n. attempt bg f n c = Some r)"
  proof (cases "fst p = KV_RETRY")
    case True
    with p IH [of bg f "bg (snd p)" r] obtain n where n: "fst r \<noteq> KV_RETRY" "attempt bg f n (bg (snd p)) = Some r"
      by auto
    with p True have "attempt bg f (Suc n) c = Some r" by (cases p) simp
    with n(1) show ?thesis by blast
  next
    case False
    with p have "attempt bg f 0 c = Some r" "fst r \<noteq> KV_RETRY" by auto
    then show ?thesis by blast
  qed
qed

text \<open>An assertion that every attempt and every background step keeps holds after the loop.\<close>

lemma retry_invariant:
  assumes "retry bg f c = Some (rc, c')" "P c"
    and "\<And>c rc c'. P c \<Longrightarrow> f c = Some (rc, c') \<Longrightarrow> if rc = KV_RETRY then P c' else Q rc c'"
    and "\<And>c. P c \<Longrightarrow> P (bg c)"
  shows "Q rc c'"
proof -
  obtain n where n: "attempt bg f n c = Some (rc, c')" "rc \<noteq> KV_RETRY" using retry_result [OF assms(1)] by auto
  from n(1) assms(2) show ?thesis
  proof (induction n arbitrary: c)
    case 0
    then show ?case using assms(3) [of c rc c'] n(2) by simp
  next
    case (Suc n)
    then obtain r d where "f c = Some (r, d)" "(if r = KV_RETRY then attempt bg f n (bg d) else Some (r, d)) = Some (rc, c')"
      by (auto simp: bind_eq_Some_conv)
    then show ?case using Suc.IH [of "bg d"] Suc.prems(2) assms(3) [of c r d] assms(4) [of d] by (auto split: if_splits)
  qed
qed

subsection \<open>What a client may rely on\<close>

definition kv_at :: "('c, 'a) kv_backend \<Rightarrow> 'c \<Rightarrow> ('c, 'a) kv_store" where
  "kv_at be c = \<lparr>st_be = be\<lparr>be_ctx := c\<rparr>\<rparr>"

lemma kv_at_simps [simp]:
  "set_ctx (kv_at be c) c' = kv_at be c'" "st_ctx (kv_at be c) = c"
  "be_put (st_be (kv_at be c)) = be_put be" "be_putbatch (st_be (kv_at be c)) = be_putbatch be"
  "be_get (st_be (kv_at be c)) = be_get be" "be_del (st_be (kv_at be c)) = be_del be"
  "be_delbatch (st_be (kv_at be c)) = be_delbatch be" "be_range (st_be (kv_at be c)) = be_range be"
  by (simp_all add: kv_at_def set_ctx_def)

lemma kv_at_inject [simp]: "kv_at be c = kv_at be c' \<longleftrightarrow> c = c'"
  by (metis kv_at_simps(2))

lemma kv_at_ctx: "\<lparr>st_be = be\<rparr> = kv_at be (be_ctx be)"
  by (simp add: kv_at_def)

abbreviation rows_putall :: "(bytes \<times> bytes) list \<Rightarrow> rows \<Rightarrow> rows" where
  "rows_putall \<equiv> fold (\<lambda>(k, v). rows_put k v)"

abbreviation rows_delall :: "bytes list \<Rightarrow> rows \<Rightarrow> rows" where
  "rows_delall \<equiv> fold rows_del"

text \<open>A write call of an engine: it returns, does the write or leaves the rows alone, and a stall clears.\<close>

definition write_law ::
  "('c \<Rightarrow> rows \<Rightarrow> bool) \<Rightarrow> ('c \<Rightarrow> 'c) \<Rightarrow> (int \<Rightarrow> bool) \<Rightarrow> ('c \<Rightarrow> (int \<times> 'c) option) \<Rightarrow> (rows \<Rightarrow> rows) \<Rightarrow> bool" where
  "write_law R bg ok f upd \<longleftrightarrow>
     (\<forall>c al rc c'. R c al \<longrightarrow> f c = Some (rc, c') \<longrightarrow> R c' (if ok rc then upd al else al)) \<and>
     (\<forall>c al. R c al \<longrightarrow> (\<exists>n rc c'. attempt bg f n c = Some (rc, c') \<and> rc \<noteq> KV_RETRY))"

text \<open>
  The same for an engine that is one call of a library over a handle of type \<open>'d\<close> and one translation of its
  status: \<open>applies\<close> is a call that leaves the rows alone unless its status is good, \<open>settles\<close> a call that no longer asks
  to be repeated after at most \<open>n\<close> repetitions.
\<close>

definition applies :: "('e \<Rightarrow> bool) \<Rightarrow> ('d \<Rightarrow> rows \<Rightarrow> bool) \<Rightarrow> ('d \<Rightarrow> 'e \<times> 'd) \<Rightarrow> (rows \<Rightarrow> rows) \<Rightarrow> bool" where
  "applies good R f upd \<longleftrightarrow> (\<forall>db al. R db al \<longrightarrow> R (snd (f db)) (if good (fst (f db)) then upd al else al))"

fun settles :: "('e \<Rightarrow> bool) \<Rightarrow> ('d \<Rightarrow> 'd) \<Rightarrow> ('d \<Rightarrow> 'e \<times> 'd) \<Rightarrow> nat \<Rightarrow> 'd \<Rightarrow> bool" where
  "settles again bg f 0 db \<longleftrightarrow> \<not> again (fst (f db))"
| "settles again bg f (Suc n) db \<longleftrightarrow> \<not> again (fst (f db)) \<or> settles again bg f n (bg (snd (f db)))"

definition stall_ends :: "('e \<Rightarrow> bool) \<Rightarrow> ('d \<Rightarrow> rows \<Rightarrow> bool) \<Rightarrow> ('d \<Rightarrow> 'd) \<Rightarrow> ('d \<Rightarrow> 'e \<times> 'd) \<Rightarrow> bool" where
  "stall_ends again R bg f \<longleftrightarrow> (\<forall>db al. R db al \<longrightarrow> (\<exists>n. settles again bg f n db))"

definition lift_call :: "('e \<Rightarrow> int) \<Rightarrow> ('c \<Rightarrow> 'd) \<Rightarrow> ('d \<Rightarrow> 'c \<Rightarrow> 'c) \<Rightarrow> ('d \<Rightarrow> 'e \<times> 'd) \<Rightarrow> 'c \<Rightarrow> (int \<times> 'c) option" where
  "lift_call code sel upd f c = Some (code (fst (f (sel c))), upd (snd (f (sel c))) c)"

lemma attempt_settles:
  assumes sel: "\<And>d c. sel (upd d c) = d" and code: "\<And>e. code e = KV_RETRY \<longleftrightarrow> again e" and n: "settles again bg f n (sel c)"
  shows "\<exists>rc c'. attempt (\<lambda>c. upd (bg (sel c)) c) (lift_call code sel upd f) n c = Some (rc, c') \<and> rc \<noteq> KV_RETRY"
  using n
proof (induction n arbitrary: c)
  case 0
  then show ?case using code by (simp add: lift_call_def)
next
  case (Suc n)
  then show ?case
    using Suc.IH [of "upd (bg (snd (f (sel c)))) (upd (snd (f (sel c))) c)"] code
    by (cases "again (fst (f (sel c)))") (simp_all add: lift_call_def sel)
qed

lemma lifted_write_law:
  assumes sel: "\<And>d c. sel (upd d c) = d" and code: "\<And>e. code e = KV_RETRY \<longleftrightarrow> again e" "\<And>e. ok (code e) \<longleftrightarrow> good e"
    and call: "applies good R f g" "stall_ends again R bg f"
  shows "write_law (\<lambda>c. R (sel c)) (\<lambda>c. upd (bg (sel c)) c) ok (lift_call code sel upd f) g"
  unfolding write_law_def
proof (intro conjI allI impI)
  fix c al rc c' assume a: "R (sel c) al" "lift_call code sel upd f c = Some (rc, c')"
  have "R (snd (f (sel c))) (if good (fst (f (sel c))) then g al else al)" using call(1) a(1) by (simp add: applies_def)
  then show "R (sel c') (if ok rc then g al else al)" using a(2) by (auto simp: lift_call_def sel code(2))
next
  fix c al assume "R (sel c) al"
  then obtain n where n: "settles again bg f n (sel c)" using call(2) by (auto simp: stall_ends_def)
  have "\<exists>rc c'. attempt (\<lambda>c. upd (bg (sel c)) c) (lift_call code sel upd f) n c = Some (rc, c') \<and> rc \<noteq> KV_RETRY"
    by (rule attempt_settles [where again = again]) (fact sel code(1) n)+
  then show "\<exists>n rc c'. attempt (\<lambda>c. upd (bg (sel c)) c) (lift_call code sel upd f) n c = Some (rc, c') \<and> rc \<noteq> KV_RETRY" ..
qed

text \<open>The operations of a batch, and what they do to the rows.\<close>

datatype batch_op = BPut bytes bytes | BDelete bytes

fun batch_rows :: "batch_op \<Rightarrow> rows \<Rightarrow> rows" where
  "batch_rows (BPut k v) al = rows_put k v al"
| "batch_rows (BDelete k) al = rows_del k al"

lemma batch_rows_eq: "batch_rows (BPut k v) = rows_put k v" "batch_rows (BDelete k) = rows_del k"
  by (simp_all add: fun_eq_iff)

lemma fold_batch_put: "fold batch_rows (map (\<lambda>(k, v). BPut k v) kvs) = rows_putall kvs"
  by (induction kvs) (auto simp: fun_eq_iff)

lemma fold_batch_del: "fold batch_rows (map BDelete ks) = rows_delall ks"
  by (induction ks) (auto simp: fun_eq_iff)

lemma rows_ok_batch: "rows_ok al \<Longrightarrow> rows_ok (fold batch_rows wb al)"
proof (induction wb arbitrary: al)
  case (Cons b wb)
  then show ?case using rows_ok_put rows_ok_del by (cases b) auto
qed simp

locale engine =
  fixes be :: "('c, 'a) kv_backend" and R :: "'c \<Rightarrow> rows \<Rightarrow> bool" and bg :: "'c \<Rightarrow> 'c"
  assumes R_ok: "R c al \<Longrightarrow> rows_ok al"
    and bg_keeps: "R c al \<Longrightarrow> R (bg c) al"
    and put_law: "write_law R bg (\<lambda>rc. rc = 0) (\<lambda>c. be_put be c k v) (rows_put k v)"
    and putbatch_law: "be_putbatch be = Some f \<Longrightarrow> write_law R bg (\<lambda>rc. rc = 0) (\<lambda>c. f c kvs) (rows_putall kvs)"
    and del_law: "write_law R bg (\<lambda>rc. 0 < rc) (\<lambda>c. be_del be c k) (rows_del k)"
    and delbatch_law: "be_delbatch be = Some g \<Longrightarrow> write_law R bg (\<lambda>rc. rc = 0) (\<lambda>c. g c ks) (rows_delall ks)"
    and get_law: "R c al \<Longrightarrow> \<exists>rc v c'. be_get be c k = Some (rc, v, c') \<and> R c' al \<and>
                    (0 < rc \<longrightarrow> v = map_of al k \<and> v \<noteq> None) \<and> (rc = 0 \<longrightarrow> map_of al k = None)"
begin

lemma retry_write:
  assumes law: "write_law R bg ok f upd" and retry_bad: "\<not> ok KV_RETRY" and c: "R c al"
  shows "\<exists>rc c'. retry bg f c = Some (rc, c') \<and> rc \<noteq> KV_RETRY \<and> R c' (if ok rc then upd al else al)"
proof -
  obtain n rc c' where n: "attempt bg f n c = Some (rc, c')" "rc \<noteq> KV_RETRY"
    using law c unfolding write_law_def by blast
  then have r: "retry bg f c = Some (rc, c')" by (rule retry_attempt)
  have "R c' (if ok rc then upd al else al)"
  proof (rule retry_invariant [OF r, where P = "\<lambda>c. R c al" and Q = "\<lambda>rc c'. R c' (if ok rc then upd al else al)"])
    show "if rc = KV_RETRY then R c' al else R c' (if ok rc then upd al else al)"
      if "R c al" "f c = Some (rc, c')" for c rc c'
      using law that retry_bad unfolding write_law_def by fastforce
  qed (use c bg_keeps in auto)
  with r n(2) show ?thesis by blast
qed

lemma store_put_ok:
  assumes "R c al"
  shows "\<exists>rc c'. store_put bg (kv_at be c) k v = Some (rc, kv_at be c') \<and> rc \<noteq> KV_RETRY \<and>
           R c' (if rc = 0 then rows_put k v al else al)"
proof -
  obtain rc c' where "retry bg (\<lambda>c. be_put be c k v) c = Some (rc, c')" "rc \<noteq> KV_RETRY"
      "R c' (if rc = 0 then rows_put k v al else al)"
    using retry_write [OF put_law [of k v] _ assms] by (auto simp: KV_RETRY_def)
  then show ?thesis by (intro exI [of _ rc] exI [of _ c']) (simp add: store_put_def)
qed

lemma store_del_ok:
  assumes "R c al"
  shows "\<exists>rc c'. store_del bg (kv_at be c) k = Some (rc, kv_at be c') \<and> rc \<noteq> KV_RETRY \<and>
           R c' (if 0 < rc then rows_del k al else al)"
proof -
  obtain rc c' where "retry bg (\<lambda>c. be_del be c k) c = Some (rc, c')" "rc \<noteq> KV_RETRY"
      "R c' (if 0 < rc then rows_del k al else al)"
    using retry_write [OF del_law [of k] _ assms] by (auto simp: KV_RETRY_def)
  then show ?thesis by (intro exI [of _ rc] exI [of _ c']) (simp add: store_del_def)
qed

text \<open>The fallback loops: all writes are tried, and a result of 0 means that every one of them took effect.\<close>

lemma putbatch_loop_ok:
  assumes "R c al"
  shows "\<exists>rc' c' al'. putbatch_loop bg (kv_at be c) kvs rc = Some (rc', kv_at be c') \<and> R c' al' \<and>
           (rc' = rc \<and> al' = rows_putall kvs al \<or> rc' = - 1)"
  using assms
proof (induction kvs arbitrary: c al rc)
  case Nil
  then show ?case by auto
next
  case (Cons kv kvs)
  obtain k v where kv: "kv = (k, v)" by fastforce
  obtain r c1 where r: "store_put bg (kv_at be c) k v = Some (r, kv_at be c1)" "R c1 (if r = 0 then rows_put k v al else al)"
    using store_put_ok [OF Cons.prems, of k v] by auto
  from Cons.IH [OF r(2), of "if r \<noteq> 0 then - 1 else rc"] r(1) show ?case
    unfolding kv by (cases "r = 0") auto
qed

lemma store_putbatch_ok:
  assumes "R c al"
  shows "\<exists>rc c' al'. store_putbatch bg (kv_at be c) kvs = Some (rc, kv_at be c') \<and> R c' al' \<and> rc \<noteq> KV_RETRY \<and>
           (rc = 0 \<longrightarrow> al' = rows_putall kvs al)"
proof (cases "be_putbatch be")
  case None
  then show ?thesis using putbatch_loop_ok [OF assms, of kvs 0] by (auto simp: store_putbatch_def KV_RETRY_def)
next
  case (Some f)
  then show ?thesis
    using retry_write [OF putbatch_law [OF Some, of kvs] _ assms]
    by (auto simp: store_putbatch_def KV_RETRY_def split: if_splits)
qed

text \<open>
  The fallback for deletes only tells that every key was tried: a single delete that finds nothing and one that fails
  may return the same 0.
\<close>

lemma delbatch_loop_ok:
  assumes "R c al"
  shows "\<exists>rc' c' al'. delbatch_loop bg (kv_at be c) ks rc = Some (rc', kv_at be c') \<and> R c' al' \<and> (rc' = rc \<or> rc' = - 1)"
  using assms
proof (induction ks arbitrary: c al rc)
  case Nil
  then show ?case by auto
next
  case (Cons k ks)
  obtain r c1 where r: "store_del bg (kv_at be c) k = Some (r, kv_at be c1)" "R c1 (if 0 < r then rows_del k al else al)"
    using store_del_ok [OF Cons.prems, of k] by auto
  from Cons.IH [OF r(2), of "if r < 0 then - 1 else rc"] r(1) show ?case by (cases "0 \<le> r") auto
qed

lemma store_delbatch_ok:
  assumes "R c al"
  shows "\<exists>rc c' al'. store_delbatch bg (kv_at be c) ks = Some (rc, kv_at be c') \<and> R c' al' \<and> rc \<noteq> KV_RETRY \<and>
           (rc = 0 \<and> be_delbatch be \<noteq> None \<longrightarrow> al' = rows_delall ks al)"
proof (cases "be_delbatch be")
  case None
  then show ?thesis using delbatch_loop_ok [OF assms, of ks 0] by (auto simp: store_delbatch_def KV_RETRY_def)
next
  case (Some g)
  then show ?thesis
    using retry_write [OF delbatch_law [OF Some, of ks] _ assms]
    by (auto simp: store_delbatch_def KV_RETRY_def split: if_splits)
qed

lemma store_get_ok:
  assumes "R c al"
  shows "\<exists>rc v c'. store_get (kv_at be c) k = Some (rc, v, kv_at be c') \<and> R c' al \<and>
           (0 \<le> rc \<longrightarrow> v = map_of al k \<and> (0 < rc \<longleftrightarrow> v \<noteq> None))"
  using get_law [OF assms, of k] by (fastforce simp: store_get_def)

text \<open>A read that follows a successful write sees it, whatever stalls happened in between.\<close>

lemma get_after_put:
  assumes "R c al" "store_put bg (kv_at be c) k v = Some (0, s)"
  shows "\<exists>rc w s'. store_get s j = Some (rc, w, s') \<and> (0 \<le> rc \<longrightarrow> w = (if j = k then Some v else map_of al j))"
proof -
  obtain c1 where c1: "s = kv_at be c1" "R c1 (rows_put k v al)" using store_put_ok [OF assms(1), of k v] assms(2) by auto
  then show ?thesis using store_get_ok [OF c1(2), of j] by (auto simp: map_of_rows_put)
qed

end

text \<open>An engine whose writes and reads do not fail and whose deletes report whether the key was there.\<close>

locale exact_engine = engine +
  assumes put_exact: "R c al \<Longrightarrow> \<exists>c'. be_put be c k v = Some (0, c')"
    and del_exact: "R c al \<Longrightarrow> \<exists>c'. be_del be c k = Some (if map_of al k = None then 0 else 1, c')"
    and get_exact: "R c al \<Longrightarrow> be_get be c k = Some (case map_of al k of None \<Rightarrow> (0, None, c) | Some v \<Rightarrow> (1, Some v, c))"
    and no_batch: "be_putbatch be = None" "be_delbatch be = None"
begin

lemma store_put_exact:
  assumes "R c al"
  shows "\<exists>c'. store_put bg (kv_at be c) k v = Some (0, kv_at be c') \<and> R c' (rows_put k v al)"
proof -
  obtain c' where "be_put be c k v = Some (0, c')" using put_exact [OF assms] by blast
  then have "retry bg (\<lambda>c. be_put be c k v) c = Some (0, c')"
    by (intro retry_attempt [where n = 0]) (simp_all add: KV_RETRY_def)
  then show ?thesis using store_put_ok [OF assms, of k v] by (auto simp: store_put_def)
qed

lemma store_del_exact:
  assumes "R c al"
  shows "\<exists>c'. store_del bg (kv_at be c) k = Some (if map_of al k = None then 0 else 1, kv_at be c') \<and> R c' (rows_del k al)"
proof -
  obtain c' where "be_del be c k = Some (if map_of al k = None then 0 else 1, c')" using del_exact [OF assms] by blast
  then have "retry bg (\<lambda>c. be_del be c k) c = Some (if map_of al k = None then 0 else 1, c')"
    by (intro retry_attempt [where n = 0]) (simp_all add: KV_RETRY_def)
  moreover have "rows_del k al = al" if "map_of al k = None"
    using that by (intro rows_del_id) (simp add: map_of_eq_None_iff)
  ultimately show ?thesis using store_del_ok [OF assms, of k] by (auto simp: store_del_def split: if_splits)
qed

lemma putbatch_exact:
  assumes "R c al"
  shows "\<exists>c'. store_putbatch bg (kv_at be c) kvs = Some (0, kv_at be c') \<and> R c' (rows_putall kvs al)"
proof -
  have "\<exists>c'. putbatch_loop bg (kv_at be c) kvs rc = Some (rc, kv_at be c') \<and> R c' (rows_putall kvs al)" for rc
    using assms
  proof (induction kvs arbitrary: c al)
    case (Cons kv kvs)
    obtain k v where kv: "kv = (k, v)" by fastforce
    obtain c1 where c1: "store_put bg (kv_at be c) k v = Some (0, kv_at be c1)" "R c1 (rows_put k v al)"
      using store_put_exact [OF Cons.prems] by blast
    show ?case using Cons.IH [OF c1(2)] c1(1) by (auto simp: kv)
  qed simp
  then show ?thesis by (simp add: store_putbatch_def no_batch)
qed

lemma delbatch_exact:
  assumes "R c al"
  shows "\<exists>c'. store_delbatch bg (kv_at be c) ks = Some (0, kv_at be c') \<and> R c' (rows_delall ks al)"
proof -
  have "\<exists>c'. delbatch_loop bg (kv_at be c) ks rc = Some (rc, kv_at be c') \<and> R c' (rows_delall ks al)" for rc
    using assms
  proof (induction ks arbitrary: c al)
    case (Cons k ks)
    obtain c1 where c1: "store_del bg (kv_at be c) k = Some (if map_of al k = None then 0 else 1, kv_at be c1)" "R c1 (rows_del k al)"
      using store_del_exact [OF Cons.prems] by blast
    show ?case using Cons.IH [OF c1(2)] c1(1) by auto
  qed simp
  then show ?thesis by (simp add: store_delbatch_def no_batch)
qed

end

subsection \<open>The skiplist is an exact engine\<close>

lemma sl_put_write: "write_law sl_abs (\<lambda>c. c) (\<lambda>rc. rc = 0) (\<lambda>c. sl_put c k v) (rows_put k v)"
  unfolding write_law_def
proof (intro conjI allI impI)
  fix c al rc c' assume "sl_abs c al" "sl_put c k v = Some (rc, c')"
  then show "sl_abs c' (if rc = 0 then rows_put k v al else al)" using sl_abs_put [of c al k v] by auto
next
  fix c al assume "sl_abs c al"
  then obtain c' where "attempt (\<lambda>c. c) (\<lambda>c. sl_put c k v) 0 c = Some (0, c')" using sl_abs_put [of c al k v] by auto
  then show "\<exists>n rc c'. attempt (\<lambda>c. c) (\<lambda>c. sl_put c k v) n c = Some (rc, c') \<and> rc \<noteq> KV_RETRY"
    by (intro exI [of _ "0::nat"] exI [of _ "0::int"] exI [of _ c']) (simp add: KV_RETRY_def)
qed

lemma sl_del_write: "write_law sl_abs (\<lambda>c. c) (\<lambda>rc. 0 < rc) (\<lambda>c. sl_del c k) (rows_del k)"
  unfolding write_law_def
proof (intro conjI allI impI)
  fix c al rc c' assume "sl_abs c al" "sl_del c k = Some (rc, c')"
  moreover have "rows_del k al = al" if "map_of al k = None"
    using that by (intro rows_del_id) (simp add: map_of_eq_None_iff)
  ultimately show "sl_abs c' (if 0 < rc then rows_del k al else al)" using sl_abs_del [of c al k] by (auto split: if_splits)
next
  fix c al assume "sl_abs c al"
  then obtain rc c' where "attempt (\<lambda>c. c) (\<lambda>c. sl_del c k) 0 c = Some (rc, c')" "rc \<noteq> KV_RETRY"
    using sl_abs_del [of c al k] by (auto simp: KV_RETRY_def split: if_splits)
  then show "\<exists>n rc c'. attempt (\<lambda>c. c) (\<lambda>c. sl_del c k) n c = Some (rc, c') \<and> rc \<noteq> KV_RETRY"
    by blast
qed

interpretation sl: exact_engine "skiplist_backend_open seed data_dir opts" sl_abs "\<lambda>c. c" for seed data_dir opts
proof unfold_locales
  fix c al k
  assume "sl_abs c al"
  then show "\<exists>rc v c'. be_get (skiplist_backend_open seed data_dir opts) c k = Some (rc, v, c') \<and> sl_abs c' al \<and>
      (0 < rc \<longrightarrow> v = map_of al k \<and> v \<noteq> None) \<and> (rc = 0 \<longrightarrow> map_of al k = None)"
    by (auto simp: skiplist_backend_open_def sl_abs_get split: option.split)
next
  fix c al k
  assume "sl_abs c al"
  then show "\<exists>c'. be_del (skiplist_backend_open seed data_dir opts) c k = Some (if map_of al k = None then 0 else 1, c')"
    using sl_abs_del [of c al k] by (auto simp: skiplist_backend_open_def)
qed (auto simp: skiplist_backend_open_def sl_put_write sl_del_write sl_abs_rows_ok sl_abs_get
      dest: sl_abs_put split: option.split)

lemma map_of_rows_putall: "map_of (rows_putall kvs al) = map_of al ++ map_of (rev kvs)"
  by (induction kvs arbitrary: al) (auto simp: map_of_rows_put)

lemma map_of_rows_delall: "rows_ok al \<Longrightarrow> map_of (rows_delall ks al) = map_of al |` (- set ks)"
proof (induction ks arbitrary: al)
  case (Cons k ks)
  then show ?case by (auto simp: rows_ok_del map_of_rows_del restrict_map_def fun_eq_iff)
qed (simp add: restrict_map_def)

subsection \<open>Properties\<close>

text \<open>
  C7. For every engine, a write through the store returns exactly when some attempt is not
  answered with \<open>KV_RETRY\<close>, returns that first answer with the state it left, and never
  returns \<open>KV_RETRY\<close> to its caller: a stall blocks the writer and does not drop the write.
\<close>

theorem store_put_waits_out_stalls:
  "store_put bg s k v = Some (rc, s') \<longleftrightarrow>
     rc \<noteq> KV_RETRY \<and> (\<exists>n c. attempt bg (\<lambda>c. be_put (st_be s) c k v) n (st_ctx s) = Some (rc, c) \<and> s' = set_ctx s c)"
  (is "?L = ?R")
proof
  assume ?L
  then obtain c where "retry bg (\<lambda>c. be_put (st_be s) c k v) (st_ctx s) = Some (rc, c)" "s' = set_ctx s c"
    by (auto simp: store_put_def bind_eq_Some_conv)
  then show ?R using retry_result [of bg "\<lambda>c. be_put (st_be s) c k v" "st_ctx s" "(rc, c)"] by auto
next
  assume ?R
  then show ?L by (auto simp: store_put_def dest: retry_attempt)
qed

text \<open>
  C8. A batch put on the skiplist, which has no batch entry, succeeds and leaves the store as if the pairs
  were put one by one: a key of the batch reads back its last value, any other key is unchanged. A
  batch delete then removes exactly its keys.
\<close>

theorem store_batches_on_skiplist:
  assumes "sl_reach c al" and be_def: "be = skiplist_backend_open seed data_dir opts"
  shows "\<exists>s. store_putbatch (\<lambda>c. c) (kv_at be c) kvs = Some (0, s) \<and>
      (\<forall>k. \<exists>rc s'. store_get s k = Some (rc, (map_of al ++ map_of (rev kvs)) k, s')) \<and>
      (\<exists>s'. store_delbatch (\<lambda>c. c) s ks = Some (0, s') \<and>
         (\<forall>k. \<exists>rc s''. store_get s' k = Some (rc, if k \<in> set ks then None else (map_of al ++ map_of (rev kvs)) k, s'')))"
proof -
  have a: "sl_abs c al" using assms(1) by (rule sl_reach_abs)
  obtain c1 where c1: "store_putbatch (\<lambda>c. c) (kv_at be c) kvs = Some (0, kv_at be c1)" "sl_abs c1 (rows_putall kvs al)"
    using sl.putbatch_exact [OF a, of seed data_dir opts kvs] by (auto simp: be_def)
  obtain c2 where c2: "store_delbatch (\<lambda>c. c) (kv_at be c1) ks = Some (0, kv_at be c2)"
      "sl_abs c2 (rows_delall ks (rows_putall kvs al))"
    using sl.delbatch_exact [OF c1(2), of seed data_dir opts ks] by (auto simp: be_def)
  have g: "\<exists>rc s'. store_get (kv_at be c) k = Some (rc, map_of al k, s')" if "sl_abs c al" for c al k
  proof -
    have "be_get be c k = Some (case map_of al k of None \<Rightarrow> (0, None, c) | Some v \<Rightarrow> (1, Some v, c))"
      unfolding be_def by (rule sl.get_exact [OF that])
    then show ?thesis by (auto simp: store_get_def split: option.splits)
  qed
  have "map_of (rows_delall ks (rows_putall kvs al)) k = (if k \<in> set ks then None else (map_of al ++ map_of (rev kvs)) k)" for k
    using map_of_rows_delall [OF sl_abs_rows_ok [OF c1(2)], of ks] by (auto simp: map_of_rows_putall restrict_map_def)
  then show ?thesis using c1(1) c2(1) g [OF c1(2)] g [OF c2(2)] by (auto simp: map_of_rows_putall)
qed

theorem store_batches_on_skiplist_witness:
  "\<exists>s. store_putbatch (\<lambda>c. c) (kv_at (skiplist_backend_open 1 None () :: (skiplist, unit) kv_backend) (sl_new 1)) [(''a'', ''1''), (''a'', ''2'')] = Some (0, s) \<and>
     (\<exists>rc s'. store_get s ''a'' = Some (rc, Some ''2'', s'))"
proof -
  obtain s where s: "store_putbatch (\<lambda>c. c) (kv_at (skiplist_backend_open 1 None () :: (skiplist, unit) kv_backend) (sl_new 1)) [(''a'', ''1''), (''a'', ''2'')] = Some (0, s)"
      "\<forall>k. \<exists>rc s'. store_get s k = Some (rc, (map_of [] ++ map_of (rev [(''a'', ''1''), (''a'', ''2'')])) k, s')"
    using store_batches_on_skiplist [OF reach_open [of 1] refl, of 1 None "()" "[(''a'', ''1''), (''a'', ''2'')]" "[]"] by blast
  from s(1) s(2) [rule_format, of "''a''"] show ?thesis by simp
qed

text \<open>
  C3. Through the store, a get after a put on the skiplist returns the value put, and a get after
  a delete finds nothing and reports 0; the delete reports whether the key was there.
\<close>

theorem store_reads_its_writes:
  assumes "sl_reach c al" and be_def: "be = skiplist_backend_open seed data_dir opts"
  shows "\<exists>s t. store_put (\<lambda>c. c) (kv_at be c) k v = Some (0, s) \<and> store_get s k = Some (1, Some v, s) \<and>
    store_del (\<lambda>c. c) s k = Some (1, t) \<and> store_get t k = Some (0, None, t) \<and>
    (\<exists>u. store_del (\<lambda>c. c) t k = Some (0, u))"
proof -
  have a: "sl_abs c al" using assms(1) by (rule sl_reach_abs)
  obtain c1 where c1: "store_put (\<lambda>c. c) (kv_at be c) k v = Some (0, kv_at be c1)" "sl_abs c1 (rows_put k v al)"
    using sl.store_put_exact [OF a, of seed data_dir opts k v] by (auto simp: be_def)
  obtain c2 where c2: "store_del (\<lambda>c. c) (kv_at be c1) k = Some (1, kv_at be c2)" "sl_abs c2 (rows_del k (rows_put k v al))"
    using sl.store_del_exact [OF c1(2), of seed data_dir opts k] by (auto simp: be_def map_of_rows_put)
  have m: "map_of (rows_del k (rows_put k v al)) k = None"
    using map_of_rows_del [OF sl_abs_rows_ok [OF c1(2)]] by simp
  obtain c3 where c3: "store_del (\<lambda>c. c) (kv_at be c2) k = Some (0, kv_at be c3)"
    using sl.store_del_exact [OF c2(2), of seed data_dir opts k] m by (auto simp: be_def)
  have g: "be_get be c1 k = Some (1, Some v, c1)" "be_get be c2 k = Some (0, None, c2)"
    using sl.get_exact [OF c1(2), of seed data_dir opts k] sl.get_exact [OF c2(2), of seed data_dir opts k] m
    by (simp_all add: be_def map_of_rows_put)
  show ?thesis using c1(1) c2(1) c3 g by (intro exI [of _ "kv_at be c1"] exI [of _ "kv_at be c2"]) (auto simp: store_get_def)
qed

theorem store_reads_its_writes_witness:
  "\<exists>s. store_put (\<lambda>c. c) (kv_at (skiplist_backend_open 5 None ()) (sl_new 5)) ''k'' ''v'' = Some (0, s) \<and>
     store_get s ''k'' = Some (1, Some ''v'', s)"
  using store_reads_its_writes [OF reach_open [of 5] refl, of 5 None "()" "''k''" "''v''"] by blast

end
