(* ===== verification/KB_Kvlua.thy ===== *)
theory KB_Kvlua
  imports KB_Hist KB_Store
begin

text \<open>
  The \<open>kv\<close> table a workload script sees (\<open>src/src/kvlua.c\<close>, \<open>src/src/kvlua.h\<close>): eight verbs
  that check their arguments, time one call of the store, record the latency and keep the
  counters of the worker.

  The Lua interpreter is a library, so what the verbs ask of it is the record \<open>lua_api\<close>, a
  parameter of every verb: conversion of an argument to a string or an integer, the
  length and the fields of a table, and the protected call of a scan callback, which may
  change the interpreter state \<open>'l\<close>. The model of a callback does not call \<open>kv\<close> verbs itself. An
  argument error is a Lua error (\<open>Inl\<close>) raised before the store is touched; an error of a scan
  callback is raised after the call has been recorded. The two readings of the clock around the store call are arguments. The option
  of the result is that of the store call.
\<close>

subsection \<open>Operation kinds and counters\<close>

datatype op = OP_PUT | OP_GET | OP_DEL | OP_RANGE | OP_MGET | OP_MPUT | OP_MDEL

fun op_index :: "op \<Rightarrow> nat" where
  "op_index OP_PUT = 0" | "op_index OP_GET = 1" | "op_index OP_DEL = 2" | "op_index OP_RANGE = 3"
| "op_index OP_MGET = 4" | "op_index OP_MPUT = 5" | "op_index OP_MDEL = 6"

abbreviation OP__COUNT :: nat where "OP__COUNT \<equiv> 7"

lemma op_index_inject [simp]: "op_index a = op_index b \<longleftrightarrow> a = b"
  by (cases a; cases b) auto

text \<open>The order of the enumeration.\<close>

instantiation op :: linorder
begin

definition less_eq_op :: "op \<Rightarrow> op \<Rightarrow> bool" where "less_eq_op a b \<longleftrightarrow> op_index a \<le> op_index b"
definition less_op :: "op \<Rightarrow> op \<Rightarrow> bool" where "less_op a b \<longleftrightarrow> op_index a < op_index b"

instance
proof
  fix a b :: op
  show "a < b \<longleftrightarrow> a \<le> b \<and> \<not> b \<le> a" by (auto simp: less_op_def less_eq_op_def)
  show "a \<le> b \<Longrightarrow> b \<le> a \<Longrightarrow> a = b" by (simp add: less_eq_op_def flip: op_index_inject)
qed (auto simp: less_eq_op_def)

end

definition op_all :: "op list" where
  "op_all = [OP_PUT, OP_GET, OP_DEL, OP_RANGE, OP_MGET, OP_MPUT, OP_MDEL]"

definition op_name :: "int \<Rightarrow> string" where
  "op_name i =
     (if i = int (op_index OP_PUT) then ''put'' else if i = int (op_index OP_GET) then ''get''
      else if i = int (op_index OP_DEL) then ''del'' else if i = int (op_index OP_RANGE) then ''range''
      else if i = int (op_index OP_MGET) then ''mget'' else if i = int (op_index OP_MPUT) then ''mput''
      else if i = int (op_index OP_MDEL) then ''mdel'' else ''?'')"

record op_stats =
  st_h :: "op \<Rightarrow> hist"
  prim_ops :: u64
  get_hits :: u64
  get_misses :: u64
  get_errors :: u64

definition stats_reset :: op_stats where
  "stats_reset = \<lparr>st_h = (\<lambda>_. hist_reset), prim_ops = 0, get_hits = 0, get_misses = 0, get_errors = 0\<rparr>"

definition stats_merge :: "op_stats \<Rightarrow> op_stats \<Rightarrow> op_stats" where
  "stats_merge dst src =
     \<lparr>st_h = (\<lambda>i. hist_merge (st_h dst i) (st_h src i)),
      prim_ops = prim_ops dst + prim_ops src,
      get_hits = get_hits dst + get_hits src,
      get_misses = get_misses dst + get_misses src,
      get_errors = get_errors dst + get_errors src\<rparr>"

subsection \<open>The interpreter as a parameter\<close>

datatype lua_error = ArgError nat | CallbackError

text \<open>What a verb leaves on the Lua stack.\<close>

datatype lua_result = LNil | LString bytes | LBoolean bool | LInteger int | LPairs rows | LList "lua_result list"

record ('v, 'l) lua_api =
  lua_tostr :: "'v \<Rightarrow> bytes option"
  lua_toint :: "'v \<Rightarrow> int option"
  lua_isnil :: "'v \<Rightarrow> bool"
  lua_istable :: "'v \<Rightarrow> bool"
  lua_isfunction :: "'v \<Rightarrow> bool"
  lua_len :: "'v \<Rightarrow> int option"
  lua_geti :: "'v \<Rightarrow> nat \<Rightarrow> 'v"
  lua_getfield :: "'v \<Rightarrow> string \<Rightarrow> 'v"
  lua_pcall :: "'l \<Rightarrow> 'v \<Rightarrow> bytes \<Rightarrow> bytes \<Rightarrow> bool option \<times> 'l"

definition lua_arg :: "'v list \<Rightarrow> nat \<Rightarrow> 'v option" where
  "lua_arg L i = (if 1 \<le> i \<and> i \<le> length L then Some (L ! (i - 1)) else None)"

definition checklstring :: "('v, 'l) lua_api \<Rightarrow> 'v list \<Rightarrow> nat \<Rightarrow> lua_error + bytes" where
  "checklstring api L i =
     (case Option.bind (lua_arg L i) (lua_tostr api) of Some s \<Rightarrow> Inr s | None \<Rightarrow> Inl (ArgError i))"

definition optinteger :: "('v, 'l) lua_api \<Rightarrow> 'v list \<Rightarrow> nat \<Rightarrow> int \<Rightarrow> lua_error + int" where
  "optinteger api L i d =
     (case lua_arg L i of
        None \<Rightarrow> Inr d
      | Some x \<Rightarrow> if lua_isnil api x then Inr d
                 else (case lua_toint api x of Some n \<Rightarrow> Inr n | None \<Rightarrow> Inl (ArgError i)))"

definition checktype :: "('v \<Rightarrow> bool) \<Rightarrow> 'v list \<Rightarrow> nat \<Rightarrow> lua_error + 'v" where
  "checktype is_t L i =
     (case lua_arg L i of Some x \<Rightarrow> if is_t x then Inr x else Inl (ArgError i) | None \<Rightarrow> Inl (ArgError i))"

text \<open>The cast of a \<open>lua_Integer\<close> to \<open>int\<close>.\<close>

definition c_int :: "int \<Rightarrow> int" where
  "c_int n = (n + 2 ^ 31) mod 2 ^ 32 - 2 ^ 31"

text \<open>\<open>int n = (int)luaL_len(L, 1); if (n < 0) n = 0;\<close>\<close>

definition table_len :: "('v, 'l) lua_api \<Rightarrow> 'v \<Rightarrow> lua_error + nat" where
  "table_len api x =
     (case lua_len api x of Some n \<Rightarrow> Inr (nat (if c_int n < 0 then 0 else c_int n)) | None \<Rightarrow> Inl (ArgError 1))"

text \<open>A failed check leaves the verb with the error, before anything has changed.\<close>

definition ebind :: "'s \<Rightarrow> 'e + 'x \<Rightarrow> ('x \<Rightarrow> (('e + 'y) \<times> 's) option) \<Rightarrow> (('e + 'y) \<times> 's) option" where
  "ebind s r f = (case r of Inl e \<Rightarrow> Some (Inl e, s) | Inr x \<Rightarrow> f x)"

fun emap :: "('a \<Rightarrow> 'e + 'b) \<Rightarrow> 'a list \<Rightarrow> 'e + 'b list" where
  "emap f [] = Inr []"
| "emap f (x # xs) =
     (case f x of Inl e \<Rightarrow> Inl e | Inr y \<Rightarrow> (case emap f xs of Inl e \<Rightarrow> Inl e | Inr ys \<Rightarrow> Inr (y # ys)))"

subsection \<open>The worker's context\<close>

record collector =
  col_a :: rows
  col_cap :: nat

record 'l scanstate =
  ss_L :: 'l
  ss_err :: bool

text \<open>The \<open>void *arg\<close> of a range: the collector of \<open>kv.range\<close> or the state of \<open>kv.scan\<close>.\<close>

datatype 'l range_arg = Collect collector | Scan "'l scanstate"

record ('c, 'l) kvlua_ctx =
  kc_stats :: op_stats
  kc_store :: "('c, 'l range_arg) kv_store"

text \<open>\<open>hist_record(&kc->stats.h[op], now_ns() - t0); KV_RELAXED_ADD(kc->stats.prim_ops, n);\<close>\<close>

definition note_call :: "op \<Rightarrow> u64 \<Rightarrow> u64 \<Rightarrow> nat \<Rightarrow> op_stats \<Rightarrow> op_stats" where
  "note_call op t0 t1 n st =
     st\<lparr>st_h := (st_h st)(op := hist_record (st_h st op) (t1 - t0)), prim_ops := prim_ops st + of_nat n\<rparr>"

text \<open>The branches after a get: a hit, an error or a miss.\<close>

definition note_get :: "int \<Rightarrow> op_stats \<Rightarrow> op_stats" where
  "note_get found st =
     (if found > 0 then st\<lparr>get_hits := get_hits st + 1\<rparr>
      else if found < 0 then st\<lparr>get_errors := get_errors st + 1\<rparr>
      else st\<lparr>get_misses := get_misses st + 1\<rparr>)"

definition get_result :: "int \<Rightarrow> bytes option \<Rightarrow> lua_result" where
  "get_result found v = (if found > 0 then LString (the v) else LNil)"

type_synonym ('c, 'l) verb_result = "((lua_error + lua_result list) \<times> ('c, 'l) kvlua_ctx \<times> 'l) option"

subsection \<open>The verbs\<close>

definition l_put :: "('v, 'l) lua_api \<Rightarrow> ('c \<Rightarrow> 'c) \<Rightarrow> 'l \<Rightarrow> u64 \<Rightarrow> u64 \<Rightarrow> ('c, 'l) kvlua_ctx \<Rightarrow> 'v list \<Rightarrow> ('c, 'l) verb_result" where
  "l_put api bg l t0 t1 kc L =
     ebind (kc, l) (checklstring api L 1) (\<lambda>k. ebind (kc, l) (checklstring api L 2) (\<lambda>v.
       do { (rc, s) \<leftarrow> store_put bg (kc_store kc) k v;
            Some (Inr [], kc\<lparr>kc_store := s, kc_stats := note_call OP_PUT t0 t1 1 (kc_stats kc)\<rparr>, l) }))"

definition l_get :: "('v, 'l) lua_api \<Rightarrow> ('c \<Rightarrow> 'c) \<Rightarrow> 'l \<Rightarrow> u64 \<Rightarrow> u64 \<Rightarrow> ('c, 'l) kvlua_ctx \<Rightarrow> 'v list \<Rightarrow> ('c, 'l) verb_result" where
  "l_get api bg l t0 t1 kc L =
     ebind (kc, l) (checklstring api L 1) (\<lambda>k.
       do { (found, v, s) \<leftarrow> store_get (kc_store kc) k;
            Some (Inr [get_result found v],
              kc\<lparr>kc_store := s, kc_stats := note_get found (note_call OP_GET t0 t1 1 (kc_stats kc))\<rparr>, l) })"

definition l_del :: "('v, 'l) lua_api \<Rightarrow> ('c \<Rightarrow> 'c) \<Rightarrow> 'l \<Rightarrow> u64 \<Rightarrow> u64 \<Rightarrow> ('c, 'l) kvlua_ctx \<Rightarrow> 'v list \<Rightarrow> ('c, 'l) verb_result" where
  "l_del api bg l t0 t1 kc L =
     ebind (kc, l) (checklstring api L 1) (\<lambda>k.
       do { (existed, s) \<leftarrow> store_del bg (kc_store kc) k;
            Some (Inr [LBoolean (existed \<noteq> 0)],
              kc\<lparr>kc_store := s, kc_stats := note_call OP_DEL t0 t1 1 (kc_stats kc)\<rparr>, l) })"

definition collect_cb :: "'l range_arg kv_range_cb" where
  "collect_cb arg k v =
     (case arg of
        Collect c \<Rightarrow>
          (let cap = (if length (col_a c) = col_cap c then (if col_cap c \<noteq> 0 then col_cap c * 2 else 16) else col_cap c)
           in (0, Collect \<lparr>col_a = col_a c @ [(k, v)], col_cap = cap\<rparr>))
      | Scan st \<Rightarrow> (0, Scan st))"

definition l_range :: "('v, 'l) lua_api \<Rightarrow> ('c \<Rightarrow> 'c) \<Rightarrow> 'l \<Rightarrow> u64 \<Rightarrow> u64 \<Rightarrow> ('c, 'l) kvlua_ctx \<Rightarrow> 'v list \<Rightarrow> ('c, 'l) verb_result" where
  "l_range api bg l t0 t1 kc L =
     ebind (kc, l) (checklstring api L 1) (\<lambda>lo. ebind (kc, l) (checklstring api L 2) (\<lambda>hi. ebind (kc, l) (optinteger api L 3 0) (\<lambda>limit.
       do { (n, arg, s) \<leftarrow> store_range (kc_store kc) lo hi (c_int limit) (Some collect_cb) (Collect \<lparr>col_a = [], col_cap = 0\<rparr>);
            Some (Inr [LPairs (case arg of Collect c \<Rightarrow> col_a c | Scan _ \<Rightarrow> [])],
              kc\<lparr>kc_store := s, kc_stats := note_call OP_RANGE t0 t1 1 (kc_stats kc)\<rparr>, l) })))"

definition scan_cb :: "('v, 'l) lua_api \<Rightarrow> 'v \<Rightarrow> 'l range_arg kv_range_cb" where
  "scan_cb api fn arg k v =
     (case arg of
        Scan st \<Rightarrow>
          (case lua_pcall api (ss_L st) fn k v of
             (None, l) \<Rightarrow> (1, Scan (st\<lparr>ss_L := l, ss_err := True\<rparr>))
           | (Some stop, l) \<Rightarrow> (if stop then 1 else 0, Scan (st\<lparr>ss_L := l\<rparr>)))
      | Collect c \<Rightarrow> (0, Collect c))"

definition l_scan ::
  "('v, 'l) lua_api \<Rightarrow> ('c \<Rightarrow> 'c) \<Rightarrow> 'l \<Rightarrow> u64 \<Rightarrow> u64 \<Rightarrow> ('c, 'l) kvlua_ctx \<Rightarrow> 'v list \<Rightarrow> ('c, 'l) verb_result" where
  "l_scan api bg l t0 t1 kc L =
     ebind (kc, l) (checklstring api L 1) (\<lambda>lo. ebind (kc, l) (checklstring api L 2) (\<lambda>hi.
     ebind (kc, l) (checktype (lua_isfunction api) L 3) (\<lambda>fn. ebind (kc, l) (optinteger api L 4 0) (\<lambda>limit.
       do { (n, arg, s) \<leftarrow> store_range (kc_store kc) lo hi (c_int limit) (Some (scan_cb api fn)) (Scan \<lparr>ss_L = l, ss_err = False\<rparr>);
            Some (case arg of Scan st \<Rightarrow> if ss_err st then Inl CallbackError else Inr [LInteger n] | Collect _ \<Rightarrow> Inr [LInteger n],
              kc\<lparr>kc_store := s, kc_stats := note_call OP_RANGE t0 t1 1 (kc_stats kc)\<rparr>,
              case arg of Scan st \<Rightarrow> ss_L st | Collect _ \<Rightarrow> l) }))))"

text \<open>\<open>for (i = 0; i < n; i++) found[i] = store_get(...)\<close>\<close>

fun get_all :: "('c, 'a) kv_store \<Rightarrow> bytes list \<Rightarrow> ((int \<times> bytes option) list \<times> ('c, 'a) kv_store) option" where
  "get_all s [] = Some ([], s)"
| "get_all s (k # ks) =
     do { (found, v, s) \<leftarrow> store_get s k; (rs, s) \<leftarrow> get_all s ks; Some ((found, v) # rs, s) }"

definition string_keys :: "('v, 'l) lua_api \<Rightarrow> 'v \<Rightarrow> nat \<Rightarrow> lua_error + bytes list" where
  "string_keys api x n = emap (\<lambda>i. checklstring api [lua_geti api x (i + 1)] 1) [0..<n]"

definition l_mget :: "('v, 'l) lua_api \<Rightarrow> ('c \<Rightarrow> 'c) \<Rightarrow> 'l \<Rightarrow> u64 \<Rightarrow> u64 \<Rightarrow> ('c, 'l) kvlua_ctx \<Rightarrow> 'v list \<Rightarrow> ('c, 'l) verb_result" where
  "l_mget api bg l t0 t1 kc L =
     ebind (kc, l) (checktype (lua_istable api) L 1) (\<lambda>x. ebind (kc, l) (table_len api x) (\<lambda>n. ebind (kc, l) (string_keys api x n) (\<lambda>ks.
       do { (rs, s) \<leftarrow> get_all (kc_store kc) ks;
            Some (Inr [LList (map (\<lambda>(found, v). get_result found v) rs)],
              kc\<lparr>kc_store := s,
                 kc_stats := fold (\<lambda>(found, v). note_get found) rs (note_call OP_MGET t0 t1 n (kc_stats kc))\<rparr>, l) })))"

definition pair_at :: "('v, 'l) lua_api \<Rightarrow> 'v \<Rightarrow> lua_error + bytes \<times> bytes" where
  "pair_at api e =
     (case checktype (lua_istable api) [e] 1 of
        Inl err \<Rightarrow> Inl err
      | Inr y \<Rightarrow> (case checklstring api [lua_getfield api y ''key''] 1 of
          Inl err \<Rightarrow> Inl err
        | Inr k \<Rightarrow> (case checklstring api [lua_getfield api y ''val''] 1 of
            Inl err \<Rightarrow> Inl err
          | Inr v \<Rightarrow> Inr (k, v))))"

definition string_pairs :: "('v, 'l) lua_api \<Rightarrow> 'v \<Rightarrow> nat \<Rightarrow> lua_error + (bytes \<times> bytes) list" where
  "string_pairs api x n = emap (\<lambda>i. pair_at api (lua_geti api x (i + 1))) [0..<n]"

definition l_mput :: "('v, 'l) lua_api \<Rightarrow> ('c \<Rightarrow> 'c) \<Rightarrow> 'l \<Rightarrow> u64 \<Rightarrow> u64 \<Rightarrow> ('c, 'l) kvlua_ctx \<Rightarrow> 'v list \<Rightarrow> ('c, 'l) verb_result" where
  "l_mput api bg l t0 t1 kc L =
     ebind (kc, l) (checktype (lua_istable api) L 1) (\<lambda>x. ebind (kc, l) (table_len api x) (\<lambda>n. ebind (kc, l) (string_pairs api x n) (\<lambda>kvs.
       do { (rc, s) \<leftarrow> store_putbatch bg (kc_store kc) kvs;
            Some (Inr [], kc\<lparr>kc_store := s, kc_stats := note_call OP_MPUT t0 t1 n (kc_stats kc)\<rparr>, l) })))"

definition l_mdel :: "('v, 'l) lua_api \<Rightarrow> ('c \<Rightarrow> 'c) \<Rightarrow> 'l \<Rightarrow> u64 \<Rightarrow> u64 \<Rightarrow> ('c, 'l) kvlua_ctx \<Rightarrow> 'v list \<Rightarrow> ('c, 'l) verb_result" where
  "l_mdel api bg l t0 t1 kc L =
     ebind (kc, l) (checktype (lua_istable api) L 1) (\<lambda>x. ebind (kc, l) (table_len api x) (\<lambda>n. ebind (kc, l) (string_keys api x n) (\<lambda>ks.
       do { (rc, s) \<leftarrow> store_delbatch bg (kc_store kc) ks;
            Some (Inr [LInteger (int n)],
              kc\<lparr>kc_store := s, kc_stats := note_call OP_MDEL t0 t1 n (kc_stats kc)\<rparr>, l) })))"

text \<open>The table \<open>kv_funcs\<close>, by name.\<close>

definition kv_func ::
  "string \<Rightarrow> ('v, 'l) lua_api \<Rightarrow> ('c \<Rightarrow> 'c) \<Rightarrow> 'l \<Rightarrow> u64 \<Rightarrow> u64 \<Rightarrow> ('c, 'l) kvlua_ctx \<Rightarrow> 'v list \<Rightarrow> ('c, 'l) verb_result option" where
  "kv_func name api bg l t0 t1 kc L =
     map_of [(''put'', l_put api bg l t0 t1 kc L), (''get'', l_get api bg l t0 t1 kc L), (''del'', l_del api bg l t0 t1 kc L),
             (''range'', l_range api bg l t0 t1 kc L), (''scan'', l_scan api bg l t0 t1 kc L),
             (''mget'', l_mget api bg l t0 t1 kc L), (''mput'', l_mput api bg l t0 t1 kc L),
             (''mdel'', l_mdel api bg l t0 t1 kc L)] name"

subsection \<open>Counters as a summary of events\<close>

text \<open>What a verb reports to the counters: a timed call of so many primitive operations, and the outcome of a get.\<close>

datatype stat_event = Called op u64 nat | Got int

fun note_event :: "stat_event \<Rightarrow> op_stats \<Rightarrow> op_stats" where
  "note_event (Called op d n) st = note_call op 0 d n st"
| "note_event (Got found) st = note_get found st"

definition samples_of :: "op \<Rightarrow> stat_event list \<Rightarrow> u64 list" where
  "samples_of op evs = concat (map (\<lambda>e. case e of Called op' d n \<Rightarrow> if op' = op then [d] else [] | Got _ \<Rightarrow> []) evs)"

definition prims_of :: "stat_event list \<Rightarrow> nat" where
  "prims_of evs = sum_list (map (\<lambda>e. case e of Called _ _ n \<Rightarrow> n | Got _ \<Rightarrow> 0) evs)"

definition gets_of :: "(int \<Rightarrow> bool) \<Rightarrow> stat_event list \<Rightarrow> nat" where
  "gets_of P evs = length (filter (\<lambda>e. case e of Called _ _ _ \<Rightarrow> False | Got f \<Rightarrow> P f) evs)"

definition stats_spec :: "stat_event list \<Rightarrow> op_stats" where
  "stats_spec evs =
     \<lparr>st_h = (\<lambda>op. hist_spec (samples_of op evs)), prim_ops = of_nat (prims_of evs),
      get_hits = of_nat (gets_of (\<lambda>f. f > 0) evs), get_misses = of_nat (gets_of (\<lambda>f. f = 0) evs),
      get_errors = of_nat (gets_of (\<lambda>f. f < 0) evs)\<rparr>"

lemma event_summaries_append [simp]:
  "samples_of op (es @ fs) = samples_of op es @ samples_of op fs"
  "prims_of (es @ fs) = prims_of es + prims_of fs" "gets_of P (es @ fs) = gets_of P es + gets_of P fs"
  by (simp_all add: samples_of_def prims_of_def gets_of_def)

lemma stats_reset_spec: "stats_reset = stats_spec []"
  by (simp add: stats_reset_def stats_spec_def samples_of_def prims_of_def gets_of_def hist_reset_spec)

lemma note_event_spec: "note_event e (stats_spec es) = stats_spec (es @ [e])"
proof (cases e)
  case (Called op d n)
  then show ?thesis
    by (auto simp: stats_spec_def note_call_def hist_record_spec samples_of_def prims_of_def gets_of_def fun_eq_iff)
next
  case (Got f)
  then show ?thesis
    by (auto simp: stats_spec_def note_get_def samples_of_def prims_of_def gets_of_def)
qed

lemma fold_note_event: "fold note_event fs (stats_spec es) = stats_spec (es @ fs)"
  by (induction fs arbitrary: es) (simp_all add: note_event_spec)

lemma stats_merge_spec: "stats_merge (stats_spec es) (stats_spec fs) = stats_spec (es @ fs)"
  by (simp add: stats_merge_def stats_spec_def hist_merge_spec)

subsection \<open>What each verb reports\<close>

lemma note_call_event: "note_call op t0 t1 n = note_event (Called op (t1 - t0) n)"
  by (simp add: fun_eq_iff note_call_def)

lemma fold_note_get: "fold (\<lambda>(found, v). note_get found) rs = fold note_event (map (\<lambda>r. Got (fst r)) rs)"
  by (induction rs) (auto simp: fun_eq_iff)

lemma get_all_length: "get_all s ks = Some (rs, s') \<Longrightarrow> length rs = length ks"
  by (induction ks arbitrary: s rs s') (auto simp: bind_eq_Some_conv)

lemma emap_length: "emap f xs = Inr ys \<Longrightarrow> length ys = length xs"
  by (induction xs arbitrary: ys) (auto split: sum.splits)

lemma string_keys_length: "string_keys api x n = Inr ks \<Longrightarrow> length ks = n"
  unfolding string_keys_def by (drule emap_length) simp

lemma ebind_eq_Some: "ebind s r f = Some y \<longleftrightarrow> (\<exists>e. r = Inl e \<and> y = (Inl e, s)) \<or> (\<exists>x. r = Inr x \<and> f x = Some y)"
  by (auto simp: ebind_def split: sum.split)

declare note_event.simps(1) [simp del]

lemmas verb_defs = l_put_def l_get_def l_del_def l_range_def l_scan_def l_mget_def l_mput_def l_mdel_def

text \<open>
  The number of values a verb looked up, read off its result, and the number of primitive operations its
  report carries.
\<close>

fun looked_up :: "string \<Rightarrow> lua_error + lua_result list \<Rightarrow> nat" where
  "looked_up name (Inr [LList xs]) = length xs"
| "looked_up name (Inr [r]) = (if name = ''get'' then 1 else 0)"
| "looked_up name r = 0"

definition verb_op :: "string \<Rightarrow> op option" where
  "verb_op = map_of [(''put'', OP_PUT), (''get'', OP_GET), (''del'', OP_DEL), (''range'', OP_RANGE), (''scan'', OP_RANGE),
     (''mget'', OP_MGET), (''mput'', OP_MPUT), (''mdel'', OP_MDEL)]"

text \<open>Either an argument was rejected and nothing changed, or one timed call and the outcomes of its gets were noted.\<close>

definition reported ::
  "string \<Rightarrow> u64 \<Rightarrow> u64 \<Rightarrow> ('c, 'l) kvlua_ctx \<Rightarrow> lua_error + lua_result list \<Rightarrow> ('c, 'l) kvlua_ctx \<Rightarrow> bool" where
  "reported name t0 t1 kc r kc' \<longleftrightarrow>
     (\<exists>i. r = Inl (ArgError i)) \<and> kc' = kc \<or>
     (\<exists>op n gs. verb_op name = Some op \<and> length gs = looked_up name r \<and> (op < OP_MGET \<longrightarrow> n = 1) \<and>
        (op = OP_MGET \<longrightarrow> n = looked_up name r) \<and> (op = OP_MDEL \<longrightarrow> r = Inr [LInteger (int n)]) \<and>
        kc_stats kc' = fold note_event (Called op (t1 - t0) n # map Got gs) (kc_stats kc))"

lemma reported_call:
  "verb_op name = Some op \<Longrightarrow> looked_up name r = 0 \<Longrightarrow> op < OP_MGET \<longrightarrow> n = 1 \<Longrightarrow>
   op \<noteq> OP_MGET \<Longrightarrow> op = OP_MDEL \<longrightarrow> r = Inr [LInteger (int n)] \<Longrightarrow>
   kc_stats kc' = note_call op t0 t1 n (kc_stats kc) \<Longrightarrow> reported name t0 t1 kc r kc'"
  unfolding reported_def by (intro disjI2 exI [of _ op] exI [of _ n] exI [of _ "[]"]) (simp add: note_call_event)

lemma check_errors:
  "checklstring api L i = Inl e \<Longrightarrow> \<exists>j. e = ArgError j" "optinteger api L i d = Inl e \<Longrightarrow> \<exists>j. e = ArgError j"
  "checktype is_t L i = Inl e \<Longrightarrow> \<exists>j. e = ArgError j" "table_len api x = Inl e \<Longrightarrow> \<exists>j. e = ArgError j"
  by (auto simp: checklstring_def optinteger_def checktype_def table_len_def split: option.splits if_splits)

lemma emap_error: "emap f xs = Inl e \<Longrightarrow> \<exists>x \<in> set xs. f x = Inl e"
  by (induction xs) (auto split: sum.splits)

lemma pair_at_error:
  assumes "pair_at api x = Inl e"
  shows "\<exists>j. e = ArgError j"
proof (cases "checktype (lua_istable api) [x] 1")
  case (Inr y)
  show ?thesis
    using assms Inr check_errors(1)
    by (cases "checklstring api [lua_getfield api y ''key''] 1"; cases "checklstring api [lua_getfield api y ''val''] 1")
      (auto simp: pair_at_def)
qed (use assms check_errors(3) in \<open>auto simp: pair_at_def\<close>)

lemma string_errors:
  "string_keys api x n = Inl e \<Longrightarrow> \<exists>j. e = ArgError j" "string_pairs api x n = Inl e \<Longrightarrow> \<exists>j. e = ArgError j"
  unfolding string_keys_def string_pairs_def
  by (drule emap_error, auto dest: check_errors pair_at_error)+

lemma op_order_simps [simp]:
  "OP_PUT < OP_MGET" "OP_GET < OP_MGET" "OP_DEL < OP_MGET" "OP_RANGE < OP_MGET"
  "\<not> OP_MGET < OP_MGET" "\<not> OP_MPUT < OP_MGET" "\<not> OP_MDEL < OP_MGET"
  by (simp_all add: less_op_def)

lemma reported_error: "\<exists>j. e = ArgError j \<Longrightarrow> reported name t0 t1 kc (Inl e) kc"
  by (auto simp: reported_def)

lemma put_reported: "l_put api bg l t0 t1 kc L = Some (r, kc', l') \<Longrightarrow> reported ''put'' t0 t1 kc r kc'"
  by (auto simp: l_put_def ebind_eq_Some bind_eq_Some_conv verb_op_def
      intro: reported_error reported_call [of _ OP_PUT _ 1] dest: check_errors)

lemma del_reported: "l_del api bg l t0 t1 kc L = Some (r, kc', l') \<Longrightarrow> reported ''del'' t0 t1 kc r kc'"
  by (auto simp: l_del_def ebind_eq_Some bind_eq_Some_conv verb_op_def
      intro: reported_error reported_call [of _ OP_DEL _ 1] dest: check_errors)

lemma range_reported: "l_range api bg l t0 t1 kc L = Some (r, kc', l') \<Longrightarrow> reported ''range'' t0 t1 kc r kc'"
  by (auto simp: l_range_def ebind_eq_Some bind_eq_Some_conv verb_op_def
      intro: reported_error reported_call [of _ OP_RANGE _ 1] dest: check_errors)

lemma scan_looked_up:
  "looked_up name (case arg of Scan st \<Rightarrow> if ss_err st then Inl CallbackError else Inr [LInteger n]
     | Collect _ \<Rightarrow> Inr [LInteger n]) = (if name = ''get'' \<and> (case arg of Scan st \<Rightarrow> \<not> ss_err st | Collect _ \<Rightarrow> True) then 1 else 0)"
  by (simp split: range_arg.split)

lemma scan_reported: "l_scan api bg l t0 t1 kc L = Some (r, kc', l') \<Longrightarrow> reported ''scan'' t0 t1 kc r kc'"
  by (auto simp: l_scan_def ebind_eq_Some bind_eq_Some_conv verb_op_def scan_looked_up
      intro: reported_error reported_call [of _ OP_RANGE _ 1] dest: check_errors)

lemma mput_reported: "l_mput api bg l t0 t1 kc L = Some (r, kc', l') \<Longrightarrow> reported ''mput'' t0 t1 kc r kc'"
  by (auto simp: l_mput_def ebind_eq_Some bind_eq_Some_conv verb_op_def
      intro: reported_error reported_call [of _ OP_MPUT] dest: check_errors string_errors)

lemma mdel_reported: "l_mdel api bg l t0 t1 kc L = Some (r, kc', l') \<Longrightarrow> reported ''mdel'' t0 t1 kc r kc'"
  by (auto simp: l_mdel_def ebind_eq_Some bind_eq_Some_conv verb_op_def
      intro: reported_error reported_call [of _ OP_MDEL] dest: check_errors string_errors)

lemma get_reported:
  assumes "l_get api bg l t0 t1 kc L = Some (r, kc', l')"
  shows "reported ''get'' t0 t1 kc r kc'"
  using assms unfolding l_get_def ebind_eq_Some bind_eq_Some_conv
proof (elim disjE exE conjE)
  fix k p assume "(case p of (found, v, s) \<Rightarrow> Some (Inr [get_result found v],
      kc\<lparr>kc_store := s, kc_stats := note_get found (note_call OP_GET t0 t1 1 (kc_stats kc))\<rparr>, l)) = Some (r, kc', l')"
  then obtain found v s where "r = Inr [get_result found v]"
    "kc_stats kc' = note_get found (note_call OP_GET t0 t1 1 (kc_stats kc))" by (cases p) auto
  then show ?thesis unfolding reported_def
    by (intro disjI2 exI [of _ OP_GET] exI [of _ "1::nat"] exI [of _ "[found]"])
      (simp add: note_call_event get_result_def verb_op_def)
qed (auto intro: reported_error dest: check_errors)

lemma mget_reported:
  assumes "l_mget api bg l t0 t1 kc L = Some (r, kc', l')"
  shows "reported ''mget'' t0 t1 kc r kc'"
  using assms unfolding l_mget_def ebind_eq_Some bind_eq_Some_conv
proof (elim disjE exE conjE)
  fix x n ks p assume ks: "string_keys api x n = Inr ks" "get_all (kc_store kc) ks = Some p" and "(case p of (rs, s) \<Rightarrow> Some (Inr [LList (map (\<lambda>(found, v). get_result found v) rs)],
      kc\<lparr>kc_store := s, kc_stats := fold (\<lambda>(found, v). note_get found) rs (note_call OP_MGET t0 t1 n (kc_stats kc))\<rparr>, l)) = Some (r, kc', l')"
  then obtain rs where "rs = fst p" "r = Inr [LList (map (\<lambda>(found, v). get_result found v) rs)]"
    "kc_stats kc' = fold (\<lambda>(found, v). note_get found) rs (note_call OP_MGET t0 t1 n (kc_stats kc))" by (cases p) auto
  moreover have "length (fst p) = n"
    using string_keys_length [OF ks(1)] get_all_length [of "kc_store kc" ks "fst p" "snd p"] ks(2) by simp
  ultimately show ?thesis unfolding reported_def
    by (intro disjI2 exI [of _ OP_MGET] exI [of _ n] exI [of _ "map fst rs"])
      (simp add: note_call_event verb_op_def fold_note_get comp_def)
qed (auto intro: reported_error dest: check_errors string_errors)

lemma kv_func_reported:
  assumes "kv_func name api bg l t0 t1 kc L = Some (Some (r, kc', l'))"
  shows "reported name t0 t1 kc r kc'"
  using assms unfolding kv_func_def
  by (auto split: if_splits intro: put_reported get_reported del_reported range_reported scan_reported
      mget_reported mput_reported mdel_reported)

lemma note_event_counters:
  "get_hits (note_event (Called op d n) st) = get_hits st" "get_misses (note_event (Called op d n) st) = get_misses st"
  "get_errors (note_event (Called op d n) st) = get_errors st" "prim_ops (note_event (Called op d n) st) = prim_ops st + of_nat n"
  "st_h (note_event (Called op d n) st) = (st_h st)(op := hist_record (st_h st op) d)"
  by (simp_all add: note_event.simps note_call_def)

lemma fold_got_counters:
  "get_hits (fold note_event (map Got gs) st) + get_misses (fold note_event (map Got gs) st) + get_errors (fold note_event (map Got gs) st)
     = get_hits st + get_misses st + get_errors st + of_nat (length gs) \<and>
   prim_ops (fold note_event (map Got gs) st) = prim_ops st \<and> st_h (fold note_event (map Got gs) st) = st_h st"
  by (induction gs arbitrary: st) (auto simp: note_get_def)

subsection \<open>Ranges\<close>

definition take_limit :: "int \<Rightarrow> 'a list \<Rightarrow> 'a list" where
  "take_limit limit xs = (if limit \<le> 0 then xs else take (nat limit) xs)"

lemma rows_feed_collect:
  "\<exists>n' cap'. rows_feed c0 limit (Some collect_cb) al n (Collect \<lparr>col_a = xs, col_cap = cap\<rparr>) =
     (n', Collect \<lparr>col_a = xs @ (if limit \<le> 0 then al else take (nat (limit - n)) al), col_cap = cap'\<rparr>)"
proof (induction al arbitrary: n xs cap)
  case Nil
  then show ?case by auto
next
  case (Cons kv al)
  obtain k v where kv: "kv = (k, v)" by fastforce
  show ?case
  proof (cases "limit \<le> 0 \<or> n < limit")
    case True
    have e: "rows_feed c0 limit (Some collect_cb) (kv # al) n (Collect \<lparr>col_a = xs, col_cap = cap\<rparr>) =
        rows_feed c0 limit (Some collect_cb) al (n + 1)
          (Collect \<lparr>col_a = xs @ [kv], col_cap = (if length xs = cap then if cap \<noteq> 0 then cap * 2 else 16 else cap)\<rparr>)"
      using True by (simp add: kv collect_cb_def Let_def)
    have s: "limit \<le> 0 \<or> nat (limit - n) = Suc (nat (limit - (n + 1)))" using True by linarith
    from Cons.IH [of "n + 1" "xs @ [kv]" "if length xs = cap then if cap \<noteq> 0 then cap * 2 else 16 else cap"] s
    show ?thesis unfolding e by auto
  next
    case False
    then show ?thesis by (auto simp: kv)
  qed
qed

subsection \<open>Properties\<close>

text \<open>An interpreter whose values are strings, for the examples.\<close>

abbreviation sample_api :: "(string, unit) lua_api" where
  "sample_api \<equiv> \<lparr>lua_tostr = Some, lua_toint = (\<lambda>_. Some 1), lua_isnil = (\<lambda>_. False), lua_istable = (\<lambda>_. True),
     lua_isfunction = (\<lambda>_. False), lua_len = (\<lambda>s. Some (int (length s))), lua_geti = (\<lambda>s i. [s ! (i - 1)]),
     lua_getfield = (\<lambda>s f. s), lua_pcall = (\<lambda>l f k v. (None, l))\<rparr>"

text \<open>
  C12. Merging the counters of two workers gives the counters of one worker that saw the events of
  both: every latency histogram, the number of primitive operations and the hits, misses and errors.
\<close>

theorem stats_merge_is_one_worker:
  "stats_merge (fold note_event es stats_reset) (fold note_event fs stats_reset) = fold note_event (es @ fs) stats_reset"
  by (simp only: stats_reset_spec fold_note_event stats_merge_spec append_Nil)

text \<open>
  C9. The accounting of every verb: either an argument was rejected and the context is untouched, or
  exactly the histogram of the verb's kind records the time between the two clock readings, the
  hits, misses and errors together grow by the number of values looked up, and the primitive operations
  grow by one for a single verb, by the number of keys for a batch.
\<close>

theorem kv_verbs_account:
  assumes "kv_func name api bg l t0 t1 kc L = Some (Some (r, kc', l'))"
  shows "(\<exists>i. r = Inl (ArgError i)) \<and> kc' = kc \<or>
    (\<exists>op n. verb_op name = Some op \<and>
       st_h (kc_stats kc') = (st_h (kc_stats kc))(op := hist_record (st_h (kc_stats kc) op) (t1 - t0)) \<and>
       get_hits (kc_stats kc') + get_misses (kc_stats kc') + get_errors (kc_stats kc') =
         get_hits (kc_stats kc) + get_misses (kc_stats kc) + get_errors (kc_stats kc) + of_nat (looked_up name r) \<and>
       prim_ops (kc_stats kc') = prim_ops (kc_stats kc) + of_nat n \<and>
       (op < OP_MGET \<longrightarrow> n = 1) \<and> (op = OP_MGET \<longrightarrow> n = looked_up name r) \<and> (op = OP_MDEL \<longrightarrow> r = Inr [LInteger (int n)]))"
  using kv_func_reported [OF assms] unfolding reported_def
proof (elim disjE exE conjE)
  fix op n gs
  assume a: "verb_op name = Some op" "length gs = looked_up name r" "op < OP_MGET \<longrightarrow> n = 1" "op = OP_MGET \<longrightarrow> n = looked_up name r"
      "op = OP_MDEL \<longrightarrow> r = Inr [LInteger (int n)]"
      "kc_stats kc' = fold note_event (Called op (t1 - t0) n # map Got gs) (kc_stats kc)"
  then have k: "kc_stats kc' = fold note_event (map Got gs) (note_event (Called op (t1 - t0) n) (kc_stats kc))" by simp
  show ?thesis
    using fold_got_counters [of gs "note_event (Called op (t1 - t0) n) (kc_stats kc)"] a(1-5)
    unfolding k note_event_counters by (intro disjI2 exI [of _ op] exI [of _ n]) simp
qed simp

theorem kv_verbs_account_witness:
  "\<exists>kc kc' :: (skiplist, unit) kvlua_ctx. kv_func ''get'' sample_api (\<lambda>c. c) () 5 9 kc [''k''] = Some (Some (Inr [LNil], kc', ())) \<and>
     prim_ops (kc_stats kc') = prim_ops (kc_stats kc) + 1"
proof -
  define kc :: "(skiplist, unit) kvlua_ctx" where
    "kc = \<lparr>kc_stats = stats_reset, kc_store = kv_at (skiplist_backend_open 0 None ()) (sl_new 0)\<rparr>"
  have "store_get (kc_store kc) ''k'' = Some (0, None, kc_store kc)"
    using sl_abs_get [OF sl_abs_new [of 0], of "''k''"] by (simp add: kc_def store_get_def skiplist_backend_open_def)
  then obtain kc' where k: "kv_func ''get'' sample_api (\<lambda>c. c) () 5 9 kc [''k''] = Some (Some (Inr [LNil], kc', ()))"
    by (simp add: kv_func_def l_get_def ebind_def checklstring_def lua_arg_def get_result_def)
  then show ?thesis using kv_verbs_account [OF k] by (auto simp: verb_op_def)
qed

text \<open>
  C10. On the skiplist \<open>kv.range\<close> returns exactly the pairs of the half-open interval in key order,
  cut to the limit when it is positive, and leaves the store unchanged.
\<close>

theorem kv_range_on_skiplist:
  fixes kc :: "(skiplist, 'l) kvlua_ctx"
  assumes "sl_reach c al" and be: "be = skiplist_backend_open seed data_dir opts"
    and kc: "kc_store kc = kv_at be c"
    and L: "checklstring api L 1 = Inr lo" "checklstring api L 2 = Inr hi" "optinteger api L 3 0 = Inr limit"
  shows "\<exists>kc'. l_range api bg l t0 t1 kc L = Some (Inr [LPairs (take_limit (c_int limit) (rows_range lo hi al))], kc', l) \<and>
    kc_store kc' = kc_store kc"
proof -
  obtain n cap where f: "rows_feed 0 (c_int limit) (Some (collect_cb :: 'l range_arg kv_range_cb)) (rows_range lo hi al) 0 (Collect \<lparr>col_a = [], col_cap = 0\<rparr>) =
      (n, Collect \<lparr>col_a = [] @ (if c_int limit \<le> 0 then rows_range lo hi al else take (nat (c_int limit - 0)) (rows_range lo hi al)), col_cap = cap\<rparr>)"
    using rows_feed_collect [of 0 "c_int limit" "rows_range lo hi al" 0 "[]" 0] by blast
  have "be_range be = sl_range" by (simp add: be skiplist_backend_open_def)
  then have "store_range (kc_store kc) lo hi (c_int limit) (Some (collect_cb :: 'l range_arg kv_range_cb)) (Collect \<lparr>col_a = [], col_cap = 0\<rparr>) =
      Some (n, Collect \<lparr>col_a = take_limit (c_int limit) (rows_range lo hi al), col_cap = cap\<rparr>, kc_store kc)"
    using f by (simp add: kc store_range_def sl_abs_range [OF sl_reach_abs [OF assms(1)]] take_limit_def)
  then show ?thesis using L by (simp add: l_range_def ebind_def)
qed

lemma two_keys:
  "\<exists>c. sl_reach c [(''a'', ''1''), (''b'', ''2'')]"
proof -
  obtain s where s: "sl_reach s (rows_put ''b'' ''2'' [])"
    using sl_abs_put [OF sl_abs_new [of 0], of "''b''" "''2''"] reach_open reach_put by blast
  obtain c where "sl_reach c (rows_put ''a'' ''1'' (rows_put ''b'' ''2'' []))"
    using sl_abs_put [OF sl_reach_abs [OF s], of "''a''" "''1''"] s reach_put by blast
  moreover have "rows_put ''a'' ''1'' (rows_put ''b'' ''2'' []) = [(''a'', ''1''), (''b'', ''2'')]"
    by (simp add: less_char_def)
  ultimately show ?thesis by auto
qed

theorem kv_range_on_skiplist_witness:
  "\<exists>kc kc'. l_range sample_api (\<lambda>c :: skiplist. c) () 5 9 kc [''a'', ''c'', ''1''] = Some (Inr [LPairs [(''a'', ''1'')]], kc', ())"
proof -
  obtain c where c: "sl_reach c [(''a'', ''1''), (''b'', ''2'')]" using two_keys by blast
  define kc :: "(skiplist, unit) kvlua_ctx" where "kc = \<lparr>kc_stats = stats_reset, kc_store = kv_at (skiplist_backend_open 0 None ()) c\<rparr>"
  have "take_limit (c_int 1) (rows_range ''a'' ''c'' [(''a'', ''1''), (''b'', ''2'')]) = [(''a'', ''1'')]"
    by (simp add: take_limit_def c_int_def rows_range_def less_char_def)
  moreover have "checklstring sample_api [''a'', ''c'', ''1''] 1 = Inr ''a''" "checklstring sample_api [''a'', ''c'', ''1''] 2 = Inr ''c''"
    "optinteger sample_api [''a'', ''c'', ''1''] 3 0 = Inr 1"
    by (simp_all add: checklstring_def optinteger_def lua_arg_def)
  ultimately show ?thesis
    using kv_range_on_skiplist [OF c refl, of kc 0 None "()" sample_api "[''a'', ''c'', ''1'']" "''a''" "''c''" 1 "\<lambda>c. c" "()" 5 9]
    by (auto simp: kc_def)
qed

text \<open>
  C11. On the skiplist \<open>kv.mget\<close> returns for each key of the table its value or nil, in the order of the
  table, and counts each present key as a hit and each absent one as a miss.
\<close>

theorem kv_mget_on_skiplist:
  fixes kc :: "(skiplist, 'l) kvlua_ctx"
  assumes "sl_reach c al" and be: "be = skiplist_backend_open seed data_dir opts"
    and kc: "kc_store kc = kv_at be c"
    and L: "checktype (lua_istable api) L 1 = Inr x" "table_len api x = Inr n" "string_keys api x n = Inr ks"
  shows "\<exists>kc'. l_mget api bg l t0 t1 kc L =
      Some (Inr [LList (map (\<lambda>k. case map_of al k of None \<Rightarrow> LNil | Some v \<Rightarrow> LString v) ks)], kc', l) \<and>
    kc_store kc' = kc_store kc \<and>
    get_hits (kc_stats kc') = get_hits (kc_stats kc) + of_nat (length (filter (\<lambda>k. map_of al k \<noteq> None) ks)) \<and>
    get_misses (kc_stats kc') = get_misses (kc_stats kc) + of_nat (length (filter (\<lambda>k. map_of al k = None) ks)) \<and>
    get_errors (kc_stats kc') = get_errors (kc_stats kc)"
proof -
  define look where "look k = (case map_of al k of None \<Rightarrow> (0 :: int, None) | Some v \<Rightarrow> (1, Some v))" for k
  have g: "store_get (kv_at be c) k = Some (fst (look k), snd (look k), kv_at be c)" for k
    using sl_abs_get [OF sl_reach_abs [OF assms(1)], of k]
    by (simp add: be skiplist_backend_open_def store_get_def look_def split: option.split)
  have ga: "get_all (kv_at be c) ks = Some (map look ks, kv_at be c)" by (induction ks) (simp_all add: g)
  have n: "get_hits (fold (\<lambda>(found, v). note_get found) (map look ks) st) = get_hits st + of_nat (length (filter (\<lambda>k. map_of al k \<noteq> None) ks)) \<and>
      get_misses (fold (\<lambda>(found, v). note_get found) (map look ks) st) = get_misses st + of_nat (length (filter (\<lambda>k. map_of al k = None) ks)) \<and>
      get_errors (fold (\<lambda>(found, v). note_get found) (map look ks) st) = get_errors st" for st
    by (induction ks arbitrary: st) (auto simp: look_def note_get_def split: option.splits)
  have "map (\<lambda>(found, v). get_result found v) (map look ks) = map (\<lambda>k. case map_of al k of None \<Rightarrow> LNil | Some v \<Rightarrow> LString v) ks"
    by (simp add: look_def get_result_def split: option.split)
  then show ?thesis
    using L ga n [of "note_call OP_MGET t0 t1 n (kc_stats kc)"] kc
    by (simp add: l_mget_def ebind_def note_call_def)
qed

theorem kv_mget_on_skiplist_witness:
  "\<exists>kc kc'. l_mget sample_api (\<lambda>c :: skiplist. c) () 5 9 kc [''bz''] = Some (Inr [LList [LString ''2'', LNil]], kc', ())"
proof -
  obtain c where c: "sl_reach c [(''a'', ''1''), (''b'', ''2'')]" using two_keys by blast
  define kc :: "(skiplist, unit) kvlua_ctx" where "kc = \<lparr>kc_stats = stats_reset, kc_store = kv_at (skiplist_backend_open 0 None ()) c\<rparr>"
  have "checktype (lua_istable sample_api) [''bz''] 1 = Inr ''bz''" "table_len sample_api ''bz'' = Inr 2"
    "string_keys sample_api ''bz'' 2 = Inr [''b'', ''z'']"
    by (simp_all add: checktype_def lua_arg_def table_len_def c_int_def string_keys_def checklstring_def upt_rec)
  then show ?thesis
    using kv_mget_on_skiplist [OF c refl, of kc 0 None "()" sample_api "[''bz'']" "''bz''" 2 "[''b'', ''z'']" "\<lambda>c. c" "()" 5 9]
    by (auto simp: kc_def)
qed

end
