(* ===== verification/KB_Cstring.thy ===== *)
theory KB_Cstring
  imports KB_Double
begin

text \<open>
  The parts of the C library's string handling that the configuration and command line code uses, in the
  C locale: character classes, \<open>strtol\<close> in base 10, \<open>strtod\<close> (decimal and hexadecimal numbers;
  infinities and NaNs have no value here, \<open>None\<close>), \<open>strtok\<close> on one delimiter, \<open>snprintf\<close> into a bounded
  buffer, \<open>%ld\<close>, \<open>%f\<close> and padding. A \<open>long\<close> and a \<open>long long\<close> have 64 bits.

  A decimal number is rounded to 53 bits with an unbounded exponent: where C would underflow or
  overflow, the callers either truncate to 0 or convert a value beyond 64 bits, which is undefined in C and
  \<open>None\<close> below.
\<close>

subsection \<open>Characters\<close>

definition isspace :: "char \<Rightarrow> bool" where
  "isspace c \<longleftrightarrow> c \<in> {CHR '' '', CHR 0x09, CHR 0x0A, CHR 0x0B, CHR 0x0C, CHR 0x0D}"

definition isdigit :: "char \<Rightarrow> bool" where
  "isdigit c \<longleftrightarrow> 48 \<le> (of_char c :: nat) \<and> (of_char c :: nat) \<le> 57"

definition toupper :: "char \<Rightarrow> char" where
  "toupper c = (if 97 \<le> (of_char c :: nat) \<and> (of_char c :: nat) \<le> 122 then char_of (of_char c - 32 :: nat) else c)"

definition digit_val :: "char \<Rightarrow> nat" where
  "digit_val c = of_char c - 48"

definition isxdigit :: "char \<Rightarrow> bool" where
  "isxdigit c \<longleftrightarrow> isdigit c \<or> (65 \<le> (of_char (toupper c) :: nat) \<and> (of_char (toupper c) :: nat) \<le> 70)"

definition xdigit_val :: "char \<Rightarrow> nat" where
  "xdigit_val c = (if isdigit c then digit_val c else of_char (toupper c) - 55)"

definition dec_val :: "string \<Rightarrow> nat" where
  "dec_val ds = fold (\<lambda>c n. n * 10 + digit_val c) ds 0"

definition hex_val :: "string \<Rightarrow> nat" where
  "hex_val ds = fold (\<lambda>c n. n * 16 + xdigit_val c) ds 0"

definition sign_of :: "string \<Rightarrow> bool \<times> string" where
  "sign_of s = (case s of
      [] \<Rightarrow> (False, [])
    | c # cs \<Rightarrow> if c = CHR ''-'' then (True, cs) else if c = CHR ''+'' then (False, cs) else (False, s))"

subsection \<open>Numbers\<close>

abbreviation LONG_MAX :: int where "LONG_MAX \<equiv> 2 ^ 63 - 1"
abbreviation LONG_MIN :: int where "LONG_MIN \<equiv> - (2 ^ 63)"

text \<open>The value, the rest of the string (the whole string when there is no number) and whether \<open>errno\<close> is set.\<close>

definition strtol :: "string \<Rightarrow> int \<times> string \<times> bool" where
  "strtol s =
     (let (neg, s') = sign_of (dropWhile isspace s); ds = takeWhile isdigit s'; rest = dropWhile isdigit s';
          v = (if neg then - int (dec_val ds) else int (dec_val ds))
      in if ds = [] then (0, s, False)
         else if v > LONG_MAX then (LONG_MAX, rest, True)
         else if v < LONG_MIN then (LONG_MIN, rest, True)
         else (v, rest, False))"

text \<open>The exponent part: \<open>e\<close> or \<open>p\<close>, a sign and at least one digit; otherwise nothing is consumed.\<close>

definition exponent :: "char \<Rightarrow> string \<Rightarrow> int \<times> string" where
  "exponent mark s = (case s of
      [] \<Rightarrow> (0, [])
    | c # cs \<Rightarrow>
        if toupper c = mark then
          (let (neg, cs') = sign_of cs; ds = takeWhile isdigit cs'
           in if ds = [] then (0, s)
              else (if neg then - int (dec_val ds) else int (dec_val ds), dropWhile isdigit cs'))
        else (0, s))"

text \<open>Digits with an optional point: all digits, how many stand behind the point, and the rest.\<close>

definition mantissa :: "(char \<Rightarrow> bool) \<Rightarrow> string \<Rightarrow> string \<times> nat \<times> string" where
  "mantissa isd s =
     (let ip = takeWhile isd s; r = dropWhile isd s
      in case r of
           [] \<Rightarrow> (ip, 0, [])
         | c # cs \<Rightarrow>
             if c = CHR ''.'' then (let fp = takeWhile isd cs
                in if ip = [] \<and> fp = [] then ([], 0, s) else (ip @ fp, length fp, dropWhile isd cs))
             else (ip, 0, r))"

definition prefix_ci :: "string \<Rightarrow> string \<Rightarrow> bool" where
  "prefix_ci p s \<longleftrightarrow> take (length p) (map toupper s) = p"

definition is_nan_char :: "char \<Rightarrow> bool" where
  "is_nan_char c \<longleftrightarrow> isdigit c \<or> (65 \<le> (of_char (toupper c) :: nat) \<and> (of_char (toupper c) :: nat) \<le> 90) \<or> c = CHR ''_''"

text \<open>A NaN may carry a parenthesised payload.\<close>

definition nan_rest :: "string \<Rightarrow> string" where
  "nan_rest r = (case r of
      [] \<Rightarrow> []
    | c # cs \<Rightarrow> if c = CHR ''('' \<and> take 1 (dropWhile is_nan_char cs) = '')'' then drop 1 (dropWhile is_nan_char cs) else r)"

definition strtod :: "string \<Rightarrow> double option \<times> string" where
  "strtod s =
     (let (neg, t) = sign_of (dropWhile isspace s);
          signed = (\<lambda>x. if neg then - x else x)
      in if prefix_ci ''INFINITY'' t then (None, drop 8 t)
         else if prefix_ci ''INF'' t then (None, drop 3 t)
         else if prefix_ci ''NAN'' t then (None, nan_rest (drop 3 t))
         else if prefix_ci ''0X'' t \<and> fst (mantissa isxdigit (drop 2 t)) \<noteq> [] then
           (let (ds, k, r) = mantissa isxdigit (drop 2 t); (e, r') = exponent (CHR ''P'') r
            in (Some (signed (rnd (of_nat (hex_val ds) * 2 powi (e - 4 * int k)))), r'))
         else
           (let (ds, k, r) = mantissa isdigit t; (e, r') = exponent (CHR ''E'') r
            in if ds = [] then (Some 0, s)
               else (Some (signed (rnd (of_nat (dec_val ds) * 10 powi (e - int k)))), r')))"

text \<open>Whether the value is outside the normal range of a \<open>double\<close>, where \<open>errno\<close> is set.\<close>

definition strtod_erange :: "double option \<Rightarrow> bool" where
  "strtod_erange v = (case v of
      None \<Rightarrow> False
    | Some x \<Rightarrow> \<bar>x\<bar> \<ge> 2 ^ 1024 \<or> (x \<noteq> 0 \<and> \<bar>x\<bar> < 1 / 2 ^ 1022))"

definition atof :: "string \<Rightarrow> double option" where
  "atof s = fst (strtod s)"

subsection \<open>Tokens, bounded buffers and printing\<close>

function strtok_all :: "char \<Rightarrow> string \<Rightarrow> string list" where
  "strtok_all d s =
     (let s = dropWhile (\<lambda>c. c = d) s
      in if s = [] then [] else takeWhile (\<lambda>c. c \<noteq> d) s # strtok_all d (dropWhile (\<lambda>c. c \<noteq> d) s))"
  by pat_completeness auto
termination
proof (relation "measure (\<lambda>(d, s). length s)")
  fix d and s t :: string
  assume t: "t = dropWhile (\<lambda>c. c = d) s" and "t \<noteq> []"
  then have "hd t \<noteq> d" using hd_dropWhile [of "\<lambda>c. c = d" s] by simp
  then have "length (dropWhile (\<lambda>c. c \<noteq> d) t) < length t"
    using \<open>t \<noteq> []\<close> by (cases t) (auto simp: length_dropWhile_le less_Suc_eq_le)
  moreover have "length t \<le> length s" by (simp add: t length_dropWhile_le)
  ultimately show "((d, dropWhile (\<lambda>c. c \<noteq> d) t), (d, s)) \<in> measure (\<lambda>(d, s). length s)" by simp
qed simp

declare strtok_all.simps [simp del]

definition snprintf :: "nat \<Rightarrow> string \<Rightarrow> string" where
  "snprintf n s = take (n - 1) s"

fun show_nat :: "nat \<Rightarrow> string" where
  "show_nat n = (if n < 10 then [char_of (48 + n)] else show_nat (n div 10) @ [char_of (48 + n mod 10)])"

declare show_nat.simps [simp del]

definition show_int :: "int \<Rightarrow> string" where
  "show_int n = (if n < 0 then CHR ''-'' # show_nat (nat (- n)) else show_nat (nat n))"

subsection \<open>Printing and reading back\<close>

lemma isdigit_show_nat: "c \<in> set (show_nat n) \<Longrightarrow> isdigit c"
proof (induction n rule: show_nat.induct)
  case (1 n)
  then show ?case by (auto simp: show_nat.simps [of n] isdigit_def split: if_splits)
qed

lemma show_nat_nonempty [simp]: "show_nat n \<noteq> []"
  by (subst show_nat.simps) simp

lemma dec_val_append: "dec_val (xs @ [c]) = dec_val xs * 10 + digit_val c"
  by (simp add: dec_val_def)

lemma dec_val_show_nat [simp]: "dec_val (show_nat n) = n"
proof (induction n rule: show_nat.induct)
  case (1 n)
  show ?case
  proof (cases "n < 10")
    case True
    then show ?thesis by (simp add: show_nat.simps [of n] dec_val_def digit_val_def)
  next
    case False
    then show ?thesis using 1 by (simp add: show_nat.simps [of n] dec_val_append digit_val_def)
  qed
qed

lemma isdigit_not: "isdigit c \<Longrightarrow> \<not> isspace c \<and> c \<noteq> CHR ''-'' \<and> c \<noteq> CHR ''+'' \<and> c \<noteq> CHR ''.'' \<and> c \<noteq> CHR '',''"
  by (auto simp: isdigit_def isspace_def)

lemma show_nat_Cons: obtains c cs where "show_nat n = c # cs" "isdigit c" "\<forall>d \<in> set cs. isdigit d"
  using isdigit_show_nat [of _ n] by (cases "show_nat n") auto

lemma span_digits:
  "\<forall>c \<in> set ds. isd c \<Longrightarrow> (r = [] \<or> \<not> isd (hd r)) \<Longrightarrow> takeWhile isd (ds @ r) = ds \<and> dropWhile isd (ds @ r) = r"
  by (induction ds) (auto, (cases r; simp)+)

lemma strtol_show_nat:
  assumes "int n \<le> LONG_MAX" "r = [] \<or> \<not> isdigit (hd r)"
  shows "strtol (show_nat n @ r) = (int n, r, False)"
proof -
  obtain c cs where c: "show_nat n = c # cs" "isdigit c" by (rule show_nat_Cons)
  have "dropWhile isspace (show_nat n @ r) = show_nat n @ r" "sign_of (show_nat n @ r) = (False, show_nat n @ r)"
    using c isdigit_not [OF c(2)] by (simp_all add: sign_of_def)
  then show ?thesis
    using span_digits [of "show_nat n" isdigit r] isdigit_show_nat [of _ n] assms by (simp add: strtol_def)
qed

text \<open>What may follow a printed number without becoming part of it.\<close>

definition ends_number :: "string \<Rightarrow> bool" where
  "ends_number r \<longleftrightarrow> (case r of [] \<Rightarrow> True | c # _ \<Rightarrow> \<not> isdigit c \<and> c \<noteq> CHR ''.'' \<and> toupper c \<noteq> CHR ''E'' \<and> toupper c \<noteq> CHR ''X'')"

lemma toupper_digit [simp]: "isdigit c \<Longrightarrow> toupper c = c"
  by (auto simp: isdigit_def toupper_def)

lemma no_prefix_ci: "isdigit c \<Longrightarrow> \<not> isdigit p \<Longrightarrow> \<not> prefix_ci (p # ps) (c # cs)"
  by (auto simp: prefix_ci_def)

lemma no_hex_prefix:
  assumes "isdigit c" "\<forall>d \<in> set cs. isdigit d" "ends_number r"
  shows "\<not> prefix_ci ''0X'' (c # cs @ r)"
proof (cases "cs @ r")
  case (Cons d ds)
  have "toupper d \<noteq> CHR ''X''"
  proof (cases cs)
    case Nil
    then show ?thesis using assms(3) Cons by (simp add: ends_number_def)
  next
    case (Cons e es)
    then have "isdigit d" using assms(2) \<open>cs @ r = d # ds\<close> by auto
    then show ?thesis by (auto simp: isdigit_def toupper_def)
  qed
  then show ?thesis using Cons by (auto simp: prefix_ci_def)
qed (auto simp: prefix_ci_def)

lemma exponent_none: "ends_number r \<Longrightarrow> exponent (CHR ''E'') r = (0, r)"
  by (auto simp: ends_number_def exponent_def split: list.splits)

lemma mantissa_none:
  assumes "\<forall>d \<in> set ds. isdigit d" "ends_number r"
  shows "mantissa isdigit (ds @ r) = (ds, 0, r)"
proof -
  have "r = [] \<or> \<not> isdigit (hd r)" using assms(2) by (cases r) (auto simp: ends_number_def)
  then have s: "takeWhile isdigit (ds @ r) = ds" "dropWhile isdigit (ds @ r) = r"
    using span_digits [OF assms(1)] by auto
  show ?thesis unfolding mantissa_def Let_def s
    using assms(2) by (cases r) (auto simp: ends_number_def)
qed

lemma strtod_show_nat:
  assumes "ends_number r"
  shows "strtod (show_nat n @ r) = (Some (rnd (of_nat n)), r)"
proof -
  obtain c cs where c: "show_nat n = c # cs" "isdigit c" "\<forall>d \<in> set cs. isdigit d" by (rule show_nat_Cons)
  have s: "dropWhile isspace (show_nat n @ r) = show_nat n @ r" "sign_of (show_nat n @ r) = (False, show_nat n @ r)"
    using c isdigit_not [OF c(2)] by (simp_all add: sign_of_def)
  have p: "\<not> prefix_ci ''INFINITY'' (show_nat n @ r)" "\<not> prefix_ci ''INF'' (show_nat n @ r)" "\<not> prefix_ci ''NAN'' (show_nat n @ r)"
    using c(1,2) by (simp_all add: no_prefix_ci isdigit_def [of "CHR ''I''"] isdigit_def [of "CHR ''N''"])
  have x: "\<not> prefix_ci ''0X'' (show_nat n @ r)" using no_hex_prefix [OF c(2,3) assms] c(1) by simp
  have m: "mantissa isdigit (show_nat n @ r) = (show_nat n, 0, r)"
    using mantissa_none isdigit_show_nat assms by blast
  show ?thesis unfolding strtod_def s Let_def by (simp add: p x m exponent_none [OF assms])
qed

lemma rnd_pow2: "rnd (2 ^ k * x) = 2 ^ k * rnd x"
  by (induction k) (simp_all add: rnd_double mult.assoc)

subsection \<open>Formatted output\<close>

definition pad_left :: "nat \<Rightarrow> string \<Rightarrow> string" where
  "pad_left w s = replicate (w - length s) (CHR '' '') @ s"

definition pad_right :: "nat \<Rightarrow> string \<Rightarrow> string" where
  "pad_right w s = s @ replicate (w - length s) (CHR '' '')"

text \<open>\<open>%.<d>f\<close>: the exact value rounded to \<open>d\<close> decimals, ties to even.\<close>

definition fmt_fixed :: "nat \<Rightarrow> double \<Rightarrow> string" where
  "fmt_fixed d x =
     (let n = nat (rne (\<bar>x\<bar> * 10 ^ d)); ip = show_nat (n div 10 ^ d); fp = show_nat (n mod 10 ^ d)
      in (if x < 0 then ''-'' else []) @ ip @
         (if d = 0 then [] else ''.'' @ replicate (d - length fp) (CHR ''0'') @ fp))"

lemma show_nat_length: "n < 10 ^ k \<Longrightarrow> 0 < k \<Longrightarrow> length (show_nat n) \<le> k"
proof (induction n arbitrary: k rule: show_nat.induct)
  case (1 n)
  show ?case
  proof (cases "n < 10")
    case True
    then show ?thesis using 1(3) by (simp add: show_nat.simps [of n])
  next
    case False
    then obtain j where k: "k = Suc j" "0 < j" using 1(2,3) by (cases k; cases "k - 1") auto
    have "n div 10 < 10 ^ j" using 1(2) by (simp add: k less_mult_imp_div_less mult.commute)
    from 1(1) [OF False this k(2)] show ?thesis using False by (simp add: show_nat.simps [of n] k)
  qed
qed

lemma fmt_fixed_length:
  assumes "0 \<le> x" "x \<le> of_nat m" "m * 10 ^ d < 10 ^ (k + d)" "0 < k" "0 < d"
  shows "length (fmt_fixed d x) \<le> k + d + 1"
proof -
  define n where "n = nat (rne (\<bar>x\<bar> * 10 ^ d))"
  have "rne (x * 10 ^ d) \<le> rne (of_int (int (m * 10 ^ d)))"
    using assms(2) by (intro rne_mono) (simp add: mult_right_mono)
  then have "rne (x * 10 ^ d) \<le> int (m * 10 ^ d)" by (simp only: rne_of_int)
  then have "n \<le> m * 10 ^ d" using assms(1) by (simp only: n_def abs_of_nonneg)
  then have "n < 10 ^ k * 10 ^ d" using assms(3) unfolding power_add by (rule order_le_less_trans)
  then have "n div 10 ^ d < 10 ^ k" by (rule less_mult_imp_div_less)
  then have i: "length (show_nat (n div 10 ^ d)) \<le> k" using assms(4) by (rule show_nat_length)
  have f: "length (show_nat (n mod 10 ^ d)) \<le> d" using assms(5) by (intro show_nat_length) simp_all
  have "fmt_fixed d x = show_nat (n div 10 ^ d) @ ''.'' @ replicate (d - length (show_nat (n mod 10 ^ d))) (CHR ''0'') @ show_nat (n mod 10 ^ d)"
    using assms(1,5) by (simp add: fmt_fixed_def n_def Let_def)
  then show ?thesis using i f by simp
qed

end
