(* ===== verification/KB_Config.thy ===== *)
theory KB_Config
  imports KB_Cstring
begin

text \<open>
  The configuration file reader of \<open>src/src/config.c\<close>: lines through a buffer of 1024 bytes, comments,
  section headers, entries, the lookups of the options and the sizes with a binary suffix.

  A growing array is a list with its capacity; the pointer \<open>cur\<close> to the current section is its
  index, which stays valid because sections are only appended. The content of the file is an
  argument (\<open>None\<close> when it cannot be opened). A \<open>NULL\<close> section or file is \<open>None\<close>.
\<close>

subsection \<open>The code\<close>

record kv_options =
  opt_name :: string
  opt_kv :: "(string \<times> string) list"
  opt_cap :: nat

record cfg_file =
  cf_s :: "kv_options list"
  cf_cap :: nat

text \<open>\<open>while (e > s && isspace(*e)) *e-- = 0;\<close> on the reversed string: the first character is never removed.\<close>

fun rtrim_rev :: "string \<Rightarrow> string" where
  "rtrim_rev (c # d # cs) = (if isspace c then rtrim_rev (d # cs) else c # d # cs)"
| "rtrim_rev s = s"

definition trim :: "string \<Rightarrow> string" where
  "trim s = (let s = dropWhile isspace s in if s = [] then s else rev (rtrim_rev (rev s)))"

definition grow :: "nat \<Rightarrow> nat \<Rightarrow> nat" where
  "grow n cap = (if n = cap then (if cap \<noteq> 0 then cap * 2 else 8) else cap)"

definition section_new :: "string \<Rightarrow> kv_options" where
  "section_new name = \<lparr>opt_name = snprintf 64 name, opt_kv = [], opt_cap = 0\<rparr>"

definition section_add :: "kv_options \<Rightarrow> string \<Rightarrow> string \<Rightarrow> kv_options" where
  "section_add ob k v = ob\<lparr>opt_kv := opt_kv ob @ [(k, v)], opt_cap := grow (length (opt_kv ob)) (opt_cap ob)\<rparr>"

text \<open>The index of the first section of that name.\<close>

fun find_name :: "string \<Rightarrow> kv_options list \<Rightarrow> nat \<Rightarrow> nat option" where
  "find_name name [] i = None"
| "find_name name (ob # os) i = (if opt_name ob = name then Some i else find_name name os (i + 1))"

definition file_section :: "cfg_file \<Rightarrow> string \<Rightarrow> cfg_file \<times> nat" where
  "file_section c name =
     (case find_name name (cf_s c) 0 of
        Some i \<Rightarrow> (c, i)
      | None \<Rightarrow> (c\<lparr>cf_s := cf_s c @ [section_new name], cf_cap := grow (length (cf_s c)) (cf_cap c)\<rparr>, length (cf_s c)))"

text \<open>\<open>fgets(line, 1024, f)\<close> until the end of the file.\<close>

abbreviation newline :: char where "newline \<equiv> CHR 0x0A"

definition fgets :: "nat \<Rightarrow> string \<Rightarrow> string \<times> string" where
  "fgets n s =
     (let l = takeWhile (\<lambda>c. c \<noteq> newline) s; r = dropWhile (\<lambda>c. c \<noteq> newline) s
      in if length l \<ge> n - 1 then (take (n - 1) s, drop (n - 1) s) else (l @ take 1 r, drop 1 r))"

lemma fgets_shrinks:
  assumes "s \<noteq> []" "1 < n"
  shows "length (snd (fgets n s)) < length s"
proof -
  define l r where "l = takeWhile (\<lambda>c. c \<noteq> newline) s" and "r = dropWhile (\<lambda>c. c \<noteq> newline) s"
  have s: "s = l @ r" by (simp add: l_def r_def)
  show ?thesis
  proof (cases "length l \<ge> n - 1")
    case True
    then have "snd (fgets n s) = drop (n - 1) s" by (simp add: fgets_def Let_def flip: l_def)
    moreover have "0 < length s" using assms(1) by simp
    ultimately show ?thesis using assms(2) by (simp only: length_drop)
  next
    case False
    have "length (drop 1 r) < length s" using assms(1) unfolding s by (cases r) auto
    with False show ?thesis by (simp add: fgets_def Let_def flip: l_def r_def)
  qed
qed

function fgets_all :: "string \<Rightarrow> string list" where
  "fgets_all s = (if s = [] then [] else fst (fgets 1024 s) # fgets_all (snd (fgets 1024 s)))"
  by pat_completeness auto
termination
  by (relation "measure length") (auto intro: fgets_shrinks [of _ 1024])

declare fgets_all.simps [simp del]

text \<open>The C string in the buffer ends at the first NUL byte.\<close>

definition c_str :: "string \<Rightarrow> string" where
  "c_str s = takeWhile (\<lambda>c. c \<noteq> CHR 0x00) s"

text \<open>The comment loop; \<open>start\<close> holds at the start of the line and after white space.\<close>

fun strip_comment :: "bool \<Rightarrow> string \<Rightarrow> string" where
  "strip_comment start [] = []"
| "strip_comment start (c # cs) =
     (if (c = CHR ''#'' \<or> c = CHR '';'') \<and> start then [] else c # strip_comment (isspace c) cs)"

definition cfg_line :: "cfg_file \<times> nat \<Rightarrow> string \<Rightarrow> cfg_file \<times> nat" where
  "cfg_line st line =
     (let (c, cur) = st; s = trim (strip_comment True (c_str line))
      in if s = [] then (c, cur)
         else if hd s = CHR ''['' then
           (if CHR '']'' \<in> set s then file_section c (trim (takeWhile (\<lambda>x. x \<noteq> CHR '']'') (tl s))) else (c, cur))
         else if CHR ''='' \<notin> set s then (c, cur)
         else (c\<lparr>cf_s := (cf_s c)[cur := section_add (cf_s c ! cur) (trim (takeWhile (\<lambda>x. x \<noteq> CHR ''='') s))
                                  (trim (tl (dropWhile (\<lambda>x. x \<noteq> CHR ''='') s)))]\<rparr>, cur))"

definition cfg_load :: "string option \<Rightarrow> int \<times> cfg_file option" where
  "cfg_load content =
     (case content of
        None \<Rightarrow> (- 1, None)
      | Some s \<Rightarrow> (0, Some (fst (fold (\<lambda>line st. cfg_line st line) (fgets_all s)
                              (file_section \<lparr>cf_s = [], cf_cap = 0\<rparr> ''bench'')))))"

definition cfg_section :: "cfg_file option \<Rightarrow> string \<Rightarrow> kv_options option" where
  "cfg_section c name = (case c of None \<Rightarrow> None | Some c \<Rightarrow> find (\<lambda>ob. opt_name ob = name) (cf_s c))"

definition size_mult :: "char option \<Rightarrow> int option" where
  "size_mult c = (case c of
      None \<Rightarrow> Some 1
    | Some c \<Rightarrow> map_of [(CHR ''K'', 1024), (CHR ''M'', 1024 * 1024), (CHR ''G'', 1024 * 1024 * 1024),
                        (CHR ''T'', 1024 * 1024 * 1024 * 1024)] (toupper c))"

text \<open>The outer option is \<open>None\<close> where the conversion to \<open>long long\<close> is undefined.\<close>

definition cfg_parse_size :: "string option \<Rightarrow> int \<Rightarrow> int option" where
  "cfg_parse_size s dflt =
     (case s of
        None \<Rightarrow> Some dflt
      | Some s \<Rightarrow>
          if s = [] then Some dflt
          else (let (v, e) = strtod s; e = dropWhile isspace e
                in case size_mult (case e of [] \<Rightarrow> None | c # _ \<Rightarrow> Some c) of
                     None \<Rightarrow> Some dflt
                   | Some mul \<Rightarrow>
                       (case v of
                          None \<Rightarrow> None
                        | Some v \<Rightarrow>
                            (let r = trunc_double (dmul v (int_to_double mul))
                             in if LONG_MIN \<le> r \<and> r \<le> LONG_MAX then Some r else None))))"

definition kv_opt_str :: "kv_options option \<Rightarrow> string \<Rightarrow> string option \<Rightarrow> string option" where
  "kv_opt_str ob key dflt =
     (case ob of
        None \<Rightarrow> dflt
      | Some ob \<Rightarrow> (case find (\<lambda>kv. fst kv = key) (opt_kv ob) of Some kv \<Rightarrow> Some (snd kv) | None \<Rightarrow> dflt))"

definition kv_opt_int :: "kv_options option \<Rightarrow> string \<Rightarrow> int \<Rightarrow> int option" where
  "kv_opt_int ob key dflt =
     (case kv_opt_str ob key None of Some v \<Rightarrow> cfg_parse_size (Some v) dflt | None \<Rightarrow> Some dflt)"

definition kv_opt_all :: "kv_options option \<Rightarrow> string \<Rightarrow> nat \<Rightarrow> string list" where
  "kv_opt_all ob key mx =
     (case ob of
        None \<Rightarrow> []
      | Some ob \<Rightarrow> fold (\<lambda>kv out. if length out < mx \<and> fst kv = key then out @ [snd kv] else out) (opt_kv ob) [])"

definition kv_opt_name :: "kv_options option \<Rightarrow> string" where
  "kv_opt_name ob = (case ob of Some ob \<Rightarrow> opt_name ob | None \<Rightarrow> '''')"

definition kv_opt_count :: "kv_options option \<Rightarrow> nat" where
  "kv_opt_count ob = (case ob of Some ob \<Rightarrow> length (opt_kv ob) | None \<Rightarrow> 0)"

definition kv_opt_key_at :: "kv_options option \<Rightarrow> nat \<Rightarrow> string option" where
  "kv_opt_key_at ob i =
     (case ob of Some ob \<Rightarrow> if i < length (opt_kv ob) then Some (fst (opt_kv ob ! i)) else None | None \<Rightarrow> None)"

definition kv_opt_val_at :: "kv_options option \<Rightarrow> nat \<Rightarrow> string option" where
  "kv_opt_val_at ob i =
     (case ob of Some ob \<Rightarrow> if i < length (opt_kv ob) then Some (snd (opt_kv ob ! i)) else None | None \<Rightarrow> None)"

definition cfg_nsections :: "cfg_file option \<Rightarrow> nat" where
  "cfg_nsections c = (case c of Some c \<Rightarrow> length (cf_s c) | None \<Rightarrow> 0)"

definition cfg_section_at :: "cfg_file option \<Rightarrow> nat \<Rightarrow> kv_options option" where
  "cfg_section_at c i =
     (case c of Some c \<Rightarrow> if i < length (cf_s c) then Some (cf_s c ! i) else None | None \<Rightarrow> None)"

text \<open>
  \<open>cfg_free\<close>: the blocks of memory in the order in which they are given back. A block is named by what points to it; an empty section
  has no entries array (a null pointer, which \<open>free\<close> ignores).
\<close>

datatype cfg_block = FileBlock | SectionsBlock | SectionBlock nat | EntriesBlock nat | KeyBlock nat nat | ValBlock nat nat

definition cfg_free :: "cfg_file option \<Rightarrow> cfg_block list" where
  "cfg_free c =
     (case c of
        None \<Rightarrow> []
      | Some c \<Rightarrow>
          concat (map (\<lambda>i. concat (map (\<lambda>j. [KeyBlock i j, ValBlock i j]) [0..<length (opt_kv (cf_s c ! i))]) @
                           [EntriesBlock i, SectionBlock i]) [0..<length (cf_s c)]) @
          [SectionsBlock, FileBlock])"

subsection \<open>Trimming and comments\<close>

text \<open>A trimmed string that no comment character cuts, also when it follows white space.\<close>

definition clean :: "string \<Rightarrow> bool" where
  "clean s \<longleftrightarrow> (s = [] \<or> \<not> isspace (hd s) \<and> \<not> isspace (last s)) \<and> strip_comment True s = s \<and>
     newline \<notin> set s \<and> CHR 0x00 \<notin> set s"

lemma rtrim_rev_dropWhile: "s \<noteq> [] \<Longrightarrow> \<not> isspace (last s) \<Longrightarrow> rtrim_rev s = dropWhile isspace s"
  by (induction s rule: rtrim_rev.induct) auto

lemma trim_eq: "trim s = rev (dropWhile isspace (rev (dropWhile isspace s)))"
proof (cases "dropWhile isspace s = []")
  case False
  then have "\<not> isspace (hd (dropWhile isspace s))" by (rule hd_dropWhile)
  with False show ?thesis using rtrim_rev_dropWhile [of "rev (dropWhile isspace s)"] by (auto simp: trim_def Let_def last_rev)
next
  case True
  show ?thesis unfolding trim_def Let_def True by simp
qed

lemma dropWhile_spaces: "\<forall>c \<in> set u. isspace c \<Longrightarrow> dropWhile isspace (u @ s) = dropWhile isspace s"
  by (induction u) auto

lemma trim_pad:
  assumes "\<forall>c \<in> set u. isspace c" "\<forall>c \<in> set v. isspace c" "s = [] \<or> \<not> isspace (hd s) \<and> \<not> isspace (last s)"
  shows "trim (u @ s @ v) = s"
proof (cases s)
  case Nil
  have e: "dropWhile isspace (u @ v) = []" using assms(1,2) by (simp only: dropWhile_eq_Nil_conv set_append) blast
  show ?thesis unfolding trim_eq Nil append_Nil e by simp
next
  case (Cons c cs)
  then have "dropWhile isspace (u @ s @ v) = s @ v" using assms dropWhile_spaces [of u "s @ v"] by simp
  moreover have "dropWhile isspace (rev v @ rev s) = rev s"
    using assms(2,3) Cons dropWhile_spaces [of "rev v" "rev s"] by (cases "rev s") (auto simp: last_conv_nth hd_rev [symmetric])
  ultimately show ?thesis by (simp add: trim_eq)
qed

lemma strip_comment_append:
  "strip_comment st xs = xs \<Longrightarrow> strip_comment st (xs @ ys) = xs @ strip_comment (if xs = [] then st else isspace (last xs)) ys"
  by (induction xs arbitrary: st) (auto split: if_splits)

lemma strip_comment_mono: "strip_comment True s = s \<Longrightarrow> strip_comment st s = s"
  by (cases s) (auto split: if_splits)

subsection \<open>Reading one rendered line\<close>

text \<open>The lines \<open>save_config\<close> writes for a section: a header and one entry per option.\<close>

definition header_line :: "string \<Rightarrow> string" where
  "header_line n = ''['' @ n @ '']'' @ [newline]"

definition entry_line :: "string \<times> string \<Rightarrow> string" where
  "entry_line kv = fst kv @ '' = '' @ snd kv @ [newline]"

definition name_ok :: "string \<Rightarrow> bool" where
  "name_ok n \<longleftrightarrow> clean n \<and> length n < 64 \<and> CHR '']'' \<notin> set n \<and> strip_comment False n = n"

definition key_ok :: "string \<Rightarrow> bool" where
  "key_ok k \<longleftrightarrow> clean k \<and> k \<noteq> [] \<and> hd k \<noteq> CHR ''['' \<and> CHR ''='' \<notin> set k"

definition entry_ok :: "string \<times> string \<Rightarrow> bool" where
  "entry_ok kv \<longleftrightarrow> key_ok (fst kv) \<and> clean (snd kv) \<and> length (entry_line kv) < 1024"

lemma isspace_simps [simp]: "isspace (CHR '' '')" "isspace newline" "\<not> isspace (CHR ''['')" "\<not> isspace (CHR '']'')" "\<not> isspace (CHR ''='')"
  by (simp_all add: isspace_def)

lemma cleanD:
  assumes "clean s"
  shows "strip_comment st s = s" "CHR 0x00 \<notin> set s" "newline \<notin> set s"
  using assms strip_comment_mono [of s st] by (auto simp: clean_def)

lemma trim_clean: "clean s \<Longrightarrow> \<forall>c \<in> set u. isspace c \<Longrightarrow> \<forall>c \<in> set v. isspace c \<Longrightarrow> trim (u @ s @ v) = s"
  by (rule trim_pad) (auto simp: clean_def)

lemma c_str_id: "CHR 0x00 \<notin> set s \<Longrightarrow> c_str s = s"
  by (auto simp: c_str_def takeWhile_eq_all_conv)

lemma cfg_line_header:
  assumes "name_ok n"
  shows "cfg_line (c, cur) (header_line n) = file_section c n"
proof -
  have n: "clean n" "CHR '']'' \<notin> set n" using assms by (simp_all add: name_ok_def)
  have z: "c_str (header_line n) = header_line n" using cleanD(2) [OF n(1)] by (intro c_str_id) (simp add: header_line_def)
  have "strip_comment True (header_line n) = header_line n"
    using strip_comment_append [OF cleanD(1) [OF n(1), of False], of "'']'' @ [newline]"] by (simp add: header_line_def)
  moreover have "trim (header_line n) = ''['' @ n @ '']''"
    using trim_pad [of "[]" "[newline]" "''['' @ n @ '']''"] by (simp add: header_line_def)
  moreover have "takeWhile (\<lambda>x. x \<noteq> CHR '']'') (n @ '']'') = n" using n(2) by (auto simp: takeWhile_append)
  moreover have "trim n = n" using trim_clean [OF n(1), of "[]" "[]"] by simp
  ultimately show ?thesis by (simp add: cfg_line_def z Let_def)
qed

lemma strip_spaces: "strip_comment st (replicate j (CHR '' '')) = replicate j (CHR '' '')"
  by (induction j arbitrary: st) auto

text \<open>The key may be padded with blanks before the equals sign.\<close>

lemma cfg_line_padded:
  assumes "key_ok k" "clean v" "u = replicate j (CHR '' '')"
  shows "cfg_line (c, cur) (k @ u @ '' = '' @ v @ [newline]) = (c\<lparr>cf_s := (cf_s c)[cur := section_add (cf_s c ! cur) k v]\<rparr>, cur)"
proof -
  have k: "clean k" "k \<noteq> []" "hd k \<noteq> CHR ''[''" "CHR ''='' \<notin> set k" and v: "clean v"
    using assms by (simp_all add: key_ok_def)
  have u: "CHR ''='' \<notin> set u" "CHR 0x00 \<notin> set u" "\<forall>c \<in> set u. isspace c" using assms(3) by (simp_all add: isspace_def)
  let ?l = "k @ u @ '' = '' @ v @ [newline]"
  have z: "c_str ?l = ?l" using cleanD(2) [OF k(1)] cleanD(2) [OF v] u(2) by (intro c_str_id) simp
  have sv: "strip_comment True (v @ [newline]) = v @ [newline]"
    using strip_comment_append [OF cleanD(1) [OF v, of True], of "[newline]"] by simp
  have su: "strip_comment b (u @ '' = '' @ v @ [newline]) = u @ '' = '' @ v @ [newline]" for b
    using strip_comment_append [OF strip_spaces [of b j], of "'' = '' @ v @ [newline]"] sv by (simp add: assms(3))
  have st: "strip_comment True ?l = ?l"
    using strip_comment_append [OF cleanD(1) [OF k(1), of True], of "u @ '' = '' @ v @ [newline]"] su by simp
  define s where "s = (if v = [] then k @ u @ '' ='' else k @ u @ '' = '' @ v)"
  have ks: "\<not> isspace (hd k)" "\<not> isspace (last k)" "v = [] \<or> \<not> isspace (last v)"
    using k(1,2) v by (auto simp: clean_def)
  have tr: "trim ?l = s"
  proof (cases "v = []")
    case True
    then show ?thesis using trim_pad [of "[]" "'' '' @ [newline]" s] k(2) ks by (simp add: s_def)
  next
    case False
    then show ?thesis using trim_pad [of "[]" "[newline]" s] k(2) ks by (simp add: s_def)
  qed
  have s: "s \<noteq> []" "hd s \<noteq> CHR ''[''" "CHR ''='' \<in> set s" using k(2,3) by (simp_all add: s_def)
  have split: "k @ u @ '' = '' @ v = (k @ u @ '' '') @ ''= '' @ v" "k @ u @ '' ='' = (k @ u @ '' '') @ ''=''" by simp_all
  have "\<forall>x \<in> set (k @ u @ '' ''). x \<noteq> CHR ''=''" using k(4) u(1) by auto
  note pre = this
  have tw: "takeWhile (\<lambda>x. x \<noteq> CHR ''='') s = k @ u @ '' ''"
    unfolding s_def split using pre by (simp only: takeWhile_append2 if_distrib) (simp)
  have dw: "dropWhile (\<lambda>x. x \<noteq> CHR ''='') s = (if v = [] then ''='' else ''= '' @ v)"
    unfolding s_def split using pre by (simp only: dropWhile_append2 if_distrib) (simp)
  have "trim (k @ u @ '' '') = k" using trim_clean [OF k(1), of "[]" "u @ '' ''"] u(3) by simp
  moreover have "trim (tl (if v = [] then ''='' else ''= '' @ v)) = v"
    using trim_clean [OF v, of "'' ''" "[]"] by (simp add: trim_def)
  ultimately show ?thesis by (simp only: cfg_line_def z st tr tw dw Let_def prod.case s if_False if_True) (simp add: s)
qed

lemma cfg_line_entry:
  assumes "entry_ok (k, v)"
  shows "cfg_line (c, cur) (entry_line (k, v)) = (c\<lparr>cf_s := (cf_s c)[cur := section_add (cf_s c ! cur) k v]\<rparr>, cur)"
  using cfg_line_padded [of k v "[]" 0] assms by (simp add: entry_ok_def entry_line_def)

subsection \<open>Reading a rendered file\<close>

lemma fgets_all_line:
  assumes "newline \<notin> set l" "length l < 1023"
  shows "fgets_all (l @ newline # r) = (l @ [newline]) # fgets_all r"
proof -
  have "fgets 1024 (l @ newline # r) = (l @ [newline], r)"
    using assms by (auto simp: fgets_def Let_def takeWhile_append dropWhile_append)
  then show ?thesis by (subst fgets_all.simps) simp
qed

definition render_section :: "string \<times> (string \<times> string) list \<Rightarrow> string" where
  "render_section s = header_line (fst s) @ concat (map entry_line (snd s))"

definition section_lines :: "string \<times> (string \<times> string) list \<Rightarrow> string list" where
  "section_lines s = header_line (fst s) # map entry_line (snd s)"

lemma fgets_all_entries:
  "\<forall>kv \<in> set kvs. entry_ok kv \<Longrightarrow> fgets_all (concat (map entry_line kvs) @ r) = map entry_line kvs @ fgets_all r"
proof (induction kvs)
  case (Cons kv kvs)
  have "newline \<notin> set (fst kv @ '' = '' @ snd kv)" "length (fst kv @ '' = '' @ snd kv) < 1023"
    using Cons.prems by (auto simp: entry_ok_def key_ok_def clean_def entry_line_def)
  from fgets_all_line [OF this, of "concat (map entry_line kvs) @ r"] show ?case
    using Cons by (simp add: entry_line_def [of kv])
qed simp

lemma fgets_all_sections:
  "\<forall>s \<in> set secs. name_ok (fst s) \<and> (\<forall>kv \<in> set (snd s). entry_ok kv) \<Longrightarrow>
   fgets_all (concat (map render_section secs)) = concat (map section_lines secs)"
proof (induction secs)
  case Nil
  then show ?case by (simp add: fgets_all.simps)
next
  case (Cons s secs)
  have "newline \<notin> set (''['' @ fst s @ '']'')" "length (''['' @ fst s @ '']'') < 1023"
    using Cons.prems by (auto simp: name_ok_def clean_def)
  from fgets_all_line [OF this] have "fgets_all (header_line (fst s) @ r) = header_line (fst s) # fgets_all r" for r
    by (simp add: header_line_def)
  then show ?case using Cons fgets_all_entries [of "snd s"] by (simp add: render_section_def section_lines_def)
qed

definition cfg_view :: "cfg_file \<Rightarrow> (string \<times> (string \<times> string) list) list" where
  "cfg_view c = map (\<lambda>s. (opt_name s, opt_kv s)) (cf_s c)"

lemma find_name_None: "n \<notin> fst ` set (cfg_view c) \<Longrightarrow> find_name n (cf_s c) i = None"
proof -
  have "n \<notin> opt_name ` set os \<Longrightarrow> find_name n os i = None" for os by (induction os arbitrary: i) auto
  moreover assume "n \<notin> fst ` set (cfg_view c)"
  ultimately show ?thesis by (auto simp: cfg_view_def image_image)
qed

lemma fold_entries:
  assumes "\<forall>kv \<in> set kvs. entry_ok kv" "cfg_view c = pre @ (n, l) # post" "cur = length pre"
  shows "\<exists>c'. fold (\<lambda>line st. cfg_line st line) (map entry_line kvs) (c, cur) = (c', cur) \<and> cfg_view c' = pre @ (n, l @ kvs) # post"
  using assms(1,2)
proof (induction kvs arbitrary: c l)
  case (Cons kv kvs)
  obtain k v where kv: "kv = (k, v)" by fastforce
  let ?c = "c\<lparr>cf_s := (cf_s c)[cur := section_add (cf_s c ! cur) k v]\<rparr>"
  have len: "cur < length (cf_s c)" using arg_cong [OF Cons.prems(2), of length] assms(3) by (simp add: cfg_view_def)
  have "(opt_name (cf_s c ! cur), opt_kv (cf_s c ! cur)) = cfg_view c ! cur" using len by (simp add: cfg_view_def)
  then have at: "opt_name (cf_s c ! cur) = n" "opt_kv (cf_s c ! cur) = l" using Cons.prems(2) assms(3) by (simp_all add: nth_append)
  have "cfg_view ?c = (cfg_view c)[cur := (n, l @ [(k, v)])]"
    using at by (simp add: cfg_view_def map_update section_add_def)
  also have "\<dots> = pre @ (n, l @ [(k, v)]) # post" using Cons.prems(2) assms(3) by (simp add: list_update_append)
  finally have "\<exists>c'. fold (\<lambda>line st. cfg_line st line) (map entry_line kvs) (?c, cur) = (c', cur) \<and> cfg_view c' = pre @ (n, (l @ [(k, v)]) @ kvs) # post"
    using Cons.prems(1) by (intro Cons.IH) auto
  moreover have "cfg_line (c, cur) (entry_line kv) = (?c, cur)"
    using Cons.prems(1) cfg_line_entry unfolding kv by auto
  ultimately show ?case by (auto simp: kv)
qed auto

lemma fold_section_new:
  assumes "name_ok n" "\<forall>kv \<in> set kvs. entry_ok kv" "n \<notin> fst ` set (cfg_view c)"
  shows "\<exists>c' i. fold (\<lambda>line st. cfg_line st line) (section_lines (n, kvs)) (c, cur) = (c', i) \<and> cfg_view c' = cfg_view c @ [(n, kvs)]"
proof -
  obtain c1 where c1: "file_section c n = (c1, length (cfg_view c))" "cfg_view c1 = cfg_view c @ [(n, [])]"
    using find_name_None [OF assms(3), of 0] assms(1)
    by (auto simp: file_section_def cfg_view_def section_new_def snprintf_def name_ok_def)
  have "cfg_line (c, cur) (header_line n) = (c1, length (cfg_view c))" using cfg_line_header [OF assms(1)] c1(1) by simp
  moreover obtain c' where "fold (\<lambda>line st. cfg_line st line) (map entry_line kvs) (c1, length (cfg_view c)) = (c', length (cfg_view c))"
    "cfg_view c' = cfg_view c @ [(n, kvs)]"
    using fold_entries [OF assms(2), of c1 "cfg_view c" n "[]" "[]"] c1(2) by auto
  ultimately show ?thesis by (simp add: section_lines_def)
qed

lemma fold_sections:
  assumes "\<forall>s \<in> set secs. name_ok (fst s) \<and> (\<forall>kv \<in> set (snd s). entry_ok kv)"
    and "distinct (map fst secs)" "fst ` set secs \<inter> fst ` set (cfg_view c) = {}"
  shows "\<exists>c' i. fold (\<lambda>line st. cfg_line st line) (concat (map section_lines secs)) (c, cur) = (c', i) \<and>
           cfg_view c' = cfg_view c @ secs"
  using assms
proof (induction secs arbitrary: c cur)
  case (Cons s secs)
  obtain n kvs where s: "s = (n, kvs)" by fastforce
  obtain c1 i where c1: "fold (\<lambda>line st. cfg_line st line) (section_lines (n, kvs)) (c, cur) = (c1, i)"
      "cfg_view c1 = cfg_view c @ [(n, kvs)]"
    using fold_section_new [of n kvs c cur] Cons.prems by (auto simp: s)
  moreover have "\<exists>c' j. fold (\<lambda>line st. cfg_line st line) (concat (map section_lines secs)) (c1, i) = (c', j) \<and>
      cfg_view c' = cfg_view c1 @ secs"
    using Cons.prems c1(2) by (intro Cons.IH) (auto simp: s)
  ultimately show ?case by (auto simp: s)
qed auto

subsection \<open>Sizes\<close>

definition suffix_bits :: "string \<Rightarrow> nat option" where
  "suffix_bits sfx = map_of [([], 0), (''K'', 10), (''k'', 10), (''M'', 20), (''m'', 20),
     (''G'', 30), (''g'', 30), (''T'', 40), (''t'', 40)] sfx"

lemma toupper_suffix [simp]:
  "toupper (CHR ''K'') = CHR ''K''" "toupper (CHR ''k'') = CHR ''K''" "toupper (CHR ''M'') = CHR ''M''" "toupper (CHR ''m'') = CHR ''M''"
  "toupper (CHR ''G'') = CHR ''G''" "toupper (CHR ''g'') = CHR ''G''" "toupper (CHR ''T'') = CHR ''T''" "toupper (CHR ''t'') = CHR ''T''"
  "toupper (CHR ''y'') = CHR ''Y''"
  by code_simp+

lemma suffix_cases:
  assumes "suffix_bits sfx = Some b"
  shows "ends_number sfx" and "dropWhile isspace sfx = sfx"
    and "size_mult (case sfx of [] \<Rightarrow> None | c # _ \<Rightarrow> Some c) = Some (2 ^ b)"
  using assms
  by (auto simp: suffix_bits_def ends_number_def isdigit_def isspace_def size_mult_def split: if_splits)

lemma trunc_of_int [simp]: "trunc_double (of_int n) = n"
  by (simp add: trunc_double_def)

lemma parse_shown_size:
  assumes "n < 2 ^ 53" "suffix_bits sfx = Some b" "int n * 2 ^ b \<le> LONG_MAX"
  shows "cfg_parse_size (Some (show_nat n @ sfx)) d = Some (int n * 2 ^ b)"
proof -
  note s = suffix_cases [OF assms(2)]
  have "int_to_double (2 ^ b) = 2 ^ b" using rnd_pow2 [of b 1] rnd_of_nat [of 1] by (simp add: int_to_double_def)
  moreover have "rnd (of_nat n * 2 ^ b) = 2 ^ b * of_nat n"
    using rnd_pow2 [of b "of_nat n"] rnd_of_nat [OF assms(1)] by (simp add: mult.commute)
  ultimately have "dmul (rnd (of_nat n)) (int_to_double (2 ^ b)) = of_int (int n * 2 ^ b)"
    using rnd_of_nat [OF assms(1)] by (simp add: dmul_def)
  then have t: "trunc_double (dmul (rnd (of_nat n)) (int_to_double (2 ^ b))) = int n * 2 ^ b" by (simp only: trunc_of_int)
  have "LONG_MIN \<le> int n * 2 ^ b" by (rule order_trans [of _ 0]) simp_all
  then show ?thesis
    using strtod_show_nat [OF s(1), of n] s(2,3) assms(3) by (simp add: cfg_parse_size_def Let_def t)
qed

subsection \<open>Lookups\<close>

lemma find_append_one: "find P (xs @ [x]) = (case find P xs of None \<Rightarrow> if P x then Some x else None | Some y \<Rightarrow> Some y)"
  by (induction xs) auto

lemma fold_collect:
  "length out \<le> mx \<Longrightarrow> fold (\<lambda>kv out. if length out < mx \<and> fst kv = key then out @ [snd kv] else out) kvs out =
     out @ take (mx - length out) (map snd (filter (\<lambda>kv. fst kv = key) kvs))"
proof (induction kvs arbitrary: out)
  case (Cons kv kvs)
  show ?case
  proof (cases "length out < mx \<and> fst kv = key")
    case True
    then have "mx - length out = Suc (mx - Suc (length out))" by (simp add: Suc_diff_Suc)
    then show ?thesis using True Cons.IH [of "out @ [snd kv]"] by simp
  next
    case False
    then show ?thesis using Cons by auto
  qed
qed simp

subsection \<open>Releasing\<close>

lemma distinct_concat_blocks:
  assumes "\<And>i. distinct (f i)" "\<And>i j x. x \<in> set (f i) \<Longrightarrow> x \<in> set (f j) \<Longrightarrow> i = j"
  shows "distinct (concat (map f [0..<n]))"
proof (induction n)
  case (Suc n)
  have "x \<notin> set (f n)" if "x \<in> set (concat (map f [0..<n]))" for x
  proof
    note x = that
    assume n: "x \<in> set (f n)"
    obtain i where "i < n" "x \<in> set (f i)" using x by auto
    then show False using assms(2) [OF _ n] by blast
  qed
  then have "set (concat (map f [0..<n])) \<inter> set (f n) = {}" by blast
  then show ?case using Suc assms(1) by simp
qed simp

text \<open>Every block of the configuration is released, and none twice.\<close>

lemma cfg_free_once: "distinct (cfg_free c)"
proof (cases c)
  case (Some c)
  let ?entries = "\<lambda>i. concat (map (\<lambda>j. [KeyBlock i j, ValBlock i j]) [0..<length (opt_kv (cf_s c ! i))])"
  have "distinct (?entries i)" for i by (rule distinct_concat_blocks) auto
  then have "distinct (concat (map (\<lambda>i. ?entries i @ [EntriesBlock i, SectionBlock i]) [0..<length (cf_s c)]))"
    by (intro distinct_concat_blocks) auto
  then show ?thesis by (auto simp: cfg_free_def Some)
qed (simp add: cfg_free_def)

lemma cfg_free_all:
  "set (cfg_free (Some c)) = {FileBlock, SectionsBlock} \<union> (\<Union>i < length (cf_s c). {EntriesBlock i, SectionBlock i} \<union>
     (\<Union>j < length (opt_kv (cf_s c ! i)). {KeyBlock i j, ValBlock i j}))"
  by (force simp: cfg_free_def)

subsection \<open>Properties\<close>

text \<open>
  C18. Reading back a written configuration: for sections with distinct names, \<open>bench\<close> first, whose names,
  keys and values are trimmed, contain no comment, bracket or equals sign where the syntax
  would see it and fit the line buffer, loading the rendered file succeeds and returns
  exactly those sections, each with its entries in order.
\<close>

theorem cfg_load_rendered:
  assumes "secs = (''bench'', kvs) # rest" "distinct (map fst secs)"
    and "\<forall>s \<in> set secs. name_ok (fst s) \<and> (\<forall>kv \<in> set (snd s). entry_ok kv)"
  shows "\<exists>c. cfg_load (Some (concat (map render_section secs))) = (0, Some c) \<and> cfg_view c = secs"
proof -
  let ?f = "\<lambda>line st. cfg_line st line"
  obtain c0 where c0: "file_section \<lparr>cf_s = [], cf_cap = 0\<rparr> ''bench'' = (c0, 0)" "cfg_view c0 = [(''bench'', [])]"
      "file_section c0 ''bench'' = (c0, 0)"
    by (auto simp: file_section_def cfg_view_def section_new_def snprintf_def)
  have "name_ok ''bench''" using assms(1,3) by simp
  then have h: "cfg_line (c0, 0) (header_line ''bench'') = (c0, 0)" using cfg_line_header c0(3) by simp
  obtain c1 where c1: "fold ?f (map entry_line kvs) (c0, 0) = (c1, 0)" "cfg_view c1 = [(''bench'', kvs)]"
    using fold_entries [of kvs c0 "[]" "''bench''" "[]" "[]" 0] assms(1,3) c0(2) by auto
  obtain c2 i where c2: "fold ?f (concat (map section_lines rest)) (c1, 0) = (c2, i)" "cfg_view c2 = cfg_view c1 @ rest"
    using fold_sections [of rest c1 0] assms c1(2) by auto
  have "fgets_all (concat (map render_section secs)) = section_lines (''bench'', kvs) @ concat (map section_lines rest)"
    using fgets_all_sections [OF assms(3)] assms(1) by simp
  then have "fold ?f (fgets_all (concat (map render_section secs))) (c0, 0) = (c2, i)"
    using h c1(1) c2(1) by (simp add: section_lines_def)
  then show ?thesis using c0(1) c1(2) c2(2) assms(1) by (simp add: cfg_load_def)
qed

theorem cfg_load_rendered_witness:
  "\<exists>c. cfg_load (Some (concat (map render_section [(''bench'', [(''ops'', ''5'')]), (''rocksdb'', [(''a'', ''x;y'')])]))) = (0, Some c) \<and>
     cfg_view c = [(''bench'', [(''ops'', ''5'')]), (''rocksdb'', [(''a'', ''x;y'')])]"
  by (rule cfg_load_rendered [OF refl])
    (simp_all add: name_ok_def entry_ok_def key_ok_def clean_def entry_line_def isspace_def)

text \<open>
  A size written in decimal with an optional binary suffix in either case reads back exactly when the number is
  below \<open>2 ^ 53\<close> and the product fits a \<open>long long\<close>.
\<close>

theorem cfg_size_reads_back:
  assumes "n < 2 ^ 53" "suffix_bits sfx = Some b" "int n * 2 ^ b \<le> LONG_MAX"
  shows "cfg_parse_size (Some (show_nat n @ sfx)) d = Some (int n * 2 ^ b)"
  using assms by (rule parse_shown_size)

theorem cfg_size_reads_back_witness: "cfg_parse_size (Some (show_nat 64 @ ''m'')) 0 = Some 67108864"
  using cfg_size_reads_back [of 64 "''m''" 20 0] by (simp add: suffix_bits_def)

text \<open>
  A value without any number is not rejected when it starts with a suffix letter: \<open>true\<close> reads as 0 and not
  as the default, and letters after the suffix are ignored, so \<open>64MB\<close> reads as 64 MiB. A value that starts
  with another letter does give the default.
\<close>

theorem cfg_size_accepts_words:
  "cfg_parse_size (Some ''true'') d = Some 0 \<and> cfg_parse_size (Some ''64MB'') d = Some (64 * 2 ^ 20) \<and>
   cfg_parse_size (Some ''yes'') d = Some d"
proof -
  have "strtod ''true'' = (Some 0, ''true'')" "strtod ''yes'' = (Some 0, ''yes'')" by code_simp+
  moreover have "size_mult (Some (CHR ''t'')) = Some (2 ^ 40)" "size_mult (Some (CHR ''y'')) = None"
      "size_mult (Some (CHR ''M'')) = Some (2 ^ 20)"
    by (simp_all add: size_mult_def)
  moreover have "strtod ''64MB'' = (Some 64, ''MB'')"
  proof -
    have "show_nat 64 = ''64''" by code_simp
    moreover have "ends_number ''MB''" by (simp add: ends_number_def isdigit_def)
    ultimately show ?thesis using strtod_show_nat [of "''MB''" 64] rnd_of_nat [of 64] by simp
  qed
  moreover have "dmul 64 (int_to_double (2 ^ 20)) = of_int (64 * 2 ^ 20)"
    using rnd_of_int [of "64 * 2 ^ 20"] rnd_of_int [of "2 ^ 20"] by (simp add: dmul_def int_to_double_def)
  ultimately show ?thesis
    by (simp add: cfg_parse_size_def isspace_def dmul_def trunc_double_def)
qed

text \<open>
  The first value given for a key wins: adding an entry changes the lookup of its key only if
  the key was not set before, and no other lookup. The list of all values of a key keeps the order of
  the file and is cut at the size of the caller's array, and the arrays never overflow their capacity.
\<close>

theorem first_option_wins:
  assumes "length (opt_kv ob) \<le> opt_cap ob"
  shows "kv_opt_str (Some (section_add ob k v)) key d =
      (if key = k \<and> key \<notin> fst ` set (opt_kv ob) then Some v else kv_opt_str (Some ob) key d) \<and>
    kv_opt_all (Some (section_add ob k v)) key mx =
      take mx (map snd (filter (\<lambda>kv. fst kv = key) (opt_kv ob @ [(k, v)]))) \<and>
    length (opt_kv (section_add ob k v)) \<le> opt_cap (section_add ob k v)"
proof (intro conjI)
  show "kv_opt_str (Some (section_add ob k v)) key d =
      (if key = k \<and> key \<notin> fst ` set (opt_kv ob) then Some v else kv_opt_str (Some ob) key d)"
  proof (cases "find (\<lambda>kv. fst kv = key) (opt_kv ob)")
    case None
    then have "key \<notin> fst ` set (opt_kv ob)" by (auto simp: find_None_iff)
    with None show ?thesis by (simp add: kv_opt_str_def section_add_def find_append_one)
  next
    case (Some kv)
    then have "key \<in> fst ` set (opt_kv ob)" by (auto simp: find_Some_iff)
    with Some show ?thesis by (simp add: kv_opt_str_def section_add_def find_append_one)
  qed
  show "kv_opt_all (Some (section_add ob k v)) key mx =
      take mx (map snd (filter (\<lambda>kv. fst kv = key) (opt_kv ob @ [(k, v)])))"
    using fold_collect [of "[]" mx key "opt_kv ob @ [(k, v)]"] by (simp add: kv_opt_all_def section_add_def)
  show "length (opt_kv (section_add ob k v)) \<le> opt_cap (section_add ob k v)"
    using assms by (simp add: section_add_def grow_def)
qed

theorem first_option_wins_witness:
  "kv_opt_str (Some (section_add (section_add (section_new ''a'') ''k'' ''1'') ''k'' ''2'')) ''k'' None = Some ''1''"
  using first_option_wins [of "section_add (section_new ''a'') ''k'' ''1''" "''k''" "''2''" "''k''" None 1]
  by (simp add: section_add_def section_new_def grow_def kv_opt_str_def)

end
