(* ===== verification/KB_Registry.thy ===== *)
theory KB_Registry
  imports KB_Store
begin

text \<open>
  The fixed-size registries that constructors fill at start-up: the engines of \<open>src/src/registry.c\<close> and the
  probes of \<open>src/src/probe.c\<close>. Both are arrays of 32 entries searched by name from the front, so what a client
  may rely on is one locale, \<open>named_registry\<close>, interpreted on both.
\<close>

subsection \<open>The interface of a registry\<close>

locale named_registry =
  fixes entries :: "'s \<Rightarrow> 'e list" and name_of :: "'e \<Rightarrow> string" and register :: "'s \<Rightarrow> 'e \<Rightarrow> 's"
    and lookup :: "'s \<Rightarrow> string \<Rightarrow> 'e option" and cap :: nat
  assumes register_law: "entries (register s e) = (if length (entries s) < cap then entries s @ [e] else entries s)"
    and lookup_law: "lookup s n = find (\<lambda>e. name_of e = n) (entries s)"
begin

lemma register_all:
  "length (entries s) \<le> cap \<Longrightarrow> entries (fold (\<lambda>e s. register s e) es s) = take cap (entries s @ es)"
proof (induction es arbitrary: s)
  case (Cons e es)
  show ?case
  proof (cases "length (entries s) < cap")
    case True
    then show ?thesis using Cons.IH [of "register s e"] by (simp add: register_law)
  next
    case False
    then show ?thesis using Cons.IH [of "register s e"] Cons.prems by (simp add: register_law)
  qed
qed simp

lemma lookup_register:
  "lookup (register s e) n =
     (case lookup s n of Some x \<Rightarrow> Some x | None \<Rightarrow> if name_of e = n \<and> length (entries s) < cap then Some e else None)"
proof -
  have "find P (xs @ [x]) = (case find P xs of None \<Rightarrow> if P x then Some x else None | Some y \<Rightarrow> Some y)" for P xs and x :: 'e
    by (induction xs) auto
  then show ?thesis by (auto simp: lookup_law register_law split: option.split)
qed

lemma lookup_named: "lookup s n = Some e \<Longrightarrow> name_of e = n \<and> e \<in> set (entries s)"
  by (auto simp: lookup_law find_Some_iff)

end

subsection \<open>Engines\<close>

abbreviation MAX_BACKENDS :: nat where "MAX_BACKENDS \<equiv> 32"

record ('c, 'o, 'a) backend_entry =
  ent_name :: string
  ent_open :: "u32 \<Rightarrow> string option \<Rightarrow> 'o \<Rightarrow> ('c, 'a) kv_backend"
  ent_persistent :: bool

type_synonym ('c, 'o, 'a) backends = "('c, 'o, 'a) backend_entry list"

definition backend_register :: "('c, 'o, 'a) backends \<Rightarrow> ('c, 'o, 'a) backend_entry \<Rightarrow> ('c, 'o, 'a) backends" where
  "backend_register g e = (if length g \<ge> MAX_BACKENDS then g else g @ [e])"

definition DEFAULT_BACKEND :: string where "DEFAULT_BACKEND = ''skiplist''"

definition backend_find :: "('c, 'o, 'a) backends \<Rightarrow> string option \<Rightarrow> ('c, 'o, 'a) backend_entry option" where
  "backend_find g name =
     (let want_default = (name = None); n = (case name of None \<Rightarrow> DEFAULT_BACKEND | Some n \<Rightarrow> n)
      in case find (\<lambda>e. ent_name e = n) g of
           Some e \<Rightarrow> Some e
         | None \<Rightarrow> if want_default \<and> length g > 0 then Some (g ! 0) else None)"

definition backend_count :: "('c, 'o, 'a) backends \<Rightarrow> nat" where
  "backend_count g = length g"

text \<open>\<open>None\<close> beyond the registered entries: the code returns the address of an unset entry there.\<close>

definition backend_at :: "('c, 'o, 'a) backends \<Rightarrow> nat \<Rightarrow> ('c, 'o, 'a) backend_entry option" where
  "backend_at g i = (if i < length g then Some (g ! i) else None)"

text \<open>\<open>list_backends\<close> of \<open>src/src/main.c\<close>.\<close>

definition list_backends :: "('c, 'o, 'a) backends \<Rightarrow> string" where
  "list_backends g = concat (map (\<lambda>i. (if i \<noteq> 0 then '', '' else []) @ ent_name (g ! i)) [0..<length g])"

interpretation backends: named_registry "\<lambda>g. g" ent_name backend_register "\<lambda>g n. backend_find g (Some n)" MAX_BACKENDS
  by unfold_locales (auto simp: backend_register_def backend_find_def split: option.split)

subsection \<open>Probes\<close>

abbreviation MAX_PROBES :: nat where "MAX_PROBES \<equiv> 32"

text \<open>The callbacks of a probe are the list of calls they make.\<close>

record probe =
  p_name :: string
  p_info :: "(string \<times> string) list option"
  p_sample :: "(string \<times> double) list option"

record probes =
  g_all :: "probe list"
  g_sel :: "probe list"
  g_data_dir :: string

definition probes_init :: probes where
  "probes_init = \<lparr>g_all = [], g_sel = [], g_data_dir = ''/tmp''\<rparr>"

definition probe_set_data_dir :: "probes \<Rightarrow> string option \<Rightarrow> probes" where
  "probe_set_data_dir g dir =
     (case dir of Some d \<Rightarrow> if d \<noteq> [] then g\<lparr>g_data_dir := d\<rparr> else g | None \<Rightarrow> g)"

definition probe_data_dir :: "probes \<Rightarrow> string" where
  "probe_data_dir g = g_data_dir g"

definition probe_register :: "probes \<Rightarrow> probe \<Rightarrow> probes" where
  "probe_register g p = (if length (g_all g) < MAX_PROBES then g\<lparr>g_all := g_all g @ [p]\<rparr> else g)"

definition probe_find :: "probes \<Rightarrow> string \<Rightarrow> probe option" where
  "probe_find g name = find (\<lambda>p. p_name p = name) (g_all g)"

definition probe_count :: "probes \<Rightarrow> nat" where
  "probe_count g = length (g_all g)"

definition probe_at :: "probes \<Rightarrow> int \<Rightarrow> probe option" where
  "probe_at g i = (if 0 \<le> i \<and> i < int (length (g_all g)) then Some (g_all g ! nat i) else None)"

definition probe_select_all :: "probes \<Rightarrow> probes" where
  "probe_select_all g = g\<lparr>g_sel := g_all g\<rparr>"

definition probe_select_none :: "probes \<Rightarrow> probes" where
  "probe_select_none g = g\<lparr>g_sel := []\<rparr>"

definition probe_select :: "probes \<Rightarrow> string \<Rightarrow> int \<times> probes" where
  "probe_select g name =
     (case probe_find g name of
        None \<Rightarrow> (- 1, g)
      | Some p \<Rightarrow> (0, if length (g_sel g) < MAX_PROBES then g\<lparr>g_sel := g_sel g @ [p]\<rparr> else g))"

definition probe_selected_count :: "probes \<Rightarrow> nat" where
  "probe_selected_count g = length (g_sel g)"

definition probe_selected_at :: "probes \<Rightarrow> int \<Rightarrow> probe option" where
  "probe_selected_at g i = (if 0 \<le> i \<and> i < int (length (g_sel g)) then Some (g_sel g ! nat i) else None)"

interpretation probes: named_registry g_all p_name probe_register probe_find MAX_PROBES
  by unfold_locales (auto simp: probe_register_def probe_find_def)

text \<open>
  The selection of probes in \<open>main\<close>: all without \<open>--probe\<close>, none for \<open>none\<close>, otherwise each name of the list;
  unknown names are skipped with a message.
\<close>

fun select_probes :: "probes \<Rightarrow> string list \<Rightarrow> string list \<times> probes" where
  "select_probes g [] = ([], g)"
| "select_probes g (t # ts) =
     (let (rc, g) = probe_select g t; (msgs, g) = select_probes g ts in ((if rc \<noteq> 0 then [t] else []) @ msgs, g))"

text \<open>What holds of every state of the probes between calls.\<close>

definition probes_ok :: "probes \<Rightarrow> bool" where
  "probes_ok g \<longleftrightarrow> set (g_sel g) \<subseteq> set (g_all g) \<and> length (g_all g) \<le> MAX_PROBES \<and> length (g_sel g) \<le> MAX_PROBES"

lemma probe_select_ok: "probes_ok g \<Longrightarrow> probes_ok (snd (probe_select g n))"
  using probes.lookup_named [of g n] by (auto simp: probes_ok_def probe_select_def split: option.splits)

lemma select_probes_effect:
  "length (g_sel g) + length ts \<le> MAX_PROBES \<Longrightarrow>
   select_probes g ts =
     (filter (\<lambda>t. probe_find g t = None) ts, g\<lparr>g_sel := g_sel g @ map (\<lambda>t. the (probe_find g t)) (filter (\<lambda>t. probe_find g t \<noteq> None) ts)\<rparr>)"
proof (induction ts arbitrary: g)
  case (Cons t ts)
  show ?case
  proof (cases "probe_find g t")
    case None
    then show ?thesis using Cons by (simp add: probe_select_def)
  next
    case (Some p)
    have "probe_find (g\<lparr>g_sel := g_sel g @ [p]\<rparr>) = probe_find g" by (simp add: fun_eq_iff probe_find_def)
    then show ?thesis using Some Cons.IH [of "g\<lparr>g_sel := g_sel g @ [p]\<rparr>"] Cons.prems by (simp add: probe_select_def)
  qed
qed simp

subsection \<open>Properties\<close>

text \<open>
  The engine registry after any sequence of registrations: it holds the first 32 of them in order, a
  lookup returns the first entry of that name or nothing, and without a name it falls back from
  the default engine to the first one registered, so it fails only when no engine is registered.
\<close>

theorem backend_registry_lookup:
  "(let g = fold (\<lambda>e g. backend_register g e) es [] in
    g = take MAX_BACKENDS es \<and>
    backend_find g (Some n) = find (\<lambda>e. ent_name e = n) (take MAX_BACKENDS es) \<and>
    backend_find g None =
      (case find (\<lambda>e. ent_name e = DEFAULT_BACKEND) (take MAX_BACKENDS es) of
         Some e \<Rightarrow> Some e | None \<Rightarrow> if es = [] then None else Some (hd es)))"
proof -
  have g: "fold (\<lambda>e g. backend_register g e) es [] = take MAX_BACKENDS es"
    using backends.register_all [of "[]" es] by simp
  show ?thesis unfolding g Let_def
    by (cases es) (auto simp: backend_find_def split: option.split)
qed

text \<open>
  C19. The probe selection keeps its invariant: whatever names are selected, the selected probes are
  registered ones and neither array exceeds its 32 slots; selecting a list of names appends exactly the known
  ones in order and reports the others.
\<close>

theorem probe_selection:
  assumes "probes_ok g"
  shows "probes_ok (snd (probe_select g n)) \<and> probes_ok (probe_select_all g) \<and> probes_ok (probe_select_none g) \<and>
    (length (g_sel g) + length ts \<le> MAX_PROBES \<longrightarrow>
      fst (select_probes g ts) = filter (\<lambda>t. probe_find g t = None) ts \<and>
      map p_name (g_sel (snd (select_probes g ts))) =
        map p_name (g_sel g) @ filter (\<lambda>t. probe_find g t \<noteq> None) ts)"
proof -
  have n: "map p_name (map (\<lambda>t. the (probe_find g t)) (filter (\<lambda>t. probe_find g t \<noteq> None) ts)) = filter (\<lambda>t. probe_find g t \<noteq> None) ts"
    using probes.lookup_named [of g] by (induction ts) auto
  show ?thesis
    using assms probe_select_ok [OF assms, of n] select_probes_effect [of g ts] n
    by (simp add: probes_ok_def probe_select_all_def probe_select_none_def)
qed

theorem probe_selection_witness:
  "fst (select_probes (probe_register probes_init \<lparr>p_name = ''system'', p_info = None, p_sample = None\<rparr>) [''x'', ''system'']) = [''x'']"
proof -
  let ?g = "probe_register probes_init \<lparr>p_name = ''system'', p_info = None, p_sample = None\<rparr>"
  have "probes_ok ?g" by (simp add: probes_ok_def probe_register_def probes_init_def)
  from probe_selection [OF this, of "''x''" "[''x'', ''system'']"] show ?thesis
    by (simp add: probe_register_def probes_init_def probe_find_def)
qed

end
