(* ===== verification/KB_Affinity.thy ===== *)
theory KB_Affinity
  imports KB_Cstring
begin

text \<open>
  Worker pinning, \<open>src/src/affinity.c\<close>, in its Linux form. The mask the kernel returns is an argument
  (\<open>None\<close> when \<open>sched_getaffinity\<close> fails), and so is whether \<open>pthread_setaffinity_np\<close> succeeds.
\<close>

subsection \<open>The code\<close>

abbreviation CPU_SETSIZE :: nat where "CPU_SETSIZE \<equiv> 1024"

record affinity =
  kb_enabled :: bool
  kb_cpus :: "nat list"
  kb_desc :: string

abbreviation kb_ncpus :: "affinity \<Rightarrow> nat" where "kb_ncpus a \<equiv> length (kb_cpus a)"

definition kb_initial :: affinity where
  "kb_initial = \<lparr>kb_enabled = False, kb_cpus = [], kb_desc = ''unavailable''\<rparr>"

text \<open>\<open>while (j + 1 < kb_ncpus && kb_cpus[j + 1] == kb_cpus[j] + 1) j++;\<close>: the end of the run and the rest.\<close>

fun run_end :: "nat \<Rightarrow> nat list \<Rightarrow> nat \<times> nat list" where
  "run_end c [] = (c, [])"
| "run_end c (d # ds) = (if d = c + 1 then run_end d ds else (c, d # ds))"

lemma run_end_shrinks: "length (snd (run_end c ds)) \<le> length ds"
  by (induction ds arbitrary: c) (auto intro: le_SucI)

text \<open>
  The loop of \<open>kb_format_set\<close>: \<open>out\<close> is what the buffer of \<open>n\<close> bytes holds. A piece that does not fit is
  replaced by dots, as much of them as fit, and the loop ends.
\<close>

function format_loop :: "nat \<Rightarrow> nat list \<Rightarrow> string \<Rightarrow> string" where
  "format_loop n [] out = out"
| "format_loop n (c # cs) out =
     (let (e, rest) = run_end c cs;
          w = (if out \<noteq> [] then '','' else []) @ (if e > c then show_nat c @ ''-'' @ show_nat e else show_nat c)
      in if length w \<ge> n - length out then out @ snprintf (n - length out) ''...''
         else format_loop n rest (out @ w))"
  by pat_completeness auto
termination
proof (relation "measure (\<lambda>(n, cs, out). length cs)")
  fix n c cs out p e rest w
  assume "p = run_end c cs" "(e, rest) = p"
  then have "length rest \<le> length cs" using run_end_shrinks [of c cs] by (metis snd_conv)
  then show "((n, rest, out @ w), (n, c # cs, out)) \<in> measure (\<lambda>(n, cs, out). length cs)" by simp
qed simp

declare format_loop.simps [simp del]

definition kb_format_set :: "nat list \<Rightarrow> nat \<Rightarrow> string" where
  "kb_format_set cpus n = format_loop n cpus []"

text \<open>\<open>for (i = 0; i < CPU_SETSIZE && kb_ncpus < want; i++) if (CPU_ISSET(i, &mask)) kb_cpus[kb_ncpus++] = i;\<close>\<close>

definition enumerate_cpus :: "(nat \<Rightarrow> bool) \<Rightarrow> nat \<Rightarrow> nat list" where
  "enumerate_cpus allowed want = fold (\<lambda>i out. if length out < want \<and> allowed i then out @ [i] else out) [0..<CPU_SETSIZE] []"

definition CPU_COUNT :: "(nat \<Rightarrow> bool) \<Rightarrow> nat" where
  "CPU_COUNT allowed = length (filter allowed [0..<CPU_SETSIZE])"

definition kb_affinity_init :: "affinity \<Rightarrow> bool \<Rightarrow> (nat \<Rightarrow> bool) option \<Rightarrow> nat \<times> affinity" where
  "kb_affinity_init a enable allowed =
     (case allowed of
        None \<Rightarrow> (0, a\<lparr>kb_cpus := [], kb_enabled := False,
                     kb_desc := snprintf 160 ''unavailable (sched_getaffinity failed)''\<rparr>)
      | Some m \<Rightarrow>
          (let cpus = enumerate_cpus m (CPU_COUNT m);
               n = length cpus;
               enabled = (enable \<and> n > 0);
               set = kb_format_set cpus 96;
               plural = (if n = 1 then [] else ''s'');
               desc = (if enabled then ''on ('' @ show_nat n @ '' cpu'' @ plural @ '': '' @ set @ '')''
                       else ''off ('' @ show_nat n @ '' cpu'' @ plural @ '' available: '' @ set @ '')'')
           in (n, a\<lparr>kb_cpus := cpus, kb_enabled := enabled, kb_desc := snprintf 160 desc\<rparr>)))"

definition kb_affinity_cpus :: "affinity \<Rightarrow> nat" where
  "kb_affinity_cpus a = kb_ncpus a"

text \<open>The remainder of C's division, which has the sign of the dividend.\<close>

definition c_rem :: "int \<Rightarrow> int \<Rightarrow> int" where
  "c_rem a b = (if a \<ge> 0 then a mod b else - ((- a) mod b))"

definition kb_pin_self :: "affinity \<Rightarrow> int \<Rightarrow> bool \<Rightarrow> int" where
  "kb_pin_self a tid ok =
     (if \<not> kb_enabled a \<or> kb_ncpus a \<le> 0 then - 1
      else (let n = int (kb_ncpus a); cpu = kb_cpus a ! nat (c_rem (c_rem tid n + n) n)
            in if \<not> ok then - 1 else int cpu))"

definition kb_affinity_desc :: "affinity \<Rightarrow> string" where
  "kb_affinity_desc a = kb_desc a"

subsection \<open>Enumeration\<close>

lemma fold_limited_filter:
  "fold (\<lambda>i out. if length out < k \<and> P i then out @ [i] else out) xs out =
     out @ take (k - length out) (filter P xs)"
proof (induction xs arbitrary: out)
  case (Cons x xs)
  show ?case
  proof (cases "length out < k \<and> P x")
    case True
    then have "k - length out = Suc (k - Suc (length out))" by (simp add: Suc_diff_Suc)
    then show ?thesis using True Cons.IH [of "out @ [x]"] by simp
  next
    case False
    then show ?thesis using Cons.IH [of out] by auto
  qed
qed simp

lemma enumerate_all: "enumerate_cpus m (CPU_COUNT m) = filter m [0..<CPU_SETSIZE]"
  by (simp add: enumerate_cpus_def CPU_COUNT_def fold_limited_filter)

lemma c_rem_wrap: "0 < n \<Longrightarrow> c_rem (c_rem tid n + n) n = tid mod n"
proof (cases "tid \<ge> 0")
  case True
  then show "0 < n \<Longrightarrow> ?thesis" by (simp add: c_rem_def)
next
  case False
  assume n: "0 < n"
  have "0 \<le> (- tid) mod n" "(- tid) mod n < n" using n by auto
  then have "c_rem (c_rem tid n + n) n = (- ((- tid) mod n) + n) mod n" using False by (simp add: c_rem_def)
  also have "\<dots> = tid mod n" by (simp add: mod_minus_eq)
  finally show ?thesis .
qed

lemma format_loop_fits: "length out < n \<Longrightarrow> length (format_loop n cs out) < n"
proof (induction n cs out rule: format_loop.induct)
  case (2 n c cs out)
  obtain e rest where r: "run_end c cs = (e, rest)" by fastforce
  let ?w = "(if out \<noteq> [] then '','' else []) @ (if e > c then show_nat c @ ''-'' @ show_nat e else show_nat c)"
  show ?case
  proof (cases "length ?w \<ge> n - length out")
    case True
    then show ?thesis using 2(2) by (simp add: format_loop.simps r Let_def snprintf_def)
  next
    case False
    then have "length (format_loop n rest (out @ ?w)) < n"
      using 2(1) [OF refl r [symmetric] refl False] by simp
    with False show ?thesis by (simp add: format_loop.simps r Let_def)
  qed
qed (simp add: format_loop.simps)

lemma count_residue:
  assumes "p < n"
  shows "length (filter (\<lambda>t. t mod n = p) [0..<T]) = T div n + (if p < T mod n then 1 else 0)"
proof (induction T)
  case (Suc T)
  have s: "T mod n < n" using assms by simp
  show ?case
  proof (cases "Suc (T mod n) = n")
    case True
    then have "Suc T div n = Suc (T div n)" "Suc T mod n = 0" by (simp_all add: div_Suc mod_Suc)
    then show ?thesis using Suc True assms s by auto
  next
    case False
    then have "Suc T div n = T div n" "Suc T mod n = Suc (T mod n)" by (simp_all add: div_Suc mod_Suc)
    then show ?thesis using Suc False assms s by auto
  qed
qed simp

subsection \<open>Properties\<close>

text \<open>
  C20. Initialisation records exactly the inherited CPUs, in ascending order and without repetition,
  returns their number, turns pinning on only when asked and possible, and never overflows its
  two text buffers.
\<close>

theorem affinity_enumerates_allowed:
  "(let (n, a') = kb_affinity_init a enable (Some allowed) in
    kb_cpus a' = filter allowed [0..<CPU_SETSIZE] \<and> sorted_wrt (<) (kb_cpus a') \<and> n = length (kb_cpus a') \<and>
    (kb_enabled a' \<longleftrightarrow> enable \<and> (\<exists>c < CPU_SETSIZE. allowed c)) \<and>
    length (kb_format_set (kb_cpus a') 96) < 96 \<and> length (kb_desc a') < 160)"
proof -
  have "length (filter allowed [0..<CPU_SETSIZE]) > 0 \<longleftrightarrow> (\<exists>c < CPU_SETSIZE. allowed c)"
    by (auto simp: filter_empty_conv simp del: upt_conv_Cons)
  moreover have "sorted_wrt (<) (filter allowed [0..<CPU_SETSIZE])" by (intro sorted_wrt_filter) simp
  moreover have "length (kb_format_set cs 96) < 96" for cs
    unfolding kb_format_set_def by (rule format_loop_fits) simp
  ultimately show ?thesis
    by (simp add: kb_affinity_init_def enumerate_all Let_def snprintf_def del: upt_conv_Cons upt_rec_numeral)
qed

text \<open>
  C21. Pinning stays inside the allowance and wraps evenly: for every worker id, also a negative one, the index is
  in range and the worker runs on the CPU at its id modulo the number of CPUs; of \<open>T\<close> workers each CPU gets
  \<open>T div n\<close> or one more.
\<close>

theorem pinning_is_even:
  assumes "kb_enabled a" "0 < kb_ncpus a" "distinct (kb_cpus a)"
  shows "kb_pin_self a tid True = int (kb_cpus a ! nat (tid mod int (kb_ncpus a))) \<and>
    nat (tid mod int (kb_ncpus a)) < kb_ncpus a \<and>
    (\<forall>cpu \<in> set (kb_cpus a).
       length (filter (\<lambda>t. kb_pin_self a (int t) True = int cpu) [0..<T]) \<in> {T div kb_ncpus a, T div kb_ncpus a + 1})"
proof -
  let ?n = "kb_ncpus a"
  have pin: "kb_pin_self a t True = int (kb_cpus a ! nat (t mod int ?n))" for t
    using assms by (simp add: kb_pin_self_def c_rem_wrap Let_def)
  have r: "nat (t mod int ?n) < ?n" for t using assms(2) by (simp add: nat_less_iff)
  have "length (filter (\<lambda>t. kb_pin_self a (int t) True = int cpu) [0..<T]) \<in> {T div ?n, T div ?n + 1}"
    if "cpu \<in> set (kb_cpus a)" for cpu
  proof -
    obtain p where p: "p < ?n" "cpu = kb_cpus a ! p" using \<open>cpu \<in> set (kb_cpus a)\<close> by (auto simp: in_set_conv_nth)
    have "kb_pin_self a (int t) True = int cpu \<longleftrightarrow> t mod ?n = p" for t
      using nth_eq_iff_index_eq [OF assms(3), of "t mod ?n" p] p assms(2)
      by (simp add: pin nat_mod_distrib flip: of_nat_mod)
    then show ?thesis using count_residue [OF p(1), of T] by simp
  qed
  with pin r show ?thesis by blast
qed

theorem pinning_is_even_witness:
  "kb_pin_self \<lparr>kb_enabled = True, kb_cpus = [2, 3, 7], kb_desc = []\<rparr> 5 True = 7"
  using pinning_is_even [of "\<lparr>kb_enabled = True, kb_cpus = [2, 3, 7], kb_desc = []\<rparr>" 5 0] by simp

end
