(* ===== verification/KB_Reporter.thy ===== *)
theory KB_Reporter
  imports KB_Cstring
begin

text \<open>
  The reporters of \<open>src/src/reporter.c\<close>. A reporter keeps the text it has written to its stream (standard
  output, \<open>None\<close>, or a file) and whether its table header is done; its handlers are chosen by its name
  as \<open>make_reporter\<close> does. Whether a report file can be opened is the argument \<open>can_open\<close>.
\<close>

subsection \<open>What is reported\<close>

abbreviation REPORT_MAX_OPS :: nat where "REPORT_MAX_OPS \<equiv> 8"
abbreviation REPORT_MAX_SINKS :: nat where "REPORT_MAX_SINKS \<equiv> 8"

record report_op =
  ro_op :: string
  ro_count :: u64
  ro_p50 :: u64
  ro_p99 :: u64
  ro_p999 :: u64
  ro_max :: u64

record report_point =
  rp_workload :: string
  rp_engine :: string
  rp_threads :: int
  rp_repeat :: int
  rp_sweep_param :: "string option"
  rp_sweep_value :: int
  rp_ops :: "report_op list"
  rp_has_hit :: bool
  rp_hit_rate :: double
  rp_has_err :: bool
  rp_err_rate :: double
  rp_wu_med :: double
  rp_wu_lo :: double
  rp_wu_hi :: double
  rp_ops_med :: double
  rp_ops_lo :: double
  rp_ops_hi :: double
  rp_overall_p50 :: u64
  rp_overall_p99 :: u64

record report_run =
  rr_engine :: string
  rr_seed :: u32
  rr_repeat :: int
  rr_threads_list :: string
  rr_nworkloads :: nat

record report_sample =
  rs_workload :: string
  rs_engine :: string
  rs_threads :: int
  rs_sweep_param :: "string option"
  rs_sweep_value :: int
  rs_phase :: "string option"
  rs_elapsed :: double
  rs_m :: "(string \<times> double) list"

record report_probe =
  rb_probe :: string
  rb_kv :: "(string \<times> string) list"

record reporter =
  r_name :: string
  r_out :: "string option"
  r_header_done :: bool
  r_text :: string

definition emit :: "string \<Rightarrow> reporter \<Rightarrow> reporter" where
  "emit s r = r\<lparr>r_text := r_text r @ s\<rparr>"

abbreviation nl :: string where "nl \<equiv> [CHR 0x0A]"
abbreviation tab :: string where "tab \<equiv> [CHR 0x09]"

text \<open>The default of the source; a build may define another string.\<close>

definition KEYBENCH_VERSION :: string where "KEYBENCH_VERSION = ''dev''"

definition fmt_ns :: "u64 \<Rightarrow> nat \<Rightarrow> string" where
  "fmt_ns ns n =
     snprintf n
       (if unat ns < 1000 then show_nat (unat ns) @ '' ns''
        else if unat ns < 1000000 then fmt_fixed 2 (ddiv (u64_to_double ns) 1000) @ '' us''
        else if unat ns < 1000000000 then fmt_fixed 2 (ddiv (u64_to_double ns) 1000000) @ '' ms''
        else fmt_fixed 2 (ddiv (u64_to_double ns) 1000000000) @ '' s'')"

subsection \<open>The console\<close>

definition console_run :: "reporter \<Rightarrow> report_run \<Rightarrow> reporter" where
  "console_run r run =
     emit (''keybench '' @ KEYBENCH_VERSION @ '': '' @ show_nat (rr_nworkloads run) @ '' workload(s), engine='' @
           rr_engine run @ '' seed='' @ show_nat (unat (rr_seed run)) @ '' repeat='' @ show_int (rr_repeat run) @ nl @
           ''  threads: '' @ rr_threads_list run @ nl) r"

definition console_probe :: "reporter \<Rightarrow> report_probe \<Rightarrow> reporter" where
  "console_probe r p =
     emit (''[probe: '' @ rb_probe p @ '']'' @ nl @
           concat (map (\<lambda>(k, v). ''  '' @ pad_right 14 k @ '' '' @ v @ nl) (rb_kv p))) r"

definition console_op :: "report_op \<Rightarrow> string" where
  "console_op q =
     pad_right 7 (ro_op q) @ '' '' @ pad_left 12 (show_nat (unat (ro_count q))) @ '' '' @ pad_left 10 (fmt_ns (ro_p50 q) 32) @ '' '' @
     pad_left 10 (fmt_ns (ro_p99 q) 32) @ '' '' @ pad_left 10 (fmt_ns (ro_p999 q) 32) @ '' '' @ pad_left 10 (fmt_ns (ro_max q) 32) @ nl"

definition over_runs :: "report_point \<Rightarrow> double \<Rightarrow> double \<Rightarrow> string" where
  "over_runs p lo hi =
     (if rp_repeat p > 1 then ''  ('' @ fmt_fixed 0 lo @ ''..'' @ fmt_fixed 0 hi @ '' over '' @ show_int (rp_repeat p) @ '' runs)'' else [])"

definition console_point :: "reporter \<Rightarrow> report_point \<Rightarrow> reporter" where
  "console_point r p =
     (let runs = ''(median of '' @ show_int (rp_repeat p) @ '' run'' @ (if rp_repeat p = 1 then [] else ''s'') @ '')'' @ nl;
          sweep = (case rp_sweep_param p of Some sp \<Rightarrow> ''  '' @ sp @ ''='' @ show_int (rp_sweep_value p) | None \<Rightarrow> []);
          median = (if rp_repeat p > 1 then '' (median)'' else [])
      in emit (nl @ ''=== '' @ rp_workload p @ '' ==='' @ nl @ ''engine='' @ rp_engine p @ ''  threads='' @ show_int (rp_threads p) @
               sweep @ ''  '' @ runs @
               pad_right 7 ''op'' @ '' '' @ pad_left 12 ''count'' @ '' '' @ pad_left 10 ''p50'' @ '' '' @ pad_left 10 ''p99'' @ '' '' @
               pad_left 10 ''p99.9'' @ '' '' @ pad_left 10 ''max'' @ nl @
               concat (map console_op (rp_ops p)) @
               (if rp_has_hit p then ''get hit rate: '' @ fmt_fixed 1 (rp_hit_rate p) @ ''%'' @ median @ nl else []) @
               (if rp_has_err p then ''get error rate: '' @ fmt_fixed 1 (rp_err_rate p) @ ''%'' @ median @ nl else []) @
               (if rp_ops_med p = rp_wu_med p then
                  ''throughput: '' @ fmt_fixed 0 (rp_wu_med p) @ '' /sec (1 op per unit)'' @ over_runs p (rp_wu_lo p) (rp_wu_hi p) @ nl
                else
                  ''workload units: '' @ fmt_fixed 0 (rp_wu_med p) @ '' wu/sec'' @ over_runs p (rp_wu_lo p) (rp_wu_hi p) @ nl @
                  ''primitive ops:  '' @ fmt_fixed 0 (rp_ops_med p) @ '' ops/sec'' @ over_runs p (rp_ops_lo p) (rp_ops_hi p) @ nl)) r)"

subsection \<open>The tables\<close>

definition fields :: "string list \<Rightarrow> string" where
  "fields fs = (case fs of [] \<Rightarrow> [] | f # fs \<Rightarrow> f @ concat (map (\<lambda>x. tab @ x) fs)) @ nl"

definition tsv_header :: string where
  "tsv_header = fields [''workload'', ''engine'', ''threads'', ''sweep_param'', ''sweep_value'', ''op'', ''count'',
     ''p50_ns'', ''p99_ns'', ''p999_ns'', ''max_ns'', ''hit_rate'', ''err_rate'', ''wu_per_s'', ''ops_per_s'']"

definition tsv_row :: "report_point \<Rightarrow> report_op \<Rightarrow> string" where
  "tsv_row p q =
     fields [rp_workload p, rp_engine p, show_int (rp_threads p),
       (case rp_sweep_param p of Some sp \<Rightarrow> sp | None \<Rightarrow> []),
       show_int (case rp_sweep_param p of Some _ \<Rightarrow> rp_sweep_value p | None \<Rightarrow> 1), ro_op q, show_nat (unat (ro_count q)),
       show_nat (unat (ro_p50 q)), show_nat (unat (ro_p99 q)), show_nat (unat (ro_p999 q)), show_nat (unat (ro_max q)),
       fmt_fixed 3 (if rp_has_hit p then rp_hit_rate p else 0), fmt_fixed 3 (if rp_has_err p then rp_err_rate p else 0),
       fmt_fixed 1 (rp_wu_med p), fmt_fixed 1 (rp_ops_med p)]"

definition tsv_point :: "reporter \<Rightarrow> report_point \<Rightarrow> reporter" where
  "tsv_point r p =
     (let r = (if \<not> r_header_done r then (emit tsv_header r)\<lparr>r_header_done := True\<rparr> else r)
      in fold (\<lambda>q r. emit (tsv_row p q) r) (rp_ops p) r)"

definition timeline_header :: string where
  "timeline_header = fields [''workload'', ''engine'', ''threads'', ''sweep_param'', ''sweep_value'', ''phase'', ''elapsed_s'',
     ''metric'', ''value'']"

definition timeline_row :: "report_sample \<Rightarrow> string \<times> double \<Rightarrow> string" where
  "timeline_row s m =
     fields [rs_workload s, rs_engine s, show_int (rs_threads s), (case rs_sweep_param s of Some sp \<Rightarrow> sp | None \<Rightarrow> []),
       show_int (case rs_sweep_param s of Some _ \<Rightarrow> rs_sweep_value s | None \<Rightarrow> 1),
       (case rs_phase s of Some ph \<Rightarrow> ph | None \<Rightarrow> ''run''), fmt_fixed 3 (rs_elapsed s), fst m, fmt_fixed 3 (snd m)]"

definition timeline_sample :: "reporter \<Rightarrow> report_sample \<Rightarrow> reporter" where
  "timeline_sample r s =
     (let r = (if \<not> r_header_done r then (emit timeline_header r)\<lparr>r_header_done := True\<rparr> else r)
      in fold (\<lambda>m r. emit (timeline_row s m) r) (rs_m s) r)"

subsection \<open>The set of reporters\<close>

definition make_reporter :: "string \<Rightarrow> string option \<Rightarrow> reporter option" where
  "make_reporter name out =
     (if name \<in> {''console'', ''tsv'', ''timeline''}
      then Some \<lparr>r_name = name, r_out = out, r_header_done = False, r_text = []\<rparr> else None)"

definition on_run :: "reporter \<Rightarrow> (reporter \<Rightarrow> report_run \<Rightarrow> reporter) option" where
  "on_run r = (if r_name r = ''console'' then Some console_run else None)"

definition on_probe :: "reporter \<Rightarrow> (reporter \<Rightarrow> report_probe \<Rightarrow> reporter) option" where
  "on_probe r = (if r_name r = ''console'' then Some console_probe else None)"

definition on_point :: "reporter \<Rightarrow> (reporter \<Rightarrow> report_point \<Rightarrow> reporter) option" where
  "on_point r = (if r_name r = ''console'' then Some console_point else if r_name r = ''tsv'' then Some tsv_point else None)"

definition on_sample :: "reporter \<Rightarrow> (reporter \<Rightarrow> report_sample \<Rightarrow> reporter) option" where
  "on_sample r = (if r_name r = ''timeline'' then Some timeline_sample else None)"

text \<open>\<open>strchr(tok, ':')\<close>: the name, and the path behind the colon if there is one.\<close>

definition split_sink :: "string \<Rightarrow> string \<times> string option" where
  "split_sink tok =
     (let name = takeWhile (\<lambda>c. c \<noteq> CHR '':'') tok; rest = dropWhile (\<lambda>c. c \<noteq> CHR '':'') tok
      in (name, if rest = [] then None else Some (tl rest)))"

fun parse_sinks :: "(string \<Rightarrow> bool) \<Rightarrow> string list \<Rightarrow> reporter list \<Rightarrow> int \<times> reporter list" where
  "parse_sinks can_open [] rset = (0, rset)"
| "parse_sinks can_open (tok # toks) rset =
     (if length rset \<ge> REPORT_MAX_SINKS then (- 1, rset)
      else (let (name, path) = split_sink tok; out = (if path = Some ''-'' then None else path)
            in if (case out of Some p \<Rightarrow> \<not> can_open p | None \<Rightarrow> False) then (- 1, rset)
               else (case make_reporter name out of
                       None \<Rightarrow> (- 1, rset)
                     | Some r \<Rightarrow> parse_sinks can_open toks (rset @ [r]))))"

definition reporters_parse :: "(string \<Rightarrow> bool) \<Rightarrow> string option \<Rightarrow> int \<times> reporter list" where
  "reporters_parse can_open spec =
     (let (rc, rset) = parse_sinks can_open (strtok_all (CHR '','') (case spec of Some s \<Rightarrow> s | None \<Rightarrow> ''console'')) []
      in if rc = 0 \<and> rset = [] then (0, [the (make_reporter ''console'' None)]) else (rc, rset))"

definition broadcast :: "(reporter \<Rightarrow> (reporter \<Rightarrow> 'e \<Rightarrow> reporter) option) \<Rightarrow> reporter list \<Rightarrow> 'e \<Rightarrow> reporter list" where
  "broadcast handler rset e = map (\<lambda>r. case handler r of Some f \<Rightarrow> f r e | None \<Rightarrow> r) rset"

definition reporters_run :: "reporter list \<Rightarrow> report_run \<Rightarrow> reporter list" where
  "reporters_run = broadcast on_run"

definition reporters_point :: "reporter list \<Rightarrow> report_point \<Rightarrow> reporter list" where
  "reporters_point = broadcast on_point"

definition reporters_probe :: "reporter list \<Rightarrow> report_probe \<Rightarrow> reporter list" where
  "reporters_probe = broadcast on_probe"

definition reporters_sample :: "reporter list \<Rightarrow> report_sample \<Rightarrow> reporter list" where
  "reporters_sample = broadcast on_sample"

definition reporters_want_samples :: "reporter list \<Rightarrow> bool" where
  "reporters_want_samples rset \<longleftrightarrow> (\<exists>r \<in> set rset. on_sample r \<noteq> None)"

definition reporters_want_probe :: "reporter list \<Rightarrow> bool" where
  "reporters_want_probe rset \<longleftrightarrow> (\<exists>r \<in> set rset. on_probe r \<noteq> None)"

text \<open>The files closed at the end, and the empty set that is left.\<close>

definition reporters_close :: "reporter list \<Rightarrow> string list \<times> reporter list" where
  "reporters_close rset = (concat (map (\<lambda>r. case r_out r of Some p \<Rightarrow> [p] | None \<Rightarrow> []) rset), [])"

subsection \<open>Choosing reporters\<close>

definition sink_out :: "string \<Rightarrow> string option" where
  "sink_out tok = (if snd (split_sink tok) = Some ''-'' then None else snd (split_sink tok))"

definition sink_ok :: "(string \<Rightarrow> bool) \<Rightarrow> string \<Rightarrow> bool" where
  "sink_ok can_open tok \<longleftrightarrow> fst (split_sink tok) \<in> {''console'', ''tsv'', ''timeline''} \<and> (\<forall>p. sink_out tok = Some p \<longrightarrow> can_open p)"

definition sink_of :: "string \<Rightarrow> reporter" where
  "sink_of tok = \<lparr>r_name = fst (split_sink tok), r_out = sink_out tok, r_header_done = False, r_text = []\<rparr>"

lemma parse_sinks_result:
  "length rset \<le> REPORT_MAX_SINKS \<Longrightarrow>
   parse_sinks can_open toks rset =
     (let good = takeWhile (sink_ok can_open) (take (REPORT_MAX_SINKS - length rset) toks)
      in (if length good = length toks then 0 else - 1, rset @ map sink_of good))"
proof (induction toks arbitrary: rset)
  case (Cons tok toks)
  obtain name path where s: "split_sink tok = (name, path)" by fastforce
  show ?case
  proof (cases "length rset \<ge> REPORT_MAX_SINKS")
    case False
    then have room: "REPORT_MAX_SINKS - length rset = Suc (REPORT_MAX_SINKS - length (rset @ [sink_of tok]))" by simp
    show ?thesis
    proof (cases "sink_ok can_open tok")
      case True
      then have "parse_sinks can_open (tok # toks) rset = parse_sinks can_open toks (rset @ [sink_of tok])"
        using False by (auto simp: s sink_ok_def sink_of_def sink_out_def make_reporter_def Let_def split: option.split if_splits)
      with True show ?thesis using Cons.IH [of "rset @ [sink_of tok]"] False unfolding room take_Suc_Cons by simp
    next
      case not_ok: False
      then have "parse_sinks can_open (tok # toks) rset = (- 1, rset)"
        by (auto simp: s sink_ok_def sink_out_def make_reporter_def Let_def split: option.split if_splits)
      with not_ok show ?thesis unfolding room take_Suc_Cons by simp
    qed
  qed simp
qed simp

subsection \<open>The text of a table\<close>

lemma fold_emit: "fold (\<lambda>q r. emit (f q) r) qs r = emit (concat (map f qs)) r"
  by (induction qs arbitrary: r) (simp_all add: emit_def)

lemma tsv_point_emit: "r_header_done r \<Longrightarrow> tsv_point r p = emit (concat (map (tsv_row p) (rp_ops p))) r"
  by (simp add: tsv_point_def fold_emit)

lemma fold_tsv_done:
  "r_header_done r \<Longrightarrow> fold (\<lambda>p r. tsv_point r p) ps r = emit (concat (map (\<lambda>p. concat (map (tsv_row p) (rp_ops p))) ps)) r"
  by (induction ps arbitrary: r) (simp_all add: tsv_point_emit emit_def)

definition tabs :: "string \<Rightarrow> nat" where
  "tabs s = length (filter (\<lambda>c. c = CHR 0x09) s)"

lemma tabs_append [simp]: "tabs (s @ t) = tabs s + tabs t"
  by (simp add: tabs_def)

lemma tabs_Cons: "tabs (c # s) = (if c = CHR 0x09 then 1 else 0) + tabs s"
  by (simp add: tabs_def)

lemma tabs_none: "CHR 0x09 \<notin> set s \<Longrightarrow> tabs s = 0"
  by (simp add: tabs_def filter_empty_conv) metis

lemma tabs_fields: "\<forall>f \<in> set fs. CHR 0x09 \<notin> set f \<Longrightarrow> tabs (fields fs) = length fs - 1"
proof (cases fs)
  case (Cons f gs)
  assume a: "\<forall>f \<in> set fs. CHR 0x09 \<notin> set f"
  have "\<forall>g \<in> set gs. CHR 0x09 \<notin> set g \<Longrightarrow> tabs (concat (map ((@) tab) gs)) = length gs"
    by (induction gs) (simp_all add: tabs_Cons tabs_none)
  moreover have "tabs (fields fs) = tabs (f @ concat (map ((@) tab) gs))" by (simp add: Cons fields_def tabs_def)
  ultimately show ?thesis using a Cons by (simp only: tabs_append) (simp add: tabs_none)
qed (simp add: fields_def tabs_def)

lemma no_tab_show_nat: "CHR 0x09 \<notin> set (show_nat n)"
  using isdigit_show_nat [of "CHR 0x09" n] by (auto simp: isdigit_def)

lemma no_tab_numbers: "CHR 0x09 \<notin> set (show_int i)" "CHR 0x09 \<notin> set (fmt_fixed d x)"
  using no_tab_show_nat by (auto simp: show_int_def fmt_fixed_def Let_def)

subsection \<open>Properties\<close>

text \<open>
  C22. The reporter list. With \<open>good\<close> the items up to the eighth and before the first one with an unknown name or a file that
  cannot be opened, the set holds one reporter per good item, in order, on its file (\<open>-\<close> is standard output). The
  list is accepted exactly when every item is good; an empty list then means one console.
\<close>

theorem reporters_parse_result:
  "(let toks = strtok_all (CHR '','') (case spec of Some s \<Rightarrow> s | None \<Rightarrow> ''console'');
        good = takeWhile (sink_ok can_open) (take REPORT_MAX_SINKS toks) in
    reporters_parse can_open spec =
      (if length good = length toks then 0 else - 1, if toks = [] then [sink_of ''console''] else map sink_of good))"
proof -
  have "the (make_reporter ''console'' None) = sink_of ''console''"
    by (simp add: make_reporter_def sink_of_def sink_out_def split_sink_def)
  then show ?thesis by (auto simp: reporters_parse_def parse_sinks_result Let_def)
qed

text \<open>
  C23. The results table is well formed: over any sequence of points a \<open>tsv\<close> reporter writes its header once, before the
  first row, and then one row per operation of each point, in order; every row has the fifteen columns
  of the header as long as the names contain no tab.
\<close>

theorem tsv_table_well_formed:
  "r_text (fold (\<lambda>p r. tsv_point r p) ps (sink_of ''tsv'')) =
     (if ps = [] then [] else tsv_header) @ concat (map (\<lambda>p. concat (map (tsv_row p) (rp_ops p))) ps) \<and>
   tabs tsv_header = 14 \<and>
   (CHR 0x09 \<notin> set (rp_workload p) \<union> set (rp_engine p) \<union> set (case rp_sweep_param p of Some s \<Rightarrow> s | None \<Rightarrow> []) \<union> set (ro_op q) \<longrightarrow>
     tabs (tsv_row p q) = 14)"
proof (intro conjI impI)
  show "r_text (fold (\<lambda>p r. tsv_point r p) ps (sink_of ''tsv'')) =
      (if ps = [] then [] else tsv_header) @ concat (map (\<lambda>p. concat (map (tsv_row p) (rp_ops p))) ps)"
  proof (cases ps)
    case (Cons p' ps')
    have "tsv_point (sink_of ''tsv'') p' = emit (concat (map (tsv_row p') (rp_ops p'))) ((emit tsv_header (sink_of ''tsv''))\<lparr>r_header_done := True\<rparr>)"
      by (simp add: tsv_point_def fold_emit sink_of_def)
    then show ?thesis using Cons by (simp add: fold_tsv_done emit_def sink_of_def)
  qed (simp add: sink_of_def)
  show "tabs tsv_header = 14" unfolding tsv_header_def by (subst tabs_fields) simp_all
  assume "CHR 0x09 \<notin> set (rp_workload p) \<union> set (rp_engine p) \<union> set (case rp_sweep_param p of Some s \<Rightarrow> s | None \<Rightarrow> []) \<union> set (ro_op q)"
  then show "tabs (tsv_row p q) = 14"
    unfolding tsv_row_def by (subst tabs_fields) (simp_all add: no_tab_numbers no_tab_show_nat)
qed

text \<open>A point with one operation line.\<close>

definition sample_point :: report_point where
  "sample_point = \<lparr>rp_workload = ''mixed'', rp_engine = ''skiplist'', rp_threads = 1, rp_repeat = 1, rp_sweep_param = None,
     rp_sweep_value = 0, rp_ops = [], rp_has_hit = False, rp_hit_rate = 0, rp_has_err = False, rp_err_rate = 0,
     rp_wu_med = 1, rp_wu_lo = 1, rp_wu_hi = 1, rp_ops_med = 1, rp_ops_lo = 1, rp_ops_hi = 1, rp_overall_p50 = 1, rp_overall_p99 = 1\<rparr>"

definition sample_op :: report_op where
  "sample_op = \<lparr>ro_op = ''get'', ro_count = 1, ro_p50 = 1, ro_p99 = 1, ro_p999 = 1, ro_max = 1\<rparr>"

theorem tsv_table_well_formed_witness: "tabs (tsv_row sample_point sample_op) = 14"
  using tsv_table_well_formed [of "[]" sample_point sample_op] by (simp add: sample_point_def sample_op_def)

end
