(* ===== verification/KB_Rocksdb.thy ===== *)
theory KB_Rocksdb
  imports KB_Store KB_Config
begin

text \<open>
  The RocksDB engine, \<open>src/backends/rocksdb/rocksdb.c\<close>. The C interface of RocksDB is the record
  \<open>rocks_api\<close>, a parameter of every operation: an error is the status string it returns, an iterator is a value
  of type \<open>'it\<close>. Messages on the error stream are not modelled. An \<open>abort\<close> while opening is \<open>None\<close>.

  \<open>rocks_ok\<close> states what the RocksDB documentation promises of those calls (a write that returns no error is applied,
  one that returns an error is not, a batch is atomic, an iterator enumerates the rows from the seek key in order) and
  that a stall ends; under it the engine satisfies the interface \<open>engine\<close> of the store.
\<close>

subsection \<open>The interface of RocksDB\<close>

record ('db, 'opts, 'it) rocks_api =
  ra_put :: "'db \<Rightarrow> bytes \<Rightarrow> bytes \<Rightarrow> string option \<times> 'db"
  ra_write :: "'db \<Rightarrow> batch_op list \<Rightarrow> string option \<times> 'db"
  ra_get :: "'db \<Rightarrow> bytes \<Rightarrow> string + bytes option"
  ra_delete :: "'db \<Rightarrow> bytes \<Rightarrow> string option \<times> 'db"
  ra_iter_seek :: "'db \<Rightarrow> bytes \<Rightarrow> 'it"
  ra_iter_valid :: "'it \<Rightarrow> bool"
  ra_iter_key :: "'it \<Rightarrow> bytes"
  ra_iter_value :: "'it \<Rightarrow> bytes"
  ra_iter_next :: "'it \<Rightarrow> 'it"
  ra_property_int :: "'db \<Rightarrow> string \<Rightarrow> u64 option"
  ra_options_create :: "'opts"
  ra_set_create_if_missing :: "'opts \<Rightarrow> 'opts"
  ra_options_from_string :: "'opts \<Rightarrow> string \<Rightarrow> string + 'opts"
  ra_open :: "'opts \<Rightarrow> string \<Rightarrow> string + 'db"
  ra_destroy :: "'db \<Rightarrow> 'db"

record ('db, 'opts) rdb =
  rd_db :: 'db
  rd_opts :: 'opts
  rd_path :: string

subsection \<open>The code\<close>

definition starts_with :: "string \<Rightarrow> string \<Rightarrow> bool" where
  "starts_with s p \<longleftrightarrow> take (length p) s = p"

definition rdb_retryable :: "string option \<Rightarrow> bool" where
  "rdb_retryable err =
     (case err of
        None \<Rightarrow> False
      | Some e \<Rightarrow> starts_with e ''Busy'' \<or> starts_with e ''Result incomplete'' \<or>
                  starts_with e ''Operation failed. Try again.'')"

text \<open>The shared end of the write calls: 0 without an error, otherwise a retry or the failure code.\<close>

definition write_result :: "int \<Rightarrow> int \<Rightarrow> string option \<Rightarrow> int" where
  "write_result done failed err = (case err of None \<Rightarrow> done | Some _ \<Rightarrow> if rdb_retryable err then KV_RETRY else failed)"

definition rdb_put :: "('db, 'opts, 'it) rocks_api \<Rightarrow> ('db, 'opts) rdb \<Rightarrow> bytes \<Rightarrow> bytes \<Rightarrow> (int \<times> ('db, 'opts) rdb) option" where
  "rdb_put api r k v = (let (err, db) = ra_put api (rd_db r) k v in Some (write_result 0 (- 1) err, r\<lparr>rd_db := db\<rparr>))"

definition rdb_putbatch :: "('db, 'opts, 'it) rocks_api \<Rightarrow> ('db, 'opts) rdb \<Rightarrow> (bytes \<times> bytes) list \<Rightarrow> (int \<times> ('db, 'opts) rdb) option" where
  "rdb_putbatch api r kvs =
     (let wb = map (\<lambda>(k, v). BPut k v) kvs; (err, db) = ra_write api (rd_db r) wb
      in Some (write_result 0 (- 1) err, r\<lparr>rd_db := db\<rparr>))"

definition rdb_delbatch :: "('db, 'opts, 'it) rocks_api \<Rightarrow> ('db, 'opts) rdb \<Rightarrow> bytes list \<Rightarrow> (int \<times> ('db, 'opts) rdb) option" where
  "rdb_delbatch api r ks =
     (let wb = map BDelete ks; (err, db) = ra_write api (rd_db r) wb
      in Some (write_result 0 (- 1) err, r\<lparr>rd_db := db\<rparr>))"

definition rdb_get :: "('db, 'opts, 'it) rocks_api \<Rightarrow> ('db, 'opts) rdb \<Rightarrow> bytes \<Rightarrow> (int \<times> bytes option \<times> ('db, 'opts) rdb) option" where
  "rdb_get api r k =
     (case ra_get api (rd_db r) k of
        Inl err \<Rightarrow> Some (KV_ERR, None, r)
      | Inr None \<Rightarrow> Some (0, None, r)
      | Inr (Some v) \<Rightarrow> Some (1, Some v, r))"

definition rdb_del :: "('db, 'opts, 'it) rocks_api \<Rightarrow> ('db, 'opts) rdb \<Rightarrow> bytes \<Rightarrow> (int \<times> ('db, 'opts) rdb) option" where
  "rdb_del api r k = (let (err, db) = ra_delete api (rd_db r) k in Some (write_result 1 0 err, r\<lparr>rd_db := db\<rparr>))"

partial_function (option) rdb_scan ::
  "('db, 'opts, 'it) rocks_api \<Rightarrow> bytes \<Rightarrow> int \<Rightarrow> 'a kv_range_cb option \<Rightarrow> 'it \<Rightarrow> int \<Rightarrow> 'a \<Rightarrow> (int \<times> 'a) option" where
  "rdb_scan api hi limit cb it n arg =
     (if ra_iter_valid api it \<and> (limit \<le> 0 \<or> n < limit) then
        (if kv_keycmp (ra_iter_key api it) hi \<ge> 0 then Some (n, arg)
         else (case (case cb of None \<Rightarrow> (0, arg) | Some f \<Rightarrow> f arg (ra_iter_key api it) (ra_iter_value api it)) of
                 (stop, arg) \<Rightarrow>
                   if stop \<noteq> 0 then Some (n + 1, arg) else rdb_scan api hi limit cb (ra_iter_next api it) (n + 1) arg))
      else Some (n, arg))"

declare rdb_scan.simps [code]

definition rdb_range ::
  "('db, 'opts, 'it) rocks_api \<Rightarrow> ('db, 'opts) rdb \<Rightarrow> bytes \<Rightarrow> bytes \<Rightarrow> int \<Rightarrow> 'a kv_range_cb option \<Rightarrow> 'a \<Rightarrow>
   (int \<times> 'a \<times> ('db, 'opts) rdb) option" where
  "rdb_range api r lo hi limit cb arg =
     do { (n, arg) \<leftarrow> rdb_scan api hi limit cb (ra_iter_seek api (rd_db r) lo) 0 arg; Some (n, arg, r) }"

text \<open>The version string of a build that does not define \<open>KB_ROCKSDB_VERSION\<close>.\<close>

definition rdb_version :: "('db, 'opts) rdb \<Rightarrow> string" where
  "rdb_version r = ''rocksdb''"

definition RDB_PROPS :: "string list" where
  "RDB_PROPS = [
     ''rocksdb.num-immutable-mem-table'', ''rocksdb.mem-table-flush-pending'', ''rocksdb.compaction-pending'',
     ''rocksdb.background-errors'', ''rocksdb.cur-size-active-mem-table'', ''rocksdb.cur-size-all-mem-tables'',
     ''rocksdb.size-all-mem-tables'', ''rocksdb.num-entries-active-mem-table'', ''rocksdb.num-entries-imm-mem-tables'',
     ''rocksdb.num-deletes-active-mem-table'', ''rocksdb.num-deletes-imm-mem-tables'', ''rocksdb.estimate-num-keys'',
     ''rocksdb.estimate-table-readers-mem'', ''rocksdb.num-snapshots'', ''rocksdb.num-live-versions'',
     ''rocksdb.estimate-live-data-size'', ''rocksdb.total-sst-files-size'', ''rocksdb.live-sst-files-size'',
     ''rocksdb.estimate-pending-compaction-bytes'', ''rocksdb.num-running-compactions'',
     ''rocksdb.num-running-flushes'', ''rocksdb.actual-delayed-write-rate'', ''rocksdb.is-write-stopped'',
     ''rocksdb.block-cache-capacity'', ''rocksdb.block-cache-usage'', ''rocksdb.block-cache-pinned-usage'',
     ''rocksdb.num-immutable-mem-table-flushed'', ''rocksdb.num-running-compaction-sorted-runs'',
     ''rocksdb.base-level'', ''rocksdb.current-super-version-number'', ''rocksdb.is-file-deletions-enabled'',
     ''rocksdb.min-log-number-to-keep'', ''rocksdb.min-obsolete-sst-number-to-keep'',
     ''rocksdb.obsolete-sst-files-size'', ''rocksdb.oldest-snapshot-sequence'', ''rocksdb.oldest-snapshot-time'',
     ''rocksdb.estimate-oldest-key-time'', ''rocksdb.compaction-abort-count'', ''rocksdb.num-blob-files'',
     ''rocksdb.total-blob-file-size'', ''rocksdb.live-blob-file-size'', ''rocksdb.live-blob-file-garbage-size'',
     ''rocksdb.blob-cache-capacity'', ''rocksdb.blob-cache-usage'', ''rocksdb.blob-cache-pinned-usage'']"

definition rdb_stats :: "('db, 'opts, 'it) rocks_api \<Rightarrow> ('db, 'opts) rdb \<Rightarrow> (string \<times> double) list" where
  "rdb_stats api r =
     concat (map (\<lambda>p. case ra_property_int api (rd_db r) p of Some v \<Rightarrow> [(drop 8 p, u64_to_double v)] | None \<Rightarrow> []) RDB_PROPS)"

definition rdb_close :: "('db, 'opts, 'it) rocks_api \<Rightarrow> ('db, 'opts) rdb \<Rightarrow> ('db, 'opts) rdb option" where
  "rdb_close api r = Some (r\<lparr>rd_db := ra_destroy api (rd_db r)\<rparr>)"

definition rdb_datadir :: "('db, 'opts) rdb \<Rightarrow> string" where
  "rdb_datadir r = rd_path r"

text \<open>The option loop: an option RocksDB rejects is skipped and leaves the options as they were.\<close>

definition apply_option :: "('db, 'opts, 'it) rocks_api \<Rightarrow> string \<times> string \<Rightarrow> 'opts \<Rightarrow> 'opts" where
  "apply_option api kv ro =
     (if fst kv = ''data_dir'' then ro
      else (case ra_options_from_string api ro (snprintf 512 (fst kv @ ''='' @ snd kv)) of Inl err \<Rightarrow> ro | Inr nw \<Rightarrow> nw))"

definition rdb_backend :: "('db, 'opts, 'it) rocks_api \<Rightarrow> ('db, 'opts) rdb \<Rightarrow> (('db, 'opts) rdb, 'a) kv_backend" where
  "rdb_backend api r =
     \<lparr>be_name = ''rocksdb'', be_ctx = r, be_put = rdb_put api, be_putbatch = Some (rdb_putbatch api),
      be_get = rdb_get api, be_del = rdb_del api, be_delbatch = Some (rdb_delbatch api), be_range = rdb_range api,
      be_close = rdb_close api, be_version = Some rdb_version, be_stats = Some (rdb_stats api),
      be_datadir = Some rdb_datadir\<rparr>"

definition rocksdb_backend_open ::
  "('db, 'opts, 'it) rocks_api \<Rightarrow> (string \<Rightarrow> string option) \<Rightarrow> u32 \<Rightarrow> string option \<Rightarrow> kv_options option \<Rightarrow>
   (('db, 'opts) rdb, 'a) kv_backend option" where
  "rocksdb_backend_open api mkdtemp seed data_dir opts =
     (let base = (case kv_opt_str opts ''data_dir'' data_dir of None \<Rightarrow> ''/tmp'' | Some b \<Rightarrow> if b = [] then ''/tmp'' else b)
      in do { path \<leftarrow> mkdtemp (snprintf 256 (base @ ''/keybench-rocksdb-XXXXXX''));
              let ro = fold (apply_option api) (case opts of None \<Rightarrow> [] | Some ob \<Rightarrow> opt_kv ob)
                         (ra_set_create_if_missing api (ra_options_create api));
              (case ra_open api ro path of
                 Inl err \<Rightarrow> None
               | Inr db \<Rightarrow> Some (rdb_backend api \<lparr>rd_db = db, rd_opts = ro, rd_path = path\<rparr>)) })"

subsection \<open>What RocksDB promises\<close>

abbreviation ra_applies :: "('db \<Rightarrow> rows \<Rightarrow> bool) \<Rightarrow> ('db \<Rightarrow> string option \<times> 'db) \<Rightarrow> (rows \<Rightarrow> rows) \<Rightarrow> bool" where
  "ra_applies \<equiv> applies (\<lambda>err. err = None)"

abbreviation ra_stall_ends :: "('db \<Rightarrow> rows \<Rightarrow> bool) \<Rightarrow> ('db \<Rightarrow> 'db) \<Rightarrow> ('db \<Rightarrow> string option \<times> 'db) \<Rightarrow> bool" where
  "ra_stall_ends \<equiv> stall_ends rdb_retryable"

definition iter_ok :: "('db, 'opts, 'it) rocks_api \<Rightarrow> ('it \<Rightarrow> rows) \<Rightarrow> bool" where
  "iter_ok api it_rows \<longleftrightarrow>
     (\<forall>it. (ra_iter_valid api it \<longleftrightarrow> it_rows it \<noteq> []) \<and>
           (it_rows it \<noteq> [] \<longrightarrow> hd (it_rows it) = (ra_iter_key api it, ra_iter_value api it) \<and>
                              it_rows (ra_iter_next api it) = tl (it_rows it)))"

definition rocks_ok ::
  "('db, 'opts, 'it) rocks_api \<Rightarrow> ('it \<Rightarrow> rows) \<Rightarrow> ('db \<Rightarrow> rows \<Rightarrow> bool) \<Rightarrow> ('db \<Rightarrow> 'db) \<Rightarrow> bool" where
  "rocks_ok api it_rows R bg \<longleftrightarrow>
     (\<forall>db al. R db al \<longrightarrow> rows_ok al \<and> R (bg db) al) \<and>
     (\<forall>k v. ra_applies R (\<lambda>db. ra_put api db k v) (rows_put k v) \<and> ra_stall_ends R bg (\<lambda>db. ra_put api db k v)) \<and>
     (\<forall>k. ra_applies R (\<lambda>db. ra_delete api db k) (rows_del k) \<and> ra_stall_ends R bg (\<lambda>db. ra_delete api db k)) \<and>
     (\<forall>wb. ra_applies R (\<lambda>db. ra_write api db wb) (fold batch_rows wb) \<and> ra_stall_ends R bg (\<lambda>db. ra_write api db wb)) \<and>
     (\<forall>db al k v. R db al \<longrightarrow> ra_get api db k = Inr v \<longrightarrow> v = map_of al k) \<and>
     iter_ok api it_rows \<and>
     (\<forall>db al lo. R db al \<longrightarrow> it_rows (ra_iter_seek api db lo) = filter (\<lambda>r. lo \<le> fst r) al)"

subsection \<open>The engine keeps the interface\<close>

abbreviation rdb_rel :: "('db \<Rightarrow> rows \<Rightarrow> bool) \<Rightarrow> ('db, 'opts) rdb \<Rightarrow> rows \<Rightarrow> bool" where
  "rdb_rel R r al \<equiv> R (rd_db r) al"

abbreviation rdb_bg :: "('db \<Rightarrow> 'db) \<Rightarrow> ('db, 'opts) rdb \<Rightarrow> ('db, 'opts) rdb" where
  "rdb_bg bg r \<equiv> r\<lparr>rd_db := bg (rd_db r)\<rparr>"

abbreviation rdb_wrap :: "int \<Rightarrow> int \<Rightarrow> ('db \<Rightarrow> string option \<times> 'db) \<Rightarrow> ('db, 'opts) rdb \<Rightarrow> (int \<times> ('db, 'opts) rdb) option" where
  "rdb_wrap d e \<equiv> lift_call (write_result d e) rd_db (\<lambda>db. rd_db_update (\<lambda>_. db))"

lemma rdb_calls:
  "(\<lambda>r. rdb_put api r k v) = rdb_wrap 0 (- 1) (\<lambda>db. ra_put api db k v)"
  "(\<lambda>r. rdb_putbatch api r kvs) = rdb_wrap 0 (- 1) (\<lambda>db. ra_write api db (map (\<lambda>(k, v). BPut k v) kvs))"
  "(\<lambda>r. rdb_delbatch api r ks) = rdb_wrap 0 (- 1) (\<lambda>db. ra_write api db (map BDelete ks))"
  "(\<lambda>r. rdb_del api r k) = rdb_wrap 1 0 (\<lambda>db. ra_delete api db k)"
  by (simp_all add: fun_eq_iff rdb_put_def rdb_putbatch_def rdb_delbatch_def rdb_del_def case_prod_beta Let_def
      lift_call_def)

lemma write_result_retry: "d \<noteq> KV_RETRY \<Longrightarrow> e \<noteq> KV_RETRY \<Longrightarrow> write_result d e err = KV_RETRY \<longleftrightarrow> rdb_retryable err"
  by (auto simp: write_result_def rdb_retryable_def split: option.split)

lemma rdb_write_law:
  assumes "ra_applies R f upd" "ra_stall_ends R bg f" "ok d" "\<not> ok e" "\<not> ok KV_RETRY" "d \<noteq> KV_RETRY" "e \<noteq> KV_RETRY"
  shows "write_law (rdb_rel R) (rdb_bg bg) ok (rdb_wrap d e f :: ('db, 'opts) rdb \<Rightarrow> (int \<times> ('db, 'opts) rdb) option) upd"
proof (rule lifted_write_law [where again = rdb_retryable and good = "\<lambda>err. err = None"])
  show "ok (write_result d e err) \<longleftrightarrow> err = None" for err
    using assms(3-5) by (auto simp: write_result_def split: option.split)
qed (simp_all add: write_result_retry [OF assms(6,7)] assms(1,2))

lemma rdb_engine:
  assumes "rocks_ok api it_rows R bg"
  shows "engine (rdb_backend api (r0 :: ('db, 'opts) rdb)) (rdb_rel R) (rdb_bg bg)"
proof
  fix f g k v kvs ks
  have single: "ra_applies R (\<lambda>db. ra_put api db k v) (rows_put k v)" "ra_stall_ends R bg (\<lambda>db. ra_put api db k v)"
      "ra_applies R (\<lambda>db. ra_delete api db k) (rows_del k)" "ra_stall_ends R bg (\<lambda>db. ra_delete api db k)"
    using assms unfolding rocks_ok_def by blast+
  show "write_law (rdb_rel R) (rdb_bg bg) (\<lambda>rc. rc = 0) (\<lambda>c. be_put (rdb_backend api r0) c k v) (rows_put k v)"
    using single by (auto simp: rdb_backend_def rdb_calls KV_RETRY_def intro!: rdb_write_law)
  show "write_law (rdb_rel R) (rdb_bg bg) (\<lambda>rc. 0 < rc) (\<lambda>c. be_del (rdb_backend api r0) c k) (rows_del k)"
    using single by (auto simp: rdb_backend_def rdb_calls KV_RETRY_def intro!: rdb_write_law)
  have wb: "ra_applies R (\<lambda>db. ra_write api db wb) (fold batch_rows wb)" "ra_stall_ends R bg (\<lambda>db. ra_write api db wb)" for wb
    using assms unfolding rocks_ok_def by blast+
  show "write_law (rdb_rel R) (rdb_bg bg) (\<lambda>rc. rc = 0) (\<lambda>c. f c kvs) (rows_putall kvs)"
    if "be_putbatch (rdb_backend api r0) = Some f"
    using that wb [of "map (\<lambda>(k, v). BPut k v) kvs"]
    by (auto simp: rdb_backend_def rdb_calls fold_batch_put KV_RETRY_def intro!: rdb_write_law)
  show "write_law (rdb_rel R) (rdb_bg bg) (\<lambda>rc. rc = 0) (\<lambda>c. g c ks) (rows_delall ks)"
    if "be_delbatch (rdb_backend api r0) = Some g"
    using that wb [of "map BDelete ks"]
    by (auto simp: rdb_backend_def rdb_calls fold_batch_del KV_RETRY_def intro!: rdb_write_law)
next
  fix c :: "('db, 'opts) rdb" and al k assume "rdb_rel R c al"
  then show "\<exists>rc v c'. be_get (rdb_backend api r0) c k = Some (rc, v, c') \<and> rdb_rel R c' al \<and>
      (0 < rc \<longrightarrow> v = map_of al k \<and> v \<noteq> None) \<and> (rc = 0 \<longrightarrow> map_of al k = None)"
    using assms unfolding rocks_ok_def
    by (auto simp: rdb_backend_def rdb_get_def KV_ERR_def split: sum.split option.split; metis)
qed (use assms in \<open>auto simp: rocks_ok_def\<close>)

subsection \<open>Ranges\<close>

lemma rdb_scan_rows:
  assumes "iter_ok api it_rows" "rows_ok (it_rows it)"
  shows "rdb_scan api hi limit cb it n arg = Some (rows_feed 1 limit cb (filter (\<lambda>r. fst r < hi) (it_rows it)) n arg)"
  using assms(2)
proof (induction "it_rows it" arbitrary: it n arg)
  case Nil
  then have "\<not> ra_iter_valid api it" using assms(1) by (simp add: iter_ok_def)
  then show ?case using Nil by (simp add: rdb_scan.simps)
next
  case (Cons r rs)
  have rs: "it_rows it = r # rs" using Cons.hyps(2) by simp
  then have it: "ra_iter_valid api it" "r = (ra_iter_key api it, ra_iter_value api it)" "it_rows (ra_iter_next api it) = rs"
    using assms(1) unfolding iter_ok_def by (metis list.distinct(1) list.sel(1), metis list.distinct(1) list.sel(1), metis list.distinct(1) list.sel(3))
  have IH: "rdb_scan api hi limit cb (ra_iter_next api it) n arg = Some (rows_feed 1 limit cb (filter (\<lambda>r. fst r < hi) rs) n arg)" for n arg
    using Cons.hyps(1) [of "ra_iter_next api it"] it(3) Cons.prems rs by simp
  show ?case
  proof (cases "fst r < hi")
    case True
    then show ?thesis using it IH rs
      by (auto simp: rdb_scan.simps [of _ _ _ _ it] kv_keycmp_order not_le split: option.split prod.split)
  next
    case False
    have "fst x \<ge> hi" if "x \<in> set rs" for x using Cons.prems False that unfolding rs by fastforce
    then have none: "filter (\<lambda>r. fst r < hi) rs = []" by (meson filter_False leD)
    show ?thesis using it False rs none by (auto simp: rdb_scan.simps [of _ _ _ _ it] kv_keycmp_order)
  qed
qed

lemma rdb_range_rows:
  assumes "rocks_ok api it_rows R bg" "R (rd_db r) al"
  shows "rdb_range api r lo hi limit cb arg =
    (case rows_feed 1 limit cb (rows_range lo hi al) 0 arg of (n, arg') \<Rightarrow> Some (n, arg', r))"
proof -
  have it: "iter_ok api it_rows" "it_rows (ra_iter_seek api (rd_db r) lo) = filter (\<lambda>r. lo \<le> fst r) al" "rows_ok al"
    using assms unfolding rocks_ok_def by blast+
  have "rows_ok (filter (\<lambda>r. lo \<le> fst r) al)"
    using it(3) by (simp add: sorted_wrt_map sorted_wrt_filter)
  then have s: "rdb_scan api hi limit cb (ra_iter_seek api (rd_db r) lo) 0 arg =
      Some (rows_feed 1 limit cb (filter (\<lambda>r. fst r < hi) (filter (\<lambda>r. lo \<le> fst r) al)) 0 arg)"
    using rdb_scan_rows [OF it(1), of "ra_iter_seek api (rd_db r) lo"] it(2) by simp
  have "filter (\<lambda>r. fst r < hi) (filter (\<lambda>r. lo \<le> fst r) al) = rows_range lo hi al"
    unfolding rows_range_def filter_filter by (rule filter_cong) auto
  then show ?thesis using s by (simp add: rdb_range_def split: prod.split)
qed

subsection \<open>Properties\<close>

text \<open>
  The codes of the RocksDB engine: a put and the batches return 0 exactly when RocksDB reports no error,
  \<open>KV_RETRY\<close> exactly for the three transient messages, and -1 otherwise; a get tells found, absent and failed
  apart. A delete returns 1 for success, whether or not the key was there, and 0 for a failure: the code that means
  absent elsewhere.
\<close>

theorem rdb_codes:
  "\<exists>r1 r2 r3 r4. rdb_put api r k v = Some (write_result 0 (- 1) (fst (ra_put api (rd_db r) k v)), r1) \<and>
    rdb_putbatch api r kvs = Some (write_result 0 (- 1) (fst (ra_write api (rd_db r) (map (\<lambda>(k, v). BPut k v) kvs))), r2) \<and>
    rdb_delbatch api r ks = Some (write_result 0 (- 1) (fst (ra_write api (rd_db r) (map BDelete ks))), r3) \<and>
    rdb_del api r k = Some (write_result 1 0 (fst (ra_delete api (rd_db r) k)), r4) \<and>
    (write_result 0 (- 1) err = 0 \<longleftrightarrow> err = None) \<and>
    (write_result 0 (- 1) err = KV_RETRY \<longleftrightarrow> rdb_retryable err) \<and>
    (write_result 1 0 (Some ''IO error: no space'') = 0) \<and>
    (case ra_get api (rd_db r) k of
       Inl e \<Rightarrow> rdb_get api r k = Some (KV_ERR, None, r)
     | Inr None \<Rightarrow> rdb_get api r k = Some (0, None, r)
     | Inr (Some w) \<Rightarrow> rdb_get api r k = Some (1, Some w, r))"
proof -
  have "write_result 0 (- 1) err = 0 \<longleftrightarrow> err = None" by (auto simp: write_result_def KV_RETRY_def split: option.split)
  moreover have "write_result 0 (- 1) err = KV_RETRY \<longleftrightarrow> rdb_retryable err"
    by (rule write_result_retry) (simp_all add: KV_RETRY_def)
  moreover have "write_result 1 0 (Some ''IO error: no space'') = 0"
    by (simp add: write_result_def rdb_retryable_def starts_with_def)
  moreover have "case ra_get api (rd_db r) k of
       Inl e \<Rightarrow> rdb_get api r k = Some (KV_ERR, None, r)
     | Inr None \<Rightarrow> rdb_get api r k = Some (0, None, r)
     | Inr (Some w) \<Rightarrow> rdb_get api r k = Some (1, Some w, r)"
    by (simp add: rdb_get_def split: sum.split option.split)
  moreover have "\<exists>r1. rdb_put api r k v = Some (write_result 0 (- 1) (fst (ra_put api (rd_db r) k v)), r1)"
      "\<exists>r4. rdb_del api r k = Some (write_result 1 0 (fst (ra_delete api (rd_db r) k)), r4)"
      "\<exists>r2. rdb_putbatch api r kvs = Some (write_result 0 (- 1) (fst (ra_write api (rd_db r) (map (\<lambda>(k, v). BPut k v) kvs))), r2)"
      "\<exists>r3. rdb_delbatch api r ks = Some (write_result 0 (- 1) (fst (ra_write api (rd_db r) (map BDelete ks))), r3)"
    by (simp_all add: rdb_put_def rdb_del_def rdb_putbatch_def rdb_delbatch_def case_prod_beta Let_def)
  ultimately show ?thesis by blast
qed

text \<open>
  C24. Over a RocksDB that keeps its documented promises and whose stalls end, every put through the store
  returns, never with \<open>KV_RETRY\<close>; after a put that returned 0, a get that does not fail reads the value back and every
  other key as before; and a range feeds exactly the rows of the interval in order.
\<close>

theorem rocksdb_store_reads_back:
  assumes ok: "rocks_ok api it_rows R bg" and al: "R (rd_db c) al" and be: "be = rdb_backend api ri"
  shows "(\<exists>rc s. store_put (rdb_bg bg) (kv_at be c) k v = Some (rc, s) \<and> rc \<noteq> KV_RETRY \<and>
      (rc = 0 \<longrightarrow> (\<exists>rc' w s'. store_get s j = Some (rc', w, s') \<and> (0 \<le> rc' \<longrightarrow> w = (if j = k then Some v else map_of al j))))) \<and>
    store_range (kv_at be c) lo hi limit cb arg =
      (case rows_feed 1 limit cb (rows_range lo hi al) 0 arg of (n, arg') \<Rightarrow> Some (n, arg', kv_at be c))"
proof -
  have e: "engine be (rdb_rel R) (rdb_bg bg)" unfolding be by (rule rdb_engine [OF ok])
  obtain rc c' where put: "store_put (rdb_bg bg) (kv_at be c) k v = Some (rc, kv_at be c')" "rc \<noteq> KV_RETRY"
    using engine.store_put_ok [OF e al, of k v] by blast
  have "\<exists>rc' w s'. store_get (kv_at be c') j = Some (rc', w, s') \<and> (0 \<le> rc' \<longrightarrow> w = (if j = k then Some v else map_of al j))" if "rc = 0"
    using engine.get_after_put [OF e al, of k v "kv_at be c'" j] put(1) that by simp
  moreover have "store_range (kv_at be c) lo hi limit cb arg =
      (case rows_feed 1 limit cb (rows_range lo hi al) 0 arg of (n, arg') \<Rightarrow> Some (n, arg', kv_at be c))"
    using rdb_range_rows [OF ok al, of lo hi limit cb arg] by (simp add: store_range_def be rdb_backend_def split: prod.splits)
  ultimately show ?thesis using put by auto
qed

text \<open>An in-memory RocksDB that stalls once per write: the state is the rows and whether the next write stalls.\<close>

definition once :: "(rows \<Rightarrow> rows) \<Rightarrow> rows \<times> bool \<Rightarrow> string option \<times> rows \<times> bool" where
  "once upd db = (if snd db then (Some ''Busy'', fst db, False) else (None, upd (fst db), True))"

definition sample_rocks :: "(rows \<times> bool, unit, rows) rocks_api" where
  "sample_rocks = \<lparr>ra_put = (\<lambda>db k v. once (rows_put k v) db), ra_write = (\<lambda>db wb. once (fold batch_rows wb) db),
     ra_get = (\<lambda>db k. Inr (map_of (fst db) k)), ra_delete = (\<lambda>db k. once (rows_del k) db),
     ra_iter_seek = (\<lambda>db lo. filter (\<lambda>r. lo \<le> fst r) (fst db)), ra_iter_valid = (\<lambda>it. it \<noteq> []),
     ra_iter_key = (\<lambda>it. fst (hd it)), ra_iter_value = (\<lambda>it. snd (hd it)), ra_iter_next = tl,
     ra_property_int = (\<lambda>_ _. None), ra_options_create = (), ra_set_create_if_missing = (\<lambda>x. x),
     ra_options_from_string = (\<lambda>x _. Inr x), ra_open = (\<lambda>_ _. Inr ([], True)), ra_destroy = (\<lambda>db. db)\<rparr>"

lemma once_ok:
  assumes "\<And>al. rows_ok al \<Longrightarrow> rows_ok (upd al)"
  shows "ra_applies (\<lambda>db al. fst db = al \<and> rows_ok al) (once upd) upd" "ra_stall_ends (\<lambda>db al. fst db = al \<and> rows_ok al) (\<lambda>db. db) (once upd)"
proof -
  show "ra_applies (\<lambda>db al. fst db = al \<and> rows_ok al) (once upd) upd" using assms by (auto simp: applies_def once_def)
  have "settles rdb_retryable (\<lambda>db. db) (once upd) 1 db" for db by (simp add: once_def rdb_retryable_def)
  then show "ra_stall_ends (\<lambda>db al. fst db = al \<and> rows_ok al) (\<lambda>db. db) (once upd)" unfolding stall_ends_def by blast
qed

lemma sample_rocks_ok: "rocks_ok sample_rocks (\<lambda>it. it) (\<lambda>db al. fst db = al \<and> rows_ok al) (\<lambda>db. db)"
  unfolding rocks_ok_def
proof (intro conjI allI)
  fix k v wb
  show "ra_applies (\<lambda>db al. fst db = al \<and> rows_ok al) (\<lambda>db. ra_put sample_rocks db k v) (rows_put k v)"
    "ra_stall_ends (\<lambda>db al. fst db = al \<and> rows_ok al) (\<lambda>db. db) (\<lambda>db. ra_put sample_rocks db k v)"
    using once_ok [of "rows_put k v"] rows_ok_put by (auto simp: sample_rocks_def)
  show "ra_applies (\<lambda>db al. fst db = al \<and> rows_ok al) (\<lambda>db. ra_delete sample_rocks db k) (rows_del k)"
    "ra_stall_ends (\<lambda>db al. fst db = al \<and> rows_ok al) (\<lambda>db. db) (\<lambda>db. ra_delete sample_rocks db k)"
    using once_ok [of "rows_del k"] rows_ok_del by (auto simp: sample_rocks_def)
  show "ra_applies (\<lambda>db al. fst db = al \<and> rows_ok al) (\<lambda>db. ra_write sample_rocks db wb) (fold batch_rows wb)"
    "ra_stall_ends (\<lambda>db al. fst db = al \<and> rows_ok al) (\<lambda>db. db) (\<lambda>db. ra_write sample_rocks db wb)"
    using once_ok [of "fold batch_rows wb"] rows_ok_batch by (auto simp: sample_rocks_def)
qed (auto simp: sample_rocks_def iter_ok_def)

theorem rocksdb_store_reads_back_witness:
  "\<exists>rc s. store_put (rdb_bg (\<lambda>db. db)) (kv_at (rdb_backend sample_rocks \<lparr>rd_db = ([], True), rd_opts = (), rd_path = []\<rparr> :: ((rows \<times> bool, unit) rdb, unit) kv_backend)
      \<lparr>rd_db = ([], True), rd_opts = (), rd_path = []\<rparr>) ''k'' ''v'' = Some (rc, s) \<and> rc \<noteq> KV_RETRY"
  using rocksdb_store_reads_back [OF sample_rocks_ok _ refl, where c = "\<lparr>rd_db = ([], True), rd_opts = (), rd_path = []\<rparr>"
      and al = "[]" and ri = "\<lparr>rd_db = ([], True), rd_opts = (), rd_path = []\<rparr>" and k = "''k''" and v = "''v''"]
  by fastforce

text \<open>
  C25. The engines disagree on the count of a scan that the callback stops: the skiplist does not count the row on which
  it stopped, RocksDB does. On every interval with a row, a callback that stops at once makes the skiplist return 0 and
  RocksDB 1; a callback that never stops makes both return the same count.
\<close>

theorem stopped_scans_counted_differently:
  assumes "sl_reach s al" and "rocks_ok api it_rows R bg" "R (rd_db r) al" and "rows_range lo hi al \<noteq> []"
  shows "(\<exists>arg'. sl_range s lo hi 0 (Some (\<lambda>a k v. (1, a))) arg = Some (0, arg', s)) \<and>
    (\<exists>arg'. rdb_range api r lo hi 0 (Some (\<lambda>a k v. (1, a))) arg = Some (1, arg', r)) \<and>
    (\<exists>n arg'. sl_range s lo hi limit None arg = Some (n, arg', s) \<and> rdb_range api r lo hi limit None arg = Some (n, arg', r))"
proof -
  obtain k v rest where rr: "rows_range lo hi al = (k, v) # rest" using assms(4) by (cases "rows_range lo hi al") auto
  have same: "rows_feed 1 limit None xs n arg = rows_feed 0 limit None xs n arg" for xs n
    by (induction xs arbitrary: n) auto
  show ?thesis
    unfolding sl_abs_range [OF sl_reach_abs [OF assms(1)]] rdb_range_rows [OF assms(2,3)] rr same
    by (auto split: prod.split)
qed

theorem stopped_scans_counted_differently_witness:
  "\<exists>s r. sl_range s ''a'' ''c'' 0 (Some (\<lambda>a k v. (1, a))) () = Some (0, (), s) \<and>
     rdb_range sample_rocks r ''a'' ''c'' 0 (Some (\<lambda>a k v. (1, a))) () = Some (1, (), r)"
proof -
  obtain s where s: "sl_reach s (rows_put ''b'' ''2'' [])"
    using sl_abs_put [OF sl_abs_new [of 0], of "''b''" "''2''"] reach_open reach_put by blast
  define r :: "(rows \<times> bool, unit) rdb" where "r = \<lparr>rd_db = (rows_put ''b'' ''2'' [], True), rd_opts = (), rd_path = []\<rparr>"
  have "rows_range ''a'' ''c'' (rows_put ''b'' ''2'' []) \<noteq> []" by (simp add: rows_range_def less_char_def)
  from stopped_scans_counted_differently [OF s sample_rocks_ok _ this, of r "()" 0] show ?thesis by (auto simp: r_def)
qed

end
