(* ===== verification/KB_Tidesdb.thy ===== *)
theory KB_Tidesdb
  imports KB_Store KB_Config
begin

text \<open>
  The TidesDB engine, \<open>src/backends/tidesdb/tidesdb.c\<close>. The library is the record \<open>tides_api\<close>, a parameter of every
  operation. Its state, with the transactions, iterators and buffers it has handed out, is one value of type \<open>'db\<close> that
  each call takes and returns; a transaction or an iterator is a handle into it. Messages on the error stream are not
  modelled. An \<open>abort\<close> while opening, and a conversion of an option that C leaves undefined, is \<open>None\<close>.

  \<open>tides_ok\<close> states what the TidesDB documentation promises of the calls: a committed transaction applies its writes in
  order and one that does not commit applies none, a new transaction reads what was committed, and an iterator enumerates
  the rows from the seek key in order. \<open>tides_held\<close> states which calls hand out and take back an object the caller has to
  release. Under the first the engine satisfies the interface \<open>engine\<close> of the store; under the second every operation
  gives back all it took, whichever call fails.
\<close>

subsection \<open>The interface of TidesDB\<close>

datatype tdb_rc = TDB_SUCCESS | TDB_ERR_NOT_FOUND | TDB_ERR_LOCKED | TDB_ERR_CONFLICT | TDB_ERR int

datatype tdb_compression =
  TDB_COMPRESS_NONE | TDB_COMPRESS_SNAPPY | TDB_COMPRESS_LZ4 | TDB_COMPRESS_ZSTD | TDB_COMPRESS_LZ4_FAST

datatype tdb_sync = TDB_SYNC_NONE | TDB_SYNC_FULL | TDB_SYNC_INTERVAL

datatype tdb_isolation =
  TDB_ISOLATION_READ_UNCOMMITTED | TDB_ISOLATION_READ_COMMITTED | TDB_ISOLATION_REPEATABLE_READ |
  TDB_ISOLATION_SNAPSHOT | TDB_ISOLATION_SERIALIZABLE

datatype tdb_log_level = TDB_LOG_NONE | TDB_LOG_TRACE | TDB_LOG_INFO | TDB_LOG_WARN | TDB_LOG_ERROR

type_synonym cint = "32 word"

text \<open>The fields of the two configurations that the engine sets. A \<open>float\<close> is the rational it stands for.\<close>

record tdb_config =
  tc_db_path :: string
  tc_num_flush_threads :: cint
  tc_num_compaction_threads :: cint
  tc_block_cache_size :: u64
  tc_max_open_sstables :: u64
  tc_log_level :: tdb_log_level
  tc_write_buffer_size :: u64
  tc_skip_list_max_level :: cint
  tc_skip_list_probability :: double
  tc_sync_mode :: tdb_sync
  tc_sync_interval_us :: u64
  tc_l0_queue_stall_threshold :: cint
  tc_vlog_segment_size :: u64
  tc_idle_flush_seconds :: cint
  tc_txn_timeout_seconds :: u64
  tc_log_to_file :: cint
  tc_log_truncation_at :: u64
  tc_value_separation_threshold :: u64

record tdb_cf_config =
  cc_name :: string
  cc_level_size_ratio :: u64
  cc_min_levels :: cint
  cc_dividing_level_offset :: cint
  cc_keep_values_inline :: cint
  cc_btree_klog_block_size :: u64
  cc_encoding_pipeline :: "tdb_compression list"
  cc_encoding_count :: nat
  cc_enable_bloom_filter :: cint
  cc_bloom_fpr :: double
  cc_default_isolation_level :: tdb_isolation
  cc_l1_file_count_trigger :: cint
  cc_tombstone_density_trigger :: double
  cc_tombstone_density_min_entries :: u64

record tdb_cf_figures =
  cs_total_keys :: int
  cs_num_levels :: int
  cs_total_data_size :: int
  cs_avg_key_size :: double
  cs_avg_value_size :: double
  cs_read_amp :: double
  cs_total_tombstones :: int
  cs_tombstone_ratio :: double
  cs_max_sst_density :: double
  cs_max_sst_density_level :: int
  cs_btree_total_nodes :: int
  cs_btree_max_height :: int
  cs_btree_avg_height :: double
  cs_compaction_count :: int
  cs_wal_bytes_written :: int
  cs_flush_bytes_written :: int
  cs_compaction_bytes_written :: int
  cs_compaction_bytes_read :: int
  cs_user_bytes_written :: int
  cs_unflushed_key_count :: int
  cs_filter_resident_bytes :: int
  cs_level_num_sstables :: "nat \<Rightarrow> int"
  cs_level_key_counts :: "nat \<Rightarrow> int"
  cs_level_sizes :: "nat \<Rightarrow> int"
  cs_level_tombstone_counts :: "nat \<Rightarrow> int"

text \<open>The figures of the database are all integers: the library's structure is the function that reads a field by its name.\<close>

type_synonym tdb_db_figures = "string \<Rightarrow> int"

record tdb_cache_figures =
  ca_enabled :: bool
  ca_total_entries :: int
  ca_total_bytes :: int
  ca_hits :: int
  ca_misses :: int
  ca_hit_rate :: double
  ca_num_partitions :: int

record ('db, 'txn, 'it, 'cf) tides_api =
  ta_txn_begin :: "'db \<Rightarrow> tdb_rc \<times> 'txn \<times> 'db"
  ta_txn_put :: "'txn \<Rightarrow> 'cf \<Rightarrow> bytes \<Rightarrow> bytes \<Rightarrow> 'db \<Rightarrow> tdb_rc \<times> 'db"
  ta_txn_delete :: "'txn \<Rightarrow> 'cf \<Rightarrow> bytes \<Rightarrow> 'db \<Rightarrow> tdb_rc \<times> 'db"
  ta_txn_get :: "'txn \<Rightarrow> 'cf \<Rightarrow> bytes \<Rightarrow> 'db \<Rightarrow> tdb_rc \<times> bytes option \<times> 'db"
  ta_txn_commit :: "'txn \<Rightarrow> 'db \<Rightarrow> tdb_rc \<times> 'db"
  ta_txn_free :: "'txn \<Rightarrow> 'db \<Rightarrow> 'db"
  ta_free :: "bytes \<Rightarrow> 'db \<Rightarrow> 'db"
  ta_iter_new :: "'txn \<Rightarrow> 'cf \<Rightarrow> 'db \<Rightarrow> tdb_rc \<times> 'it \<times> 'db"
  ta_iter_seek :: "'it \<Rightarrow> bytes \<Rightarrow> 'db \<Rightarrow> 'db"
  ta_iter_valid :: "'it \<Rightarrow> 'db \<Rightarrow> bool"
  ta_iter_key_value :: "'it \<Rightarrow> 'db \<Rightarrow> tdb_rc \<times> bytes \<times> bytes \<times> 'db"
  ta_iter_next :: "'it \<Rightarrow> 'db \<Rightarrow> tdb_rc \<times> 'db"
  ta_iter_free :: "'it \<Rightarrow> 'db \<Rightarrow> 'db"
  ta_version :: string
  ta_max_levels :: int
  ta_get_cf_stats :: "'cf \<Rightarrow> 'db \<Rightarrow> tdb_cf_figures option"
  ta_get_db_stats :: "'db \<Rightarrow> tdb_db_figures option"
  ta_get_cache_stats :: "'db \<Rightarrow> tdb_cache_figures option"
  ta_close :: "'db \<Rightarrow> 'db"
  ta_walk :: "'db \<Rightarrow> string \<Rightarrow> string list"
  ta_remove :: "string \<Rightarrow> 'db \<Rightarrow> 'db"
  ta_default_config :: tdb_config
  ta_default_cf_config :: tdb_cf_config
  ta_cf_name_size :: nat
  ta_open :: "tdb_config \<Rightarrow> tdb_rc \<times> 'db"
  ta_create_cf :: "string \<Rightarrow> tdb_cf_config \<Rightarrow> 'db \<Rightarrow> tdb_rc \<times> 'db"
  ta_get_cf :: "string \<Rightarrow> 'db \<Rightarrow> 'cf option"

record ('db, 'cf) tdb =
  td_db :: 'db
  td_cf :: 'cf
  td_path :: string

subsection \<open>Options\<close>

definition comp_from_name :: "string option \<Rightarrow> tdb_compression \<Rightarrow> tdb_compression" where
  "comp_from_name s dflt =
     (case s of
        None \<Rightarrow> dflt
      | Some s \<Rightarrow>
          if s = ''none'' then TDB_COMPRESS_NONE else if s = ''snappy'' then TDB_COMPRESS_SNAPPY
          else if s = ''lz4'' then TDB_COMPRESS_LZ4 else if s = ''zstd'' then TDB_COMPRESS_ZSTD
          else if s = ''lz4_fast'' then TDB_COMPRESS_LZ4_FAST else dflt)"

definition sync_from_name :: "string option \<Rightarrow> tdb_sync \<Rightarrow> tdb_sync" where
  "sync_from_name s dflt =
     (case s of
        None \<Rightarrow> dflt
      | Some s \<Rightarrow>
          if s = ''none'' then TDB_SYNC_NONE else if s = ''full'' then TDB_SYNC_FULL
          else if s = ''interval'' then TDB_SYNC_INTERVAL else dflt)"

definition iso_from_name :: "string option \<Rightarrow> tdb_isolation \<Rightarrow> tdb_isolation" where
  "iso_from_name s dflt =
     (case s of
        None \<Rightarrow> dflt
      | Some s \<Rightarrow>
          if s = ''read_uncommitted'' then TDB_ISOLATION_READ_UNCOMMITTED
          else if s = ''read_committed'' then TDB_ISOLATION_READ_COMMITTED
          else if s = ''repeatable_read'' then TDB_ISOLATION_REPEATABLE_READ
          else if s = ''snapshot'' then TDB_ISOLATION_SNAPSHOT
          else if s = ''serializable'' then TDB_ISOLATION_SERIALIZABLE else dflt)"

definition log_from_name :: "string option \<Rightarrow> tdb_log_level \<Rightarrow> tdb_log_level" where
  "log_from_name s dflt =
     (case s of
        None \<Rightarrow> dflt
      | Some s \<Rightarrow>
          if s = ''none'' then TDB_LOG_NONE else if s = ''trace'' \<or> s = ''debug'' then TDB_LOG_TRACE
          else if s = ''info'' then TDB_LOG_INFO else if s = ''warn'' then TDB_LOG_WARN
          else if s = ''error'' \<or> s = ''fatal'' then TDB_LOG_ERROR else dflt)"

text \<open>
  An integer option into a field of type \<open>int\<close>, or of a 64-bit type: the current value is the default, and the cast back
  wraps.
\<close>

definition opt_word :: "kv_options option \<Rightarrow> string \<Rightarrow> 'a::len word \<Rightarrow> 'a word option" where
  "opt_word ob key w = map_option word_of_int (kv_opt_int ob key (sint w))"

text \<open>Two spellings of an option: the second one wins, and the default of the first is the current value.\<close>

definition opt_word2 :: "kv_options option \<Rightarrow> string \<Rightarrow> string \<Rightarrow> 'a::len word \<Rightarrow> 'a word option" where
  "opt_word2 ob old key w = do { v \<leftarrow> opt_word ob old w; opt_word ob key v }"

text \<open>A string option read by \<open>atof\<close>; \<open>(float)\<close> rounds to 24 bits.\<close>

definition opt_double :: "kv_options option \<Rightarrow> string \<Rightarrow> double \<Rightarrow> double option" where
  "opt_double ob key x = (case kv_opt_str ob key None of None \<Rightarrow> Some x | Some s \<Rightarrow> atof s)"

definition to_float :: "double \<Rightarrow> double" where
  "to_float x =
     (if x = 0 then 0
      else let u = 2 powi (ilog2 \<bar>x\<bar> - 23); y = of_int (rne (\<bar>x\<bar> / u)) * u in if x < 0 then - y else y)"

definition opt_float :: "kv_options option \<Rightarrow> string \<Rightarrow> double \<Rightarrow> double option" where
  "opt_float ob key x = (case kv_opt_str ob key None of None \<Rightarrow> Some x | Some s \<Rightarrow> map_option to_float (atof s))"

definition tdb_apply_db_config :: "kv_options option \<Rightarrow> tdb_config \<Rightarrow> tdb_config option" where
  "tdb_apply_db_config ob c = do {
     flush \<leftarrow> opt_word ob ''num_flush_threads'' (tc_num_flush_threads c);
     compaction \<leftarrow> opt_word ob ''num_compaction_threads'' (tc_num_compaction_threads c);
     cache \<leftarrow> opt_word ob ''block_cache_size'' (tc_block_cache_size c);
     sstables \<leftarrow> opt_word ob ''max_open_sstables'' (tc_max_open_sstables c);
     let log = log_from_name (kv_opt_str ob ''log_level'' None) (tc_log_level c);
     buffer \<leftarrow> opt_word2 ob ''write_buffer_size'' ''memtable_write_buffer_size'' (tc_write_buffer_size c);
     max_level \<leftarrow> opt_word2 ob ''skip_list_max_level'' ''memtable_skip_list_max_level'' (tc_skip_list_max_level c);
     prob \<leftarrow> opt_float ob ''skip_list_probability'' (tc_skip_list_probability c);
     prob \<leftarrow> opt_float ob ''memtable_skip_list_probability'' prob;
     let sync = sync_from_name (kv_opt_str ob ''sync_mode'' None) (tc_sync_mode c);
     interval \<leftarrow> opt_word2 ob ''sync_interval_us'' ''memtable_sync_interval_us'' (tc_sync_interval_us c);
     stall \<leftarrow> opt_word2 ob ''l0_queue_stall_threshold'' ''memtable_l0_queue_stall_threshold'' (tc_l0_queue_stall_threshold c);
     vlog \<leftarrow> opt_word ob ''vlog_segment_size'' (tc_vlog_segment_size c);
     idle \<leftarrow> opt_word ob ''memtable_idle_flush_seconds'' (tc_idle_flush_seconds c);
     timeout \<leftarrow> opt_word ob ''txn_timeout_seconds'' (tc_txn_timeout_seconds c);
     to_file \<leftarrow> opt_word ob ''log_to_file'' (tc_log_to_file c);
     truncation \<leftarrow> opt_word ob ''log_truncation_at'' (tc_log_truncation_at c);
     sep \<leftarrow> opt_word2 ob ''klog_value_threshold'' ''value_separation_threshold'' (tc_value_separation_threshold c);
     Some (c\<lparr>tc_num_flush_threads := flush, tc_num_compaction_threads := compaction, tc_block_cache_size := cache,
             tc_max_open_sstables := sstables, tc_log_level := log, tc_write_buffer_size := buffer,
             tc_skip_list_max_level := max_level, tc_skip_list_probability := prob, tc_sync_mode := sync,
             tc_sync_interval_us := interval, tc_l0_queue_stall_threshold := stall, tc_vlog_segment_size := vlog,
             tc_idle_flush_seconds := idle, tc_txn_timeout_seconds := timeout, tc_log_to_file := to_file,
             tc_log_truncation_at := truncation, tc_value_separation_threshold := sep\<rparr>) }"

definition tdb_apply_encoding :: "kv_options option \<Rightarrow> tdb_cf_config \<Rightarrow> tdb_cf_config" where
  "tdb_apply_encoding ob cf =
     (case kv_opt_str ob ''compression'' None of
        None \<Rightarrow> cf
      | Some s \<Rightarrow>
          (let algo = comp_from_name (Some s) TDB_COMPRESS_NONE
           in if algo = TDB_COMPRESS_NONE then cf\<lparr>cc_encoding_count := 0\<rparr>
              else cf\<lparr>cc_encoding_pipeline := (cc_encoding_pipeline cf)[0 := algo], cc_encoding_count := 1\<rparr>))"

definition tdb_apply_cf_config :: "kv_options option \<Rightarrow> tdb_cf_config \<Rightarrow> tdb_cf_config option" where
  "tdb_apply_cf_config ob cf = do {
     ratio \<leftarrow> opt_word ob ''level_size_ratio'' (cc_level_size_ratio cf);
     min_levels \<leftarrow> opt_word ob ''min_levels'' (cc_min_levels cf);
     dividing \<leftarrow> opt_word ob ''dividing_level_offset'' (cc_dividing_level_offset cf);
     inline \<leftarrow> opt_word ob ''keep_values_inline'' (cc_keep_values_inline cf);
     block \<leftarrow> opt_word ob ''btree_klog_block_size'' (cc_btree_klog_block_size cf);
     let cf = tdb_apply_encoding ob cf;
     bloom \<leftarrow> opt_word ob ''enable_bloom_filter'' (cc_enable_bloom_filter cf);
     fpr \<leftarrow> opt_double ob ''bloom_fpr'' (cc_bloom_fpr cf);
     let iso = iso_from_name (kv_opt_str ob ''isolation'' None) (cc_default_isolation_level cf);
     l1 \<leftarrow> opt_word ob ''l1_file_count_trigger'' (cc_l1_file_count_trigger cf);
     density \<leftarrow> opt_double ob ''tombstone_density_trigger'' (cc_tombstone_density_trigger cf);
     entries \<leftarrow> opt_word ob ''tombstone_density_min_entries'' (cc_tombstone_density_min_entries cf);
     Some (cf\<lparr>cc_level_size_ratio := ratio, cc_min_levels := min_levels, cc_dividing_level_offset := dividing,
              cc_keep_values_inline := inline, cc_btree_klog_block_size := block, cc_enable_bloom_filter := bloom,
              cc_bloom_fpr := fpr, cc_default_isolation_level := iso, cc_l1_file_count_trigger := l1,
              cc_tombstone_density_trigger := density, cc_tombstone_density_min_entries := entries\<rparr>) }"

subsection \<open>Operations\<close>

definition tdb_retryable :: "tdb_rc \<Rightarrow> bool" where
  "tdb_retryable rc \<longleftrightarrow> rc = TDB_ERR_LOCKED \<or> rc = TDB_ERR_CONFLICT"

text \<open>The shared frame of the writes: begin, the writes of \<open>body\<close>, commit if they all succeeded, release.\<close>

definition in_txn ::
  "('db, 'txn, 'it, 'cf) tides_api \<Rightarrow> ('txn \<Rightarrow> 'db \<Rightarrow> tdb_rc \<times> 'db) \<Rightarrow> 'db \<Rightarrow> tdb_rc \<times> 'db" where
  "in_txn api body db =
     (case ta_txn_begin api db of (rc, txn, db) \<Rightarrow>
        if rc = TDB_SUCCESS then
          (case body txn db of (rc, db) \<Rightarrow>
             (case (if rc = TDB_SUCCESS then ta_txn_commit api txn db else (rc, db)) of (rc, db) \<Rightarrow>
                (rc, ta_txn_free api txn db)))
        else (rc, db))"

definition tdb_result :: "int \<Rightarrow> int \<Rightarrow> tdb_rc \<Rightarrow> int" where
  "tdb_result good failed rc = (if rc = TDB_SUCCESS then good else if tdb_retryable rc then KV_RETRY else failed)"

fun txn_puts :: "('db, 'txn, 'it, 'cf) tides_api \<Rightarrow> 'cf \<Rightarrow> (bytes \<times> bytes) list \<Rightarrow> 'txn \<Rightarrow> 'db \<Rightarrow> tdb_rc \<times> 'db" where
  "txn_puts api cf [] txn db = (TDB_SUCCESS, db)"
| "txn_puts api cf ((k, v) # kvs) txn db =
     (case ta_txn_put api txn cf k v db of (rc, db) \<Rightarrow> if rc = TDB_SUCCESS then txn_puts api cf kvs txn db else (rc, db))"

fun txn_dels :: "('db, 'txn, 'it, 'cf) tides_api \<Rightarrow> 'cf \<Rightarrow> bytes list \<Rightarrow> 'txn \<Rightarrow> 'db \<Rightarrow> tdb_rc \<times> 'db" where
  "txn_dels api cf [] txn db = (TDB_SUCCESS, db)"
| "txn_dels api cf (k # ks) txn db =
     (case ta_txn_delete api txn cf k db of (rc, db) \<Rightarrow> if rc = TDB_SUCCESS then txn_dels api cf ks txn db else (rc, db))"

definition tdb_put :: "('db, 'txn, 'it, 'cf) tides_api \<Rightarrow> ('db, 'cf) tdb \<Rightarrow> bytes \<Rightarrow> bytes \<Rightarrow> (int \<times> ('db, 'cf) tdb) option" where
  "tdb_put api t k v =
     (let (rc, db) = in_txn api (\<lambda>txn. ta_txn_put api txn (td_cf t) k v) (td_db t)
      in Some (tdb_result 0 (- 1) rc, t\<lparr>td_db := db\<rparr>))"

definition tdb_putbatch :: "('db, 'txn, 'it, 'cf) tides_api \<Rightarrow> ('db, 'cf) tdb \<Rightarrow> (bytes \<times> bytes) list \<Rightarrow> (int \<times> ('db, 'cf) tdb) option" where
  "tdb_putbatch api t kvs =
     (let (rc, db) = in_txn api (txn_puts api (td_cf t) kvs) (td_db t)
      in Some (tdb_result 0 (- 1) rc, t\<lparr>td_db := db\<rparr>))"

definition tdb_delbatch :: "('db, 'txn, 'it, 'cf) tides_api \<Rightarrow> ('db, 'cf) tdb \<Rightarrow> bytes list \<Rightarrow> (int \<times> ('db, 'cf) tdb) option" where
  "tdb_delbatch api t ks =
     (let (rc, db) = in_txn api (txn_dels api (td_cf t) ks) (td_db t)
      in Some (tdb_result 0 (- 1) rc, t\<lparr>td_db := db\<rparr>))"

definition tdb_get :: "('db, 'txn, 'it, 'cf) tides_api \<Rightarrow> ('db, 'cf) tdb \<Rightarrow> bytes \<Rightarrow> (int \<times> bytes option \<times> ('db, 'cf) tdb) option" where
  "tdb_get api t k =
     (case ta_txn_begin api (td_db t) of (rc, txn, db) \<Rightarrow>
        if rc \<noteq> TDB_SUCCESS then Some (KV_ERR, None, t\<lparr>td_db := db\<rparr>)
        else
          (case ta_txn_get api txn (td_cf t) k db of (rc, val, db) \<Rightarrow>
             let db = ta_txn_free api txn db
             in if rc = TDB_SUCCESS \<and> val \<noteq> None then Some (1, val, t\<lparr>td_db := ta_free api (the val) db\<rparr>)
                else if rc = TDB_ERR_NOT_FOUND then Some (0, None, t\<lparr>td_db := db\<rparr>)
                else Some (KV_ERR, None, t\<lparr>td_db := db\<rparr>)))"

definition tdb_del :: "('db, 'txn, 'it, 'cf) tides_api \<Rightarrow> ('db, 'cf) tdb \<Rightarrow> bytes \<Rightarrow> (int \<times> ('db, 'cf) tdb) option" where
  "tdb_del api t k =
     (let (rc, db) = in_txn api (\<lambda>txn. ta_txn_delete api txn (td_cf t) k) (td_db t)
      in Some (tdb_result 1 0 rc, t\<lparr>td_db := db\<rparr>))"

partial_function (option) tdb_scan ::
  "('db, 'txn, 'it, 'cf) tides_api \<Rightarrow> bytes \<Rightarrow> int \<Rightarrow> 'a kv_range_cb option \<Rightarrow> 'it \<Rightarrow> int \<Rightarrow> 'a \<Rightarrow> 'db \<Rightarrow> (int \<times> 'a \<times> 'db) option" where
  "tdb_scan api hi limit cb it n arg db =
     (if ta_iter_valid api it db \<and> (limit \<le> 0 \<or> n < limit) then
        (case ta_iter_key_value api it db of (rc, k, v, db) \<Rightarrow>
           if rc \<noteq> TDB_SUCCESS then Some (n, arg, db)
           else
             (let past_hi = kv_keycmp k hi \<ge> 0;
                  (n, stop, arg) =
                    (if past_hi then (n, 0, arg)
                     else (n + 1, case cb of None \<Rightarrow> (0, arg) | Some f \<Rightarrow> f arg k v));
                  db = ta_free api v (ta_free api k db)
              in if past_hi \<or> stop \<noteq> 0 then Some (n, arg, db)
                 else (case ta_iter_next api it db of (rc, db) \<Rightarrow>
                         if rc \<noteq> TDB_SUCCESS then Some (n, arg, db) else tdb_scan api hi limit cb it n arg db)))
      else Some (n, arg, db))"

declare tdb_scan.simps [code]

definition tdb_range ::
  "('db, 'txn, 'it, 'cf) tides_api \<Rightarrow> ('db, 'cf) tdb \<Rightarrow> bytes \<Rightarrow> bytes \<Rightarrow> int \<Rightarrow> 'a kv_range_cb option \<Rightarrow> 'a \<Rightarrow>
   (int \<times> 'a \<times> ('db, 'cf) tdb) option" where
  "tdb_range api t lo hi limit cb arg =
     (case ta_txn_begin api (td_db t) of (rc, txn, db) \<Rightarrow>
        if rc \<noteq> TDB_SUCCESS then Some (0, arg, t\<lparr>td_db := db\<rparr>)
        else
          (case ta_iter_new api txn (td_cf t) db of (rc, it, db) \<Rightarrow>
             if rc \<noteq> TDB_SUCCESS then Some (0, arg, t\<lparr>td_db := ta_txn_free api txn db\<rparr>)
             else do {
               (n, arg, db) \<leftarrow> tdb_scan api hi limit cb it 0 arg (ta_iter_seek api it lo db);
               Some (n, arg, t\<lparr>td_db := ta_txn_free api txn (ta_iter_free api it db)\<rparr>) }))"

definition tdb_version :: "('db, 'txn, 'it, 'cf) tides_api \<Rightarrow> ('db, 'cf) tdb \<Rightarrow> string" where
  "tdb_version api t = ''tidesdb '' @ ta_version api"

definition tdb_datadir :: "('db, 'cf) tdb \<Rightarrow> string" where
  "tdb_datadir t = td_path t"

subsection \<open>Statistics\<close>

definition report_levels :: "('db, 'txn, 'it, 'cf) tides_api \<Rightarrow> tdb_cf_figures \<Rightarrow> nat" where
  "report_levels api st = nat (if cs_num_levels st > ta_max_levels api then ta_max_levels api else cs_num_levels st)"

definition level_name :: "nat \<Rightarrow> string \<Rightarrow> string" where
  "level_name i what = snprintf 24 (''level'' @ show_nat (i + 1) @ ''_'' @ what)"

definition tdb_cf_level_stats :: "('db, 'txn, 'it, 'cf) tides_api \<Rightarrow> tdb_cf_figures \<Rightarrow> (string \<times> double) list" where
  "tdb_cf_level_stats api st =
     concat (map (\<lambda>i. [(level_name i ''sstables'', int_to_double (cs_level_num_sstables st i)),
                       (level_name i ''keys'', int_to_double (cs_level_key_counts st i)),
                       (level_name i ''bytes'', int_to_double (cs_level_sizes st i)),
                       (level_name i ''tombstones'', int_to_double (cs_level_tombstone_counts st i))])
       [0..<report_levels api st])"

definition tdb_cf_stats :: "('db, 'txn, 'it, 'cf) tides_api \<Rightarrow> ('db, 'cf) tdb \<Rightarrow> (string \<times> double) list" where
  "tdb_cf_stats api t =
     (case ta_get_cf_stats api (td_cf t) (td_db t) of
        None \<Rightarrow> []
      | Some st \<Rightarrow> [
          (''keys'', int_to_double (cs_total_keys st)), (''levels'', int_to_double (cs_num_levels st)),
          (''data_bytes'', int_to_double (cs_total_data_size st)), (''avg_key_size'', cs_avg_key_size st),
          (''avg_value_size'', cs_avg_value_size st), (''read_amp'', cs_read_amp st),
          (''tombstones'', int_to_double (cs_total_tombstones st)), (''tombstone_ratio'', cs_tombstone_ratio st),
          (''max_sst_density'', cs_max_sst_density st),
          (''max_sst_density_level'', int_to_double (cs_max_sst_density_level st)),
          (''btree_nodes'', int_to_double (cs_btree_total_nodes st)),
          (''btree_max_height'', int_to_double (cs_btree_max_height st)),
          (''btree_avg_height'', cs_btree_avg_height st),
          (''compaction_count'', int_to_double (cs_compaction_count st)),
          (''wal_bytes'', int_to_double (cs_wal_bytes_written st)),
          (''flush_bytes'', int_to_double (cs_flush_bytes_written st)),
          (''compaction_bytes'', int_to_double (cs_compaction_bytes_written st)),
          (''compaction_bytes_read'', int_to_double (cs_compaction_bytes_read st)),
          (''user_bytes'', int_to_double (cs_user_bytes_written st)),
          (''unflushed_keys'', int_to_double (cs_unflushed_key_count st)),
          (''filter_resident_bytes'', int_to_double (cs_filter_resident_bytes st)),
          (''sstables'', int_to_double (sum_list (map (cs_level_num_sstables st) [0..<report_levels api st])))]
          @ tdb_cf_level_stats api st)"

text \<open>The metrics of the database, each with the field it reads.\<close>

definition TDB_CORE :: "(string \<times> string) list" where
  "TDB_CORE = [
     (''total_sstables'', ''total_sstable_count''), (''open_sstables'', ''num_open_sstables''),
     (''db_data_bytes'', ''total_data_size_bytes''), (''db_memtable_bytes'', ''memtable_bytes''),
     (''immutable_memtables'', ''immutable_memtable_count''), (''compaction_queue'', ''compaction_pending_count''),
     (''db_is_flushing'', ''is_flushing''), (''txn_memory_bytes'', ''txn_memory_bytes''),
     (''active_txns'', ''active_txn_count''), (''db_column_families'', ''num_column_families''),
     (''db_global_seq'', ''global_seq''), (''db_min_snapshot_seq'', ''min_snapshot_seq''),
     (''db_wal_generation'', ''wal_generation'')]"

definition tdb_db_core_stats :: "tdb_db_figures \<Rightarrow> (string \<times> double) list" where
  "tdb_db_core_stats d = map (\<lambda>(name, field). (name, int_to_double (d field))) TDB_CORE"

definition TDB_IO :: "(string \<times> string) list" where
  "TDB_IO = [
     (''db_flush_count'', ''flush_count''), (''db_compaction_count'', ''compaction_count''),
     (''db_flush_bytes'', ''flush_bytes_written''), (''db_compaction_bytes'', ''compaction_bytes_written''),
     (''db_compaction_bytes_read'', ''compaction_bytes_read''), (''db_user_bytes'', ''user_bytes_written''),
     (''db_vlog_bytes'', ''vlog_file_size''), (''db_vlog_values'', ''vlog_value_count''),
     (''db_vlog_used_bytes'', ''vlog_used_bytes''), (''db_wal_bytes_written'', ''wal_bytes_written''),
     (''db_vlog_bytes_written'', ''vlog_bytes_written''), (''db_vlog_stored_bytes'', ''vlog_stored_bytes''),
     (''db_vlog_live_bytes'', ''vlog_live_bytes''), (''db_vlog_dead_bytes'', ''vlog_dead_bytes''),
     (''db_vlog_segments'', ''vlog_segment_count''), (''db_vlog_segments_drainable'', ''vlog_segments_drainable''),
     (''db_vlog_segments_retired'', ''vlog_segments_retired''), (''db_vlog_reclaim_calls'', ''vlog_reclaim_calls''),
     (''db_vlog_reclaim_passes'', ''vlog_reclaim_passes''), (''db_writes_throttled'', ''writes_throttled''),
     (''db_writes_blocked'', ''writes_blocked''), (''db_write_stall_us'', ''write_stall_us''),
     (''db_write_stall_ceiling'', ''write_stall_ceiling_hits'')]"

definition tdb_db_io_stats :: "tdb_db_figures \<Rightarrow> (string \<times> double) list" where
  "tdb_db_io_stats d = map (\<lambda>(name, field). (name, int_to_double (d field))) TDB_IO"

definition tdb_cache_stats :: "('db, 'txn, 'it, 'cf) tides_api \<Rightarrow> ('db, 'cf) tdb \<Rightarrow> (string \<times> double) list" where
  "tdb_cache_stats api t =
     (case ta_get_cache_stats api (td_db t) of
        None \<Rightarrow> []
      | Some c \<Rightarrow> if \<not> ca_enabled c then [] else [
          (''cache_entries'', int_to_double (ca_total_entries c)),
          (''cache_bytes'', int_to_double (ca_total_bytes c)), (''cache_hits'', int_to_double (ca_hits c)),
          (''cache_misses'', int_to_double (ca_misses c)), (''cache_hit_rate'', ca_hit_rate c),
          (''cache_partitions'', int_to_double (ca_num_partitions c))])"

definition tdb_stats :: "('db, 'txn, 'it, 'cf) tides_api \<Rightarrow> ('db, 'cf) tdb \<Rightarrow> (string \<times> double) list" where
  "tdb_stats api t =
     tdb_cf_stats api t @
     (case ta_get_db_stats api (td_db t) of None \<Rightarrow> [] | Some d \<Rightarrow> tdb_db_core_stats d @ tdb_db_io_stats d) @
     tdb_cache_stats api t"

subsection \<open>Opening and closing\<close>

text \<open>\<open>nftw\<close> visits the entries below the path, children first; the callback always returns 0, so it visits them all.\<close>

definition tdb_rm_entry :: "('db, 'txn, 'it, 'cf) tides_api \<Rightarrow> string \<Rightarrow> 'db \<Rightarrow> 'db" where
  "tdb_rm_entry api p db = ta_remove api p db"

definition tdb_close :: "('db, 'txn, 'it, 'cf) tides_api \<Rightarrow> ('db, 'cf) tdb \<Rightarrow> ('db, 'cf) tdb option" where
  "tdb_close api t =
     (let db = ta_close api (td_db t)
      in Some (t\<lparr>td_db := fold (tdb_rm_entry api) (ta_walk api db (td_path t)) db\<rparr>))"

definition TDB_CF_NAME :: string where "TDB_CF_NAME = ''keybench''"

definition tidesdb_backend :: "('db, 'txn, 'it, 'cf) tides_api \<Rightarrow> ('db, 'cf) tdb \<Rightarrow> (('db, 'cf) tdb, 'a) kv_backend" where
  "tidesdb_backend api t =
     \<lparr>be_name = ''tidesdb'', be_ctx = t, be_put = tdb_put api, be_putbatch = Some (tdb_putbatch api),
      be_get = tdb_get api, be_del = tdb_del api, be_delbatch = Some (tdb_delbatch api), be_range = tdb_range api,
      be_close = tdb_close api, be_version = Some (tdb_version api), be_stats = Some (tdb_stats api),
      be_datadir = Some tdb_datadir\<rparr>"

definition tidesdb_backend_open ::
  "('db, 'txn, 'it, 'cf) tides_api \<Rightarrow> (string \<Rightarrow> string option) \<Rightarrow> u32 \<Rightarrow> string option \<Rightarrow> kv_options option \<Rightarrow>
   (('db, 'cf) tdb, 'a) kv_backend option" where
  "tidesdb_backend_open api mkdtemp seed data_dir opts =
     (let base = (case kv_opt_str opts ''data_dir'' data_dir of None \<Rightarrow> ''/tmp'' | Some b \<Rightarrow> if b = [] then ''/tmp'' else b)
      in do {
        path \<leftarrow> mkdtemp (snprintf 256 (base @ ''/keybench-tidesdb-XXXXXX''));
        cfg \<leftarrow> tdb_apply_db_config opts ((ta_default_config api)\<lparr>tc_db_path := path, tc_log_level := TDB_LOG_NONE\<rparr>);
        (case ta_open api cfg of (rc, db) \<Rightarrow>
           if rc \<noteq> TDB_SUCCESS then None
           else do {
             cf \<leftarrow> tdb_apply_cf_config opts ((ta_default_cf_config api)\<lparr>cc_name := snprintf (ta_cf_name_size api) TDB_CF_NAME\<rparr>);
             (case ta_create_cf api TDB_CF_NAME cf db of (rc, db) \<Rightarrow>
                if rc \<noteq> TDB_SUCCESS then None
                else do {
                  h \<leftarrow> ta_get_cf api TDB_CF_NAME db;
                  Some (tidesdb_backend api \<lparr>td_db = db, td_cf = h, td_path = path\<rparr>) }) }) })"

subsection \<open>What TidesDB promises\<close>

text \<open>
  \<open>pend\<close> is what a transaction has buffered, \<open>it_rows\<close> the rows in front of an iterator, and \<open>stalls\<close> how many transient
  failures are still ahead: no call adds one, and a call that reports one uses it up.
\<close>

definition call_ok :: "('db \<Rightarrow> nat) \<Rightarrow> tdb_rc \<Rightarrow> 'db \<Rightarrow> 'db \<Rightarrow> bool" where
  "call_ok stalls rc db db' \<longleftrightarrow> stalls db' \<le> stalls db \<and> (tdb_retryable rc \<longrightarrow> stalls db' < stalls db)"

definition body_ok ::
  "('txn \<Rightarrow> 'db \<Rightarrow> batch_op list) \<Rightarrow> ('db \<Rightarrow> nat) \<Rightarrow> ('db \<Rightarrow> rows \<Rightarrow> bool) \<Rightarrow> ('txn \<Rightarrow> 'db \<Rightarrow> tdb_rc \<times> 'db) \<Rightarrow> batch_op list \<Rightarrow> bool" where
  "body_ok pend stalls R body ops \<longleftrightarrow>
     (\<forall>t db al rc db'. R db al \<longrightarrow> body t db = (rc, db') \<longrightarrow>
        R db' al \<and> call_ok stalls rc db db' \<and> (rc = TDB_SUCCESS \<longrightarrow> pend t db' = pend t db @ ops))"

definition txn_laws ::
  "('db, 'txn, 'it, 'cf) tides_api \<Rightarrow> 'cf \<Rightarrow> ('txn \<Rightarrow> 'db \<Rightarrow> batch_op list) \<Rightarrow> ('db \<Rightarrow> nat) \<Rightarrow> ('db \<Rightarrow> rows \<Rightarrow> bool) \<Rightarrow> ('db \<Rightarrow> 'db) \<Rightarrow> bool" where
  "txn_laws api cf pend stalls R bg \<longleftrightarrow>
     (\<forall>db al. R db al \<longrightarrow> rows_ok al \<and> R (bg db) al \<and> stalls (bg db) \<le> stalls db) \<and>
     (\<forall>db al rc t db'. R db al \<longrightarrow> ta_txn_begin api db = (rc, t, db') \<longrightarrow>
        R db' al \<and> call_ok stalls rc db db' \<and> (rc = TDB_SUCCESS \<longrightarrow> pend t db' = [])) \<and>
     (\<forall>k v. body_ok pend stalls R (\<lambda>t. ta_txn_put api t cf k v) [BPut k v]) \<and>
     (\<forall>k. body_ok pend stalls R (\<lambda>t. ta_txn_delete api t cf k) [BDelete k]) \<and>
     (\<forall>db al rc t db'. R db al \<longrightarrow> ta_txn_commit api t db = (rc, db') \<longrightarrow>
        R db' (if rc = TDB_SUCCESS then fold batch_rows (pend t db) al else al) \<and> call_ok stalls rc db db') \<and>
     (\<forall>db al t. R db al \<longrightarrow> R (ta_txn_free api t db) al \<and> stalls (ta_txn_free api t db) \<le> stalls db)"

definition read_laws ::
  "('db, 'txn, 'it, 'cf) tides_api \<Rightarrow> 'cf \<Rightarrow> ('txn \<Rightarrow> 'db \<Rightarrow> batch_op list) \<Rightarrow> ('db \<Rightarrow> rows \<Rightarrow> bool) \<Rightarrow> bool" where
  "read_laws api cf pend R \<longleftrightarrow>
     (\<forall>db al rc t k v db'. R db al \<longrightarrow> pend t db = [] \<longrightarrow> ta_txn_get api t cf k db = (rc, v, db') \<longrightarrow>
        R db' al \<and> (rc = TDB_SUCCESS \<longrightarrow> v = None \<or> v = map_of al k) \<and> (rc = TDB_ERR_NOT_FOUND \<longrightarrow> map_of al k = None)) \<and>
     (\<forall>db al b. R db al \<longrightarrow> R (ta_free api b db) al)"

definition iter_laws ::
  "('db, 'txn, 'it, 'cf) tides_api \<Rightarrow> 'cf \<Rightarrow> ('txn \<Rightarrow> 'db \<Rightarrow> batch_op list) \<Rightarrow> ('it \<Rightarrow> 'db \<Rightarrow> rows) \<Rightarrow> ('db \<Rightarrow> rows \<Rightarrow> bool) \<Rightarrow> bool" where
  "iter_laws api cf pend it_rows R \<longleftrightarrow>
     (\<forall>db al rc t it db'. R db al \<longrightarrow> pend t db = [] \<longrightarrow> ta_iter_new api t cf db = (rc, it, db') \<longrightarrow> R db' al) \<and>
     (\<forall>db al it lo. R db al \<longrightarrow> R (ta_iter_seek api it lo db) al \<and> it_rows it (ta_iter_seek api it lo db) = filter (\<lambda>r. lo \<le> fst r) al) \<and>
     (\<forall>db al it. R db al \<longrightarrow> ta_iter_valid api it db = (it_rows it db \<noteq> [])) \<and>
     (\<forall>db al it r rs rc k v db'. R db al \<longrightarrow> it_rows it db = r # rs \<longrightarrow> ta_iter_key_value api it db = (rc, k, v, db') \<longrightarrow>
        rc = TDB_SUCCESS \<and> r = (k, v) \<and> R db' al \<and> it_rows it db' = r # rs) \<and>
     (\<forall>db al it b. R db al \<longrightarrow> R (ta_free api b db) al \<and> it_rows it (ta_free api b db) = it_rows it db) \<and>
     (\<forall>db al it r rs rc db'. R db al \<longrightarrow> it_rows it db = r # rs \<longrightarrow> ta_iter_next api it db = (rc, db') \<longrightarrow>
        R db' al \<and> (if rc = TDB_SUCCESS then it_rows it db' = rs else rs = [])) \<and>
     (\<forall>db al it. R db al \<longrightarrow> R (ta_iter_free api it db) al)"

definition tides_ok where
  "tides_ok api cf pend stalls it_rows R bg \<longleftrightarrow>
     txn_laws api cf pend stalls R bg \<and> read_laws api cf pend R \<and> iter_laws api cf pend it_rows R"

text \<open>What the caller holds: a transaction, an iterator and each buffer count one.\<close>

definition tides_held :: "('db, 'txn, 'it, 'cf) tides_api \<Rightarrow> ('db \<Rightarrow> int) \<Rightarrow> bool" where
  "tides_held api held \<longleftrightarrow>
     (\<forall>db rc t db'. ta_txn_begin api db = (rc, t, db') \<longrightarrow> held db' = held db + (if rc = TDB_SUCCESS then 1 else 0)) \<and>
     (\<forall>t cf k v db rc db'. ta_txn_put api t cf k v db = (rc, db') \<longrightarrow> held db' = held db) \<and>
     (\<forall>t cf k db rc db'. ta_txn_delete api t cf k db = (rc, db') \<longrightarrow> held db' = held db) \<and>
     (\<forall>t cf k db rc v db'. ta_txn_get api t cf k db = (rc, v, db') \<longrightarrow>
        held db' = held db + (if rc = TDB_SUCCESS \<and> v \<noteq> None then 1 else 0)) \<and>
     (\<forall>t db rc db'. ta_txn_commit api t db = (rc, db') \<longrightarrow> held db' = held db) \<and>
     (\<forall>t db. held (ta_txn_free api t db) = held db - 1) \<and>
     (\<forall>b db. held (ta_free api b db) = held db - 1) \<and>
     (\<forall>t cf db rc it db'. ta_iter_new api t cf db = (rc, it, db') \<longrightarrow> held db' = held db + (if rc = TDB_SUCCESS then 1 else 0)) \<and>
     (\<forall>it lo db. held (ta_iter_seek api it lo db) = held db) \<and>
     (\<forall>it db rc k v db'. ta_iter_key_value api it db = (rc, k, v, db') \<longrightarrow>
        held db' = held db + (if rc = TDB_SUCCESS then 2 else 0)) \<and>
     (\<forall>it db rc db'. ta_iter_next api it db = (rc, db') \<longrightarrow> held db' = held db) \<and>
     (\<forall>it db. held (ta_iter_free api it db) = held db - 1)"

subsection \<open>Transactions\<close>

lemma body_okD:
  assumes "body_ok pend stalls R body ops" "R db al" "body t db = (rc, db')"
  shows "R db' al" "call_ok stalls rc db db'" "rc = TDB_SUCCESS \<Longrightarrow> pend t db' = pend t db @ ops"
  using assms unfolding body_ok_def by blast+

lemma call_ok_success: "call_ok stalls TDB_SUCCESS db db' \<Longrightarrow> call_ok stalls rc db' db2 \<Longrightarrow> call_ok stalls rc db db2"
  by (auto simp: call_ok_def)

lemma call_ok_then: "call_ok stalls rc db db' \<Longrightarrow> stalls db2 \<le> stalls db' \<Longrightarrow> call_ok stalls rc db db2"
  by (auto simp: call_ok_def)

lemma body_ok_seq:
  assumes "body_ok pend stalls R b1 ops1" and "body_ok pend stalls R b2 ops2"
  shows "body_ok pend stalls R (\<lambda>t db. case b1 t db of (rc, db) \<Rightarrow> if rc = TDB_SUCCESS then b2 t db else (rc, db)) (ops1 @ ops2)"
  unfolding body_ok_def
proof (intro allI impI)
  fix t db al rc db' assume r: "R db al" and e: "(case b1 t db of (rc, db) \<Rightarrow> if rc = TDB_SUCCESS then b2 t db else (rc, db)) = (rc, db')"
  obtain rc1 db1 where b1: "b1 t db = (rc1, db1)" by (cases "b1 t db")
  note one = body_okD [OF assms(1) r b1]
  show "R db' al \<and> call_ok stalls rc db db' \<and> (rc = TDB_SUCCESS \<longrightarrow> pend t db' = pend t db @ ops1 @ ops2)"
  proof (cases "rc1 = TDB_SUCCESS")
    case True
    then have b2: "b2 t db1 = (rc, db')" using e b1 by simp
    show ?thesis using body_okD [OF assms(2) one(1) b2] one True call_ok_success [of stalls db db1] by auto
  next
    case False
    then show ?thesis using e b1 one by auto
  qed
qed

lemma body_ok_empty: "body_ok pend stalls R (\<lambda>t db. (TDB_SUCCESS, db)) []"
  by (simp add: body_ok_def call_ok_def tdb_retryable_def)

lemma txn_puts_ok:
  assumes "txn_laws api cf pend stalls R bg"
  shows "body_ok pend stalls R (txn_puts api cf kvs) (map (\<lambda>(k, v). BPut k v) kvs)"
proof (induction kvs)
  case Nil
  have "txn_puts api cf [] = (\<lambda>t db. (TDB_SUCCESS, db))" by (simp add: fun_eq_iff)
  then show ?case using body_ok_empty by simp
next
  case (Cons kv kvs)
  obtain k v where kv: "kv = (k, v)" by fastforce
  have one: "body_ok pend stalls R (\<lambda>t. ta_txn_put api t cf k v) [BPut k v]" using assms unfolding txn_laws_def by blast
  have eq: "txn_puts api cf (kv # kvs) =
      (\<lambda>t db. case ta_txn_put api t cf k v db of (rc, db) \<Rightarrow> if rc = TDB_SUCCESS then txn_puts api cf kvs t db else (rc, db))"
    by (simp add: kv fun_eq_iff)
  show ?case using body_ok_seq [OF one Cons.IH] unfolding kv eq by simp
qed

lemma txn_dels_ok:
  assumes "txn_laws api cf pend stalls R bg"
  shows "body_ok pend stalls R (txn_dels api cf ks) (map BDelete ks)"
proof (induction ks)
  case Nil
  have "txn_dels api cf [] = (\<lambda>t db. (TDB_SUCCESS, db))" by (simp add: fun_eq_iff)
  then show ?case using body_ok_empty by simp
next
  case (Cons k ks)
  have one: "body_ok pend stalls R (\<lambda>t. ta_txn_delete api t cf k) [BDelete k]" using assms unfolding txn_laws_def by blast
  have eq: "txn_dels api cf (k # ks) =
      (\<lambda>t db. case ta_txn_delete api t cf k db of (rc, db) \<Rightarrow> if rc = TDB_SUCCESS then txn_dels api cf ks t db else (rc, db))"
    by (simp add: fun_eq_iff)
  show ?case using body_ok_seq [OF one Cons.IH] unfolding eq by simp
qed

lemma txn_lawsD:
  assumes "txn_laws api cf pend stalls R bg" "R db al"
  shows "rows_ok al" "R (bg db) al" "stalls (bg db) \<le> stalls db"
    "ta_txn_begin api db = (rc, t, db') \<Longrightarrow> R db' al \<and> call_ok stalls rc db db' \<and> (rc = TDB_SUCCESS \<longrightarrow> pend t db' = [])"
    "ta_txn_commit api t db = (rc, db') \<Longrightarrow>
       R db' (if rc = TDB_SUCCESS then fold batch_rows (pend t db) al else al) \<and> call_ok stalls rc db db'"
    "R (ta_txn_free api t db) al" "stalls (ta_txn_free api t db) \<le> stalls db"
  using assms unfolding txn_laws_def by blast+

lemma in_txn_ok:
  assumes l: "txn_laws api cf pend stalls R bg" and b: "body_ok pend stalls R body ops" and r: "R db al"
  shows "R (snd (in_txn api body db)) (if fst (in_txn api body db) = TDB_SUCCESS then fold batch_rows ops al else al) \<and>
    call_ok stalls (fst (in_txn api body db)) db (snd (in_txn api body db))"
proof -
  obtain rc t db1 where b1: "ta_txn_begin api db = (rc, t, db1)" by (cases "ta_txn_begin api db")
  note beg = txn_lawsD(4) [OF l r b1]
  show ?thesis
  proof (cases "rc = TDB_SUCCESS")
    case False
    then show ?thesis using beg b1 by (simp add: in_txn_def)
  next
    case True
    obtain rc2 db2 where b2: "body t db1 = (rc2, db2)" by (cases "body t db1")
    have r1: "R db1 al" and p1: "pend t db1 = []" using beg True by auto
    note bd = body_okD [OF b r1 b2]
    have c1: "call_ok stalls TDB_SUCCESS db db1" using beg True by simp
    note c2 = call_ok_success [OF c1 bd(2)]
    show ?thesis
    proof (cases "rc2 = TDB_SUCCESS")
      case False
      have "in_txn api body db = (rc2, ta_txn_free api t db2)" using b1 b2 True False by (simp add: in_txn_def)
      then show ?thesis using txn_lawsD(6,7) [OF l bd(1), of t] call_ok_then [OF c2] False by simp
    next
      case ok2: True
      obtain rc3 db3 where b3: "ta_txn_commit api t db2 = (rc3, db3)" by (cases "ta_txn_commit api t db2")
      note co = txn_lawsD(5) [OF l bd(1) b3]
      have c3: "call_ok stalls rc3 db db3" using call_ok_success [of stalls db db2] c2 ok2 co by simp
      have p: "pend t db2 = ops" using bd(3) ok2 p1 by simp
      have r3: "R db3 (if rc3 = TDB_SUCCESS then fold batch_rows ops al else al)" using co unfolding p by simp
      have "in_txn api body db = (rc3, ta_txn_free api t db3)" using b1 b2 b3 True ok2 by (simp add: in_txn_def)
      then show ?thesis using txn_lawsD(6,7) [OF l r3, of t] call_ok_then [OF c3] by simp
    qed
  qed
qed

subsection \<open>The engine keeps the interface\<close>

definition tdb_step ::
  "('db, 'txn, 'it, 'cf) tides_api \<Rightarrow> ('cf \<Rightarrow> 'txn \<Rightarrow> 'db \<Rightarrow> tdb_rc \<times> 'db) \<Rightarrow> ('db, 'cf) tdb \<Rightarrow> tdb_rc \<times> ('db, 'cf) tdb" where
  "tdb_step api body t = (case in_txn api (body (td_cf t)) (td_db t) of (rc, db) \<Rightarrow> (rc, t\<lparr>td_db := db\<rparr>))"

abbreviation tdb_rel :: "'cf \<Rightarrow> ('db \<Rightarrow> rows \<Rightarrow> bool) \<Rightarrow> ('db, 'cf) tdb \<Rightarrow> rows \<Rightarrow> bool" where
  "tdb_rel cf R t al \<equiv> td_cf t = cf \<and> R (td_db t) al"

abbreviation tdb_bg :: "('db \<Rightarrow> 'db) \<Rightarrow> ('db, 'cf) tdb \<Rightarrow> ('db, 'cf) tdb" where
  "tdb_bg bg t \<equiv> t\<lparr>td_db := bg (td_db t)\<rparr>"

abbreviation tdb_call :: "int \<Rightarrow> int \<Rightarrow> (('db, 'cf) tdb \<Rightarrow> tdb_rc \<times> ('db, 'cf) tdb) \<Rightarrow> ('db, 'cf) tdb \<Rightarrow> (int \<times> ('db, 'cf) tdb) option" where
  "tdb_call d e \<equiv> lift_call (tdb_result d e) (\<lambda>t. t) (\<lambda>d t. d)"

lemma tdb_calls:
  "(\<lambda>t. tdb_put api t k v) = tdb_call 0 (- 1) (tdb_step api (\<lambda>cf txn. ta_txn_put api txn cf k v))"
  "(\<lambda>t. tdb_putbatch api t kvs) = tdb_call 0 (- 1) (tdb_step api (\<lambda>cf. txn_puts api cf kvs))"
  "(\<lambda>t. tdb_delbatch api t ks) = tdb_call 0 (- 1) (tdb_step api (\<lambda>cf. txn_dels api cf ks))"
  "(\<lambda>t. tdb_del api t k) = tdb_call 1 0 (tdb_step api (\<lambda>cf txn. ta_txn_delete api txn cf k))"
  by (simp_all add: fun_eq_iff tdb_put_def tdb_putbatch_def tdb_delbatch_def tdb_del_def tdb_step_def lift_call_def
      case_prod_beta Let_def)

lemma tdb_step_settles:
  assumes l: "txn_laws api cf pend stalls R bg" and b: "body_ok pend stalls R (body cf) ops"
  shows "tdb_rel cf R t al \<Longrightarrow> stalls (td_db t) \<le> n \<Longrightarrow> settles tdb_retryable (tdb_bg bg) (tdb_step api body) n t"
proof (induction n arbitrary: t al)
  case 0
  then show ?case using in_txn_ok [OF l b, of "td_db t" al] by (auto simp: tdb_step_def call_ok_def case_prod_beta)
next
  case (Suc n)
  let ?r = "in_txn api (body cf) (td_db t)"
  have ok: "R (snd ?r) (if fst ?r = TDB_SUCCESS then fold batch_rows ops al else al)" "call_ok stalls (fst ?r) (td_db t) (snd ?r)"
    using in_txn_ok [OF l b, of "td_db t" al] Suc.prems by auto
  show ?case
  proof (cases "tdb_retryable (fst ?r)")
    case True
    let ?t = "t\<lparr>td_db := bg (snd ?r)\<rparr>"
    have "R (bg (snd ?r)) (if fst ?r = TDB_SUCCESS then fold batch_rows ops al else al)" "stalls (bg (snd ?r)) \<le> n"
      using txn_lawsD(2,3) [OF l ok(1)] ok(2) True Suc.prems(2) by (auto simp: call_ok_def)
    then show ?thesis using Suc.IH [of ?t] Suc.prems by (simp add: tdb_step_def case_prod_beta)
  next
    case False
    then show ?thesis using Suc.prems by (simp add: tdb_step_def case_prod_beta)
  qed
qed

lemma tdb_result_retry: "d \<noteq> KV_RETRY \<Longrightarrow> e \<noteq> KV_RETRY \<Longrightarrow> tdb_result d e rc = KV_RETRY \<longleftrightarrow> tdb_retryable rc"
  by (auto simp: tdb_result_def tdb_retryable_def)

lemma tdb_write_law:
  fixes api :: "('db, 'txn, 'it, 'cf) tides_api"
  assumes l: "txn_laws api cf pend stalls R bg" and b: "body_ok pend stalls R (body cf) ops"
    and "ok d" "\<not> ok e" "\<not> ok KV_RETRY" "d \<noteq> KV_RETRY" "e \<noteq> KV_RETRY"
  shows "write_law (tdb_rel cf R) (tdb_bg bg) ok (tdb_call d e (tdb_step api body)) (fold batch_rows ops)"
proof (rule lifted_write_law [where again = tdb_retryable and good = "\<lambda>rc. rc = TDB_SUCCESS"])
  show "applies (\<lambda>rc. rc = TDB_SUCCESS) (tdb_rel cf R) (tdb_step api body) (fold batch_rows ops)"
    using in_txn_ok [OF l b] by (auto simp: applies_def tdb_step_def case_prod_beta)
  show "stall_ends tdb_retryable (tdb_rel cf R) (tdb_bg bg) (tdb_step api body)"
    using tdb_step_settles [where body = body, OF l b] unfolding stall_ends_def by blast
qed (use assms(3-7) in \<open>auto simp: tdb_result_retry, auto simp: tdb_result_def split: if_splits\<close>)

lemma tdb_engine:
  fixes api :: "('db, 'txn, 'it, 'cf) tides_api"
  assumes ok: "tides_ok api cf pend stalls it_rows R bg"
  shows "engine (tidesdb_backend api t0) (tdb_rel cf R) (tdb_bg bg)"
proof
  have l: "txn_laws api cf pend stalls R bg" and rl: "read_laws api cf pend R" using ok by (auto simp: tides_ok_def)
  have put: "body_ok pend stalls R (\<lambda>t. ta_txn_put api t cf k v) [BPut k v]"
    and del: "body_ok pend stalls R (\<lambda>t. ta_txn_delete api t cf k) [BDelete k]" for k v
    using l unfolding txn_laws_def by blast+
  fix f g k v kvs ks
  show "write_law (tdb_rel cf R) (tdb_bg bg) (\<lambda>rc. rc = 0) (\<lambda>c. be_put (tidesdb_backend api t0) c k v) (rows_put k v)"
    using tdb_write_law [OF l, where body = "\<lambda>cf txn. ta_txn_put api txn cf k v", OF put, of "\<lambda>rc. rc = 0" 0 "- 1"]
    by (simp add: tidesdb_backend_def tdb_calls KV_RETRY_def batch_rows_eq)
  show "write_law (tdb_rel cf R) (tdb_bg bg) (\<lambda>rc. 0 < rc) (\<lambda>c. be_del (tidesdb_backend api t0) c k) (rows_del k)"
    using tdb_write_law [OF l, where body = "\<lambda>cf txn. ta_txn_delete api txn cf k", OF del, of "\<lambda>rc. 0 < rc" 1 0]
    by (simp add: tidesdb_backend_def tdb_calls KV_RETRY_def batch_rows_eq)
  show "write_law (tdb_rel cf R) (tdb_bg bg) (\<lambda>rc. rc = 0) (\<lambda>c. f c kvs) (rows_putall kvs)"
    if "be_putbatch (tidesdb_backend api t0) = Some f"
    using that tdb_write_law [OF l, where body = "\<lambda>cf. txn_puts api cf kvs", OF txn_puts_ok [OF l], of "\<lambda>rc. rc = 0" 0 "- 1"]
    by (auto simp: tidesdb_backend_def tdb_calls KV_RETRY_def fold_batch_put)
  show "write_law (tdb_rel cf R) (tdb_bg bg) (\<lambda>rc. rc = 0) (\<lambda>c. g c ks) (rows_delall ks)"
    if "be_delbatch (tidesdb_backend api t0) = Some g"
    using that tdb_write_law [OF l, where body = "\<lambda>cf. txn_dels api cf ks", OF txn_dels_ok [OF l], of "\<lambda>rc. rc = 0" 0 "- 1"]
    by (auto simp: tidesdb_backend_def tdb_calls KV_RETRY_def fold_batch_del)
next
  have l: "txn_laws api cf pend stalls R bg" and rl: "read_laws api cf pend R" using ok by (auto simp: tides_ok_def)
  fix c :: "('db, 'cf) tdb" and al k assume c: "tdb_rel cf R c al"
  obtain rc t db where b: "ta_txn_begin api (td_db c) = (rc, t, db)" by (cases "ta_txn_begin api (td_db c)")
  have r: "R db al" "rc = TDB_SUCCESS \<Longrightarrow> pend t db = []" using txn_lawsD(4) [OF l _ b] c by auto
  obtain rc' v db' where gt: "ta_txn_get api t cf k db = (rc', v, db')" by (cases "ta_txn_get api t cf k db")
  show "\<exists>rc v c'. be_get (tidesdb_backend api t0) c k = Some (rc, v, c') \<and> tdb_rel cf R c' al \<and>
      (0 < rc \<longrightarrow> v = map_of al k \<and> v \<noteq> None) \<and> (rc = 0 \<longrightarrow> map_of al k = None)"
  proof (cases "rc = TDB_SUCCESS")
    case False
    then show ?thesis using b c r by (simp add: tidesdb_backend_def tdb_get_def KV_ERR_def)
  next
    case True
    have rg: "R db' al" "rc' = TDB_SUCCESS \<longrightarrow> v = None \<or> v = map_of al k" "rc' = TDB_ERR_NOT_FOUND \<longrightarrow> map_of al k = None"
      using rl r gt True unfolding read_laws_def by blast+
    have fr: "R (ta_free api b d) al" if "R d al" for b d using rl that unfolding read_laws_def by blast
    show ?thesis
      using b c gt True rg fr txn_lawsD(6) [OF l] by (auto simp: tidesdb_backend_def tdb_get_def KV_ERR_def Let_def)
  qed
qed (use ok in \<open>auto simp: tides_ok_def dest: txn_lawsD\<close>)

subsection \<open>Ranges\<close>

lemma iter_lawsD:
  assumes "iter_laws api cf pend it_rows R" "R db al"
  shows "pend t db = [] \<Longrightarrow> ta_iter_new api t cf db = (rc, it, db') \<Longrightarrow> R db' al"
    "R (ta_iter_seek api it lo db) al" "it_rows it (ta_iter_seek api it lo db) = filter (\<lambda>r. lo \<le> fst r) al"
    "ta_iter_valid api it db \<longleftrightarrow> it_rows it db \<noteq> []"
    "it_rows it db = r # rs \<Longrightarrow> ta_iter_key_value api it db = (rc, k, v, db') \<Longrightarrow>
       rc = TDB_SUCCESS \<and> r = (k, v) \<and> R db' al \<and> it_rows it db' = r # rs"
    "R (ta_free api b db) al" "it_rows it (ta_free api b db) = it_rows it db"
    "it_rows it db = r # rs \<Longrightarrow> ta_iter_next api it db = (rc, db') \<Longrightarrow>
       R db' al \<and> (if rc = TDB_SUCCESS then it_rows it db' = rs else rs = [])"
    "R (ta_iter_free api it db) al"
  using assms unfolding iter_laws_def by metis+

lemma tdb_scan_rows:
  assumes l: "iter_laws api cf pend it_rows R"
  shows "R db al \<Longrightarrow> rows_ok (it_rows it db) \<Longrightarrow>
    \<exists>n' arg' db'. tdb_scan api hi limit cb it n arg db = Some (n', arg', db') \<and> R db' al \<and>
      rows_feed 1 limit cb (filter (\<lambda>r. fst r < hi) (it_rows it db)) n arg = (n', arg')"
proof (induction "it_rows it db" arbitrary: db n arg)
  case Nil
  then have "\<not> ta_iter_valid api it db" using iter_lawsD(4) [OF l Nil.prems(1)] by simp
  then show ?case using Nil by (simp add: tdb_scan.simps)
next
  case (Cons r rs)
  note l1 = iter_lawsD [OF l Cons.prems(1)]
  have rs: "it_rows it db = r # rs" using Cons.hyps(2) by simp
  obtain rc k v db1 where kv: "ta_iter_key_value api it db = (rc, k, v, db1)" by (cases "ta_iter_key_value api it db")
  have r1: "rc = TDB_SUCCESS" "r = (k, v)" "R db1 al" "it_rows it db1 = r # rs" using l1(5) [OF rs kv] by auto
  define db2 where "db2 = ta_free api v (ta_free api k db1)"
  have r2: "R db2 al" "it_rows it db2 = r # rs"
    using iter_lawsD(6) [OF l iter_lawsD(6) [OF l r1(3)]] iter_lawsD(7) [OF l r1(3)]
      iter_lawsD(7) [OF l iter_lawsD(6) [OF l r1(3)]] r1(4) by (simp_all add: db2_def)
  show ?case
  proof (cases "\<not> (limit \<le> 0 \<or> n < limit) \<or> \<not> k < hi")
    case True
    have "filter (\<lambda>r. fst r < hi) (r # rs) = []" if "\<not> k < hi"
    proof -
      have "hi \<le> fst x" if "x \<in> set (r # rs)" for x using Cons.prems(2) \<open>\<not> k < hi\<close> that unfolding rs r1(2) by fastforce
      then show ?thesis by (meson filter_False leD)
    qed
    moreover have "rows_feed 1 limit cb xs n arg = (n, arg)" if "\<not> (limit \<le> 0 \<or> n < limit)" for xs
      using that by (cases xs) auto
    ultimately show ?thesis
      using True l1(4) rs kv r1 r2 Cons.prems by (auto simp: tdb_scan.simps [of _ _ _ _ it] kv_keycmp_order not_le db2_def Let_def)
  next
    case False
    then have in_bounds: "limit \<le> 0 \<or> n < limit" "\<not> hi \<le> k" by auto
    obtain stop arg1 where cb: "(case cb of None \<Rightarrow> (0, arg) | Some f \<Rightarrow> f arg k v) = (stop, arg1)" by fastforce
    have scan: "tdb_scan api hi limit cb it n arg db =
        (if stop \<noteq> 0 then Some (n + 1, arg1, db2)
         else (case ta_iter_next api it db2 of (rc, db) \<Rightarrow>
                 if rc \<noteq> TDB_SUCCESS then Some (n + 1, arg1, db) else tdb_scan api hi limit cb it (n + 1) arg1 db))"
      using in_bounds l1(4) rs kv r1 cb by (simp add: tdb_scan.simps [of _ _ _ _ it] kv_keycmp_order db2_def Let_def)
    have feed: "rows_feed 1 limit cb (filter (\<lambda>r. fst r < hi) (r # rs)) n arg =
        (if stop \<noteq> 0 then (n + 1, arg1) else rows_feed 1 limit cb (filter (\<lambda>r. fst r < hi) rs) (n + 1) arg1)"
      using False r1(2) cb by (cases cb) auto
    obtain rc3 db3 where nx: "ta_iter_next api it db2 = (rc3, db3)" by (cases "ta_iter_next api it db2")
    have r3: "R db3 al" "if rc3 = TDB_SUCCESS then it_rows it db3 = rs else rs = []"
      using iter_lawsD(8) [OF l r2(1) r2(2) nx] by auto
    show ?thesis
    proof (cases "stop \<noteq> 0 \<or> rc3 \<noteq> TDB_SUCCESS")
      case True
      then show ?thesis using scan feed nx r2 r3 rs by (auto split: if_splits)
    next
      case cont: False
      then show ?thesis
        using Cons.hyps(1) [of db3 "n + 1" arg1] r3 Cons.prems(2) scan feed nx rs by simp
    qed
  qed
qed

text \<open>Whether a range gets its transaction and its iterator.\<close>

definition tdb_starts :: "('db, 'txn, 'it, 'cf) tides_api \<Rightarrow> ('db, 'cf) tdb \<Rightarrow> bool" where
  "tdb_starts api t \<longleftrightarrow>
     (case ta_txn_begin api (td_db t) of (rc, txn, db) \<Rightarrow>
        rc = TDB_SUCCESS \<and> fst (ta_iter_new api txn (td_cf t) db) = TDB_SUCCESS)"

lemma tdb_range_rows:
  assumes ok: "tides_ok api cf pend stalls it_rows R bg" and t: "tdb_rel cf R t al"
  shows "\<exists>n arg' t'. tdb_range api t lo hi limit cb arg = Some (n, arg', t') \<and> tdb_rel cf R t' al \<and>
    (n, arg') = (if tdb_starts api t then rows_feed 1 limit cb (rows_range lo hi al) 0 arg else (0, arg))"
proof -
  have l: "txn_laws api cf pend stalls R bg" and il: "iter_laws api cf pend it_rows R" using ok by (auto simp: tides_ok_def)
  obtain rc txn db where b: "ta_txn_begin api (td_db t) = (rc, txn, db)" by (cases "ta_txn_begin api (td_db t)")
  have r: "R db al" "rc = TDB_SUCCESS \<Longrightarrow> pend txn db = []" using txn_lawsD(4) [OF l _ b] t by auto
  obtain rc2 it db2 where i: "ta_iter_new api txn cf db = (rc2, it, db2)" by (cases "ta_iter_new api txn cf db")
  show ?thesis
  proof (cases "rc = TDB_SUCCESS \<and> rc2 = TDB_SUCCESS")
    case False
    then show ?thesis
      using b i t r iter_lawsD(1) [OF il r(1) _ i] txn_lawsD(6) [OF l] by (auto simp: tdb_range_def tdb_starts_def)
  next
    case True
    have r2: "R db2 al" using iter_lawsD(1) [OF il r(1) _ i] r(2) True by simp
    define db3 where "db3 = ta_iter_seek api it lo db2"
    have r3: "R db3 al" "it_rows it db3 = filter (\<lambda>r. lo \<le> fst r) al" using iter_lawsD(2,3) [OF il r2] by (simp_all add: db3_def)
    have "rows_ok al" using txn_lawsD(1) [OF l r2] .
    then have "rows_ok (it_rows it db3)" unfolding r3 by (simp add: sorted_wrt_map sorted_wrt_filter)
    from tdb_scan_rows [OF il r3(1) this, of hi limit cb 0 arg] obtain n arg' db4 where
      s: "tdb_scan api hi limit cb it 0 arg db3 = Some (n, arg', db4)" "R db4 al"
        "rows_feed 1 limit cb (filter (\<lambda>r. fst r < hi) (filter (\<lambda>r. lo \<le> fst r) al)) 0 arg = (n, arg')"
      unfolding r3(2) by blast
    have "filter (\<lambda>r. fst r < hi) (filter (\<lambda>r. lo \<le> fst r) al) = rows_range lo hi al"
      unfolding rows_range_def filter_filter by (rule filter_cong) auto
    then show ?thesis
      using b i t True s txn_lawsD(6) [OF l] iter_lawsD(9) [OF il s(2)] by (simp add: tdb_range_def tdb_starts_def db3_def)
  qed
qed

subsection \<open>What is taken is given back\<close>

lemma tides_heldD:
  assumes "tides_held api held"
  shows "ta_txn_begin api db = (rc, t, db') \<Longrightarrow> held db' = held db + (if rc = TDB_SUCCESS then 1 else 0)"
    "ta_txn_put api t cf k v db = (rc, db') \<Longrightarrow> held db' = held db"
    "ta_txn_delete api t cf k db = (rc, db') \<Longrightarrow> held db' = held db"
    "ta_txn_get api t cf k db = (rc, w, db') \<Longrightarrow> held db' = held db + (if rc = TDB_SUCCESS \<and> w \<noteq> None then 1 else 0)"
    "ta_txn_commit api t db = (rc, db') \<Longrightarrow> held db' = held db"
    "held (ta_txn_free api t db) = held db - 1"
    "held (ta_free api b db) = held db - 1"
    "ta_iter_new api t cf db = (rc, it, db') \<Longrightarrow> held db' = held db + (if rc = TDB_SUCCESS then 1 else 0)"
    "held (ta_iter_seek api it lo db) = held db"
    "ta_iter_key_value api it db = (rc, k, v, db') \<Longrightarrow> held db' = held db + (if rc = TDB_SUCCESS then 2 else 0)"
    "ta_iter_next api it db = (rc, db') \<Longrightarrow> held db' = held db"
    "held (ta_iter_free api it db) = held db - 1"
  using assms unfolding tides_held_def by metis+

lemma in_txn_held:
  assumes h: "tides_held api held" and b: "\<And>t db rc db'. body t db = (rc, db') \<Longrightarrow> held db' = held db"
  shows "held (snd (in_txn api body db)) = held db"
proof -
  obtain rc t db1 where b1: "ta_txn_begin api db = (rc, t, db1)" by (cases "ta_txn_begin api db")
  obtain rc2 db2 where b2: "body t db1 = (rc2, db2)" by (cases "body t db1")
  obtain rc3 db3 where b3: "ta_txn_commit api t db2 = (rc3, db3)" by (cases "ta_txn_commit api t db2")
  show ?thesis
    using tides_heldD(1) [OF h b1] b [OF b2] tides_heldD(5) [OF h b3] tides_heldD(6) [OF h] b1 b2 b3 by (simp add: in_txn_def)
qed

lemma txn_puts_held: "tides_held api held \<Longrightarrow> txn_puts api cf kvs t db = (rc, db') \<Longrightarrow> held db' = held db"
  by (induction api cf kvs t db rule: txn_puts.induct) (auto dest: tides_heldD(2) split: prod.splits if_splits)

lemma txn_dels_held: "tides_held api held \<Longrightarrow> txn_dels api cf ks t db = (rc, db') \<Longrightarrow> held db' = held db"
  by (induction api cf ks t db rule: txn_dels.induct) (auto dest: tides_heldD(3) split: prod.splits if_splits)

lemma tdb_scan_held:
  assumes h: "tides_held api held" and s: "tdb_scan api hi limit cb it n arg db = Some r"
  shows "held (snd (snd r)) = held db"
proof -
  have "tides_held api held \<longrightarrow> held (snd (snd r)) = held db"
  proof (rule tdb_scan.raw_induct [where P = "\<lambda>api hi limit cb it n arg db r. tides_held api held \<longrightarrow> held (snd (snd r)) = held db", OF _ s], intro impI)
    fix scan and api :: "('a, 'b, 'c, 'd) tides_api" and hi limit cb it n arg db r
    assume IH: "\<And>api hi limit cb it n arg db r. scan api hi limit cb it n arg db = Some r \<Longrightarrow>
        tides_held api held \<longrightarrow> held (snd (snd r)) = held db"
      and e: "(if ta_iter_valid api it db \<and> (limit \<le> 0 \<or> n < limit) then
        (case ta_iter_key_value api it db of (rc, k, v, db) \<Rightarrow>
           if rc \<noteq> TDB_SUCCESS then Some (n, arg, db)
           else
             (let past_hi = kv_keycmp k hi \<ge> 0;
                  (n, stop, arg) =
                    (if past_hi then (n, 0, arg)
                     else (n + 1, case cb of None \<Rightarrow> (0, arg) | Some f \<Rightarrow> f arg k v));
                  db = ta_free api v (ta_free api k db)
              in if past_hi \<or> stop \<noteq> 0 then Some (n, arg, db)
                 else (case ta_iter_next api it db of (rc, db) \<Rightarrow>
                         if rc \<noteq> TDB_SUCCESS then Some (n, arg, db) else scan api hi limit cb it n arg db)))
      else Some (n, arg, db)) = Some r" and h: "tides_held api held"
    obtain rc k v db1 where kv: "ta_iter_key_value api it db = (rc, k, v, db1)" by (cases "ta_iter_key_value api it db")
    define db2 where "db2 = ta_free api v (ta_free api k db1)"
    obtain rc2 db3 where nx: "ta_iter_next api it db2 = (rc2, db3)" by (cases "ta_iter_next api it db2")
    obtain m stop arg2 where c: "(if kv_keycmp k hi \<ge> 0 then (n, 0, arg)
        else (n + 1, case cb of None \<Rightarrow> (0, arg) | Some f \<Rightarrow> f arg k v)) = (m, stop, arg2)" using prod_cases3 by blast
    have h2: "rc = TDB_SUCCESS \<Longrightarrow> held db2 = held db" "rc \<noteq> TDB_SUCCESS \<Longrightarrow> held db1 = held db" "held db3 = held db2"
      using tides_heldD(10) [OF h kv] tides_heldD(7) [OF h] tides_heldD(11) [OF h nx] by (simp_all add: db2_def)
    have IH': "held (snd (snd r)) = held db" if "scan api hi limit cb it n arg db = Some r" for n arg db using IH that h by blast
    show "held (snd (snd r)) = held db"
      using e unfolding kv Let_def c db2_def [symmetric] prod.case nx using h2 IH' [of m arg2 db3] by (auto split: if_splits)
  qed
  then show ?thesis using h by blast
qed

lemma tdb_range_held:
  assumes h: "tides_held api held" and r: "tdb_range api t lo hi limit cb arg = Some (n, arg', t')"
  shows "held (td_db t') = held (td_db t)"
proof -
  obtain rc txn db where b: "ta_txn_begin api (td_db t) = (rc, txn, db)" by (cases "ta_txn_begin api (td_db t)")
  obtain rc2 it db2 where i: "ta_iter_new api txn (td_cf t) db = (rc2, it, db2)" by (cases "ta_iter_new api txn (td_cf t) db")
  note hb = tides_heldD(1) [OF h b] tides_heldD(8) [OF h i] tides_heldD(6,9,12) [OF h]
  show ?thesis
    using r b i hb tdb_scan_held [OF h, of hi limit cb it 0 arg "ta_iter_seek api it lo db2"]
    by (auto simp: tdb_range_def bind_eq_Some_conv split: if_splits)
qed

lemma tdb_get_held:
  assumes h: "tides_held api held" and r: "tdb_get api t k = Some (rc, v, t')"
  shows "held (td_db t') = held (td_db t)"
proof -
  obtain rc1 txn db where b: "ta_txn_begin api (td_db t) = (rc1, txn, db)" by (cases "ta_txn_begin api (td_db t)")
  obtain rc2 w db2 where g: "ta_txn_get api txn (td_cf t) k db = (rc2, w, db2)" by (cases "ta_txn_get api txn (td_cf t) k db")
  note hb = tides_heldD(1) [OF h b] tides_heldD(4) [OF h g] tides_heldD(6,7) [OF h]
  show ?thesis using r b g hb by (auto simp: tdb_get_def Let_def split: if_splits)
qed

subsection \<open>Properties\<close>

text \<open>
  C33. Over a TidesDB that keeps its documented promises, every put through the store returns, never with \<open>KV_RETRY\<close>; after
  a put that returned 0, a get that does not fail reads the value back and every other key as before. A range that gets
  its transaction and its iterator feeds exactly the rows of the interval in order; one that does not returns 0, as for an
  empty interval.
\<close>

theorem tidesdb_store_reads_back:
  assumes ok: "tides_ok api cf pend stalls it_rows R bg" and al: "td_cf c = cf" "R (td_db c) al" and be: "be = tidesdb_backend api ti"
  shows "(\<exists>rc s. store_put (tdb_bg bg) (kv_at be c) k v = Some (rc, s) \<and> rc \<noteq> KV_RETRY \<and>
      (rc = 0 \<longrightarrow> (\<exists>rc' w s'. store_get s j = Some (rc', w, s') \<and> (0 \<le> rc' \<longrightarrow> w = (if j = k then Some v else map_of al j))))) \<and>
    (\<exists>n arg' s. store_range (kv_at be c) lo hi limit cb arg = Some (n, arg', s) \<and>
      (n, arg') = (if tdb_starts api c then rows_feed 1 limit cb (rows_range lo hi al) 0 arg else (0, arg)))"
proof -
  have e: "engine be (tdb_rel cf R) (tdb_bg bg)" unfolding be by (rule tdb_engine [OF ok])
  have r: "tdb_rel cf R c al" using al by simp
  obtain rc c' where put: "store_put (tdb_bg bg) (kv_at be c) k v = Some (rc, kv_at be c')" "rc \<noteq> KV_RETRY"
    using engine.store_put_ok [OF e r, of k v] by blast
  have "\<exists>rc' w s'. store_get (kv_at be c') j = Some (rc', w, s') \<and> (0 \<le> rc' \<longrightarrow> w = (if j = k then Some v else map_of al j))" if "rc = 0"
    using engine.get_after_put [OF e r, of k v "kv_at be c'" j] put(1) that by simp
  moreover obtain n arg' t' where "tdb_range api c lo hi limit cb arg = Some (n, arg', t')"
      "(n, arg') = (if tdb_starts api c then rows_feed 1 limit cb (rows_range lo hi al) 0 arg else (0, arg))"
    using tdb_range_rows [OF ok r, of lo hi limit cb arg] by blast
  then have "store_range (kv_at be c) lo hi limit cb arg = Some (n, arg', kv_at be t') \<and>
      (n, arg') = (if tdb_starts api c then rows_feed 1 limit cb (rows_range lo hi al) 0 arg else (0, arg))"
    by (simp add: store_range_def be tidesdb_backend_def)
  ultimately show ?thesis using put by blast
qed

text \<open>A TidesDB in memory that reports one conflict per commit, with one transaction, one iterator and the count of what is held.\<close>

record sample_tdb =
  sx_rows :: rows
  sx_stalls :: nat
  sx_pend :: "batch_op list"
  sx_iter :: rows
  sx_held :: int

definition sample_tides :: "(sample_tdb, unit, unit, unit) tides_api" where
  "sample_tides = \<lparr>
     ta_txn_begin = (\<lambda>db. (TDB_SUCCESS, (), db\<lparr>sx_pend := [], sx_held := sx_held db + 1\<rparr>)),
     ta_txn_put = (\<lambda>_ _ k v db. (TDB_SUCCESS, db\<lparr>sx_pend := sx_pend db @ [BPut k v]\<rparr>)),
     ta_txn_delete = (\<lambda>_ _ k db. (TDB_SUCCESS, db\<lparr>sx_pend := sx_pend db @ [BDelete k]\<rparr>)),
     ta_txn_get = (\<lambda>_ _ k db. case map_of (sx_rows db) k of
        None \<Rightarrow> (TDB_ERR_NOT_FOUND, None, db) | Some v \<Rightarrow> (TDB_SUCCESS, Some v, db\<lparr>sx_held := sx_held db + 1\<rparr>)),
     ta_txn_commit = (\<lambda>_ db. if sx_stalls db > 0 then (TDB_ERR_CONFLICT, db\<lparr>sx_stalls := sx_stalls db - 1\<rparr>)
        else (TDB_SUCCESS, db\<lparr>sx_rows := fold batch_rows (sx_pend db) (sx_rows db)\<rparr>)),
     ta_txn_free = (\<lambda>_ db. db\<lparr>sx_held := sx_held db - 1\<rparr>), ta_free = (\<lambda>_ db. db\<lparr>sx_held := sx_held db - 1\<rparr>),
     ta_iter_new = (\<lambda>_ _ db. (TDB_SUCCESS, (), db\<lparr>sx_held := sx_held db + 1\<rparr>)),
     ta_iter_seek = (\<lambda>_ lo db. db\<lparr>sx_iter := filter (\<lambda>r. lo \<le> fst r) (sx_rows db)\<rparr>),
     ta_iter_valid = (\<lambda>_ db. sx_iter db \<noteq> []),
     ta_iter_key_value = (\<lambda>_ db. (TDB_SUCCESS, fst (hd (sx_iter db)), snd (hd (sx_iter db)), db\<lparr>sx_held := sx_held db + 2\<rparr>)),
     ta_iter_next = (\<lambda>_ db. (TDB_SUCCESS, db\<lparr>sx_iter := tl (sx_iter db)\<rparr>)),
     ta_iter_free = (\<lambda>_ db. db\<lparr>sx_held := sx_held db - 1\<rparr>), ta_version = ''10'', ta_max_levels = 32,
     ta_get_cf_stats = (\<lambda>_ _. None), ta_get_db_stats = (\<lambda>_. None), ta_get_cache_stats = (\<lambda>_. None),
     ta_close = (\<lambda>db. db), ta_walk = (\<lambda>_ _. []), ta_remove = (\<lambda>_ db. db),
     ta_default_config = \<lparr>tc_db_path = [], tc_num_flush_threads = 2, tc_num_compaction_threads = 2, tc_block_cache_size = 0,
       tc_max_open_sstables = 256, tc_log_level = TDB_LOG_INFO, tc_write_buffer_size = 67108864, tc_skip_list_max_level = 12,
       tc_skip_list_probability = 1 / 4, tc_sync_mode = TDB_SYNC_NONE, tc_sync_interval_us = 0, tc_l0_queue_stall_threshold = 10,
       tc_vlog_segment_size = 0, tc_idle_flush_seconds = 0, tc_txn_timeout_seconds = 0, tc_log_to_file = 0,
       tc_log_truncation_at = 0, tc_value_separation_threshold = 512\<rparr>,
     ta_default_cf_config = \<lparr>cc_name = [], cc_level_size_ratio = 10, cc_min_levels = 5, cc_dividing_level_offset = 2,
       cc_keep_values_inline = 0, cc_btree_klog_block_size = 0, cc_encoding_pipeline = [TDB_COMPRESS_LZ4],
       cc_encoding_count = 1, cc_enable_bloom_filter = 1, cc_bloom_fpr = 1 / 128,
       cc_default_isolation_level = TDB_ISOLATION_READ_COMMITTED, cc_l1_file_count_trigger = 4,
       cc_tombstone_density_trigger = 0, cc_tombstone_density_min_entries = 0\<rparr>,
     ta_cf_name_size = 128,
     ta_open = (\<lambda>_. (TDB_SUCCESS, \<lparr>sx_rows = [], sx_stalls = 1, sx_pend = [], sx_iter = [], sx_held = 0\<rparr>)),
     ta_create_cf = (\<lambda>_ _ db. (TDB_SUCCESS, db)), ta_get_cf = (\<lambda>_ _. Some ())\<rparr>"

definition sample_tdb0 :: "(sample_tdb, unit) tdb" where
  "sample_tdb0 = \<lparr>td_db = \<lparr>sx_rows = [], sx_stalls = 1, sx_pend = [], sx_iter = [], sx_held = 0\<rparr>, td_cf = (), td_path = []\<rparr>"

lemma sample_tides_ok:
  "tides_ok sample_tides () (\<lambda>_. sx_pend) sx_stalls (\<lambda>_. sx_iter) (\<lambda>db al. sx_rows db = al \<and> rows_ok al) (\<lambda>db. db)"
proof -
  have "txn_laws sample_tides () (\<lambda>_. sx_pend) sx_stalls (\<lambda>db al. sx_rows db = al \<and> rows_ok al) (\<lambda>db. db)"
    unfolding txn_laws_def
    by (auto simp: sample_tides_def body_ok_def call_ok_def tdb_retryable_def rows_ok_batch split: if_splits)
  moreover have "read_laws sample_tides () (\<lambda>_. sx_pend) (\<lambda>db al. sx_rows db = al \<and> rows_ok al)"
    unfolding read_laws_def by (auto simp: sample_tides_def split: option.splits)
  moreover have "iter_laws sample_tides () (\<lambda>_. sx_pend) (\<lambda>_. sx_iter) (\<lambda>db al. sx_rows db = al \<and> rows_ok al)"
    unfolding iter_laws_def by (auto simp: sample_tides_def)
  ultimately show ?thesis by (simp add: tides_ok_def)
qed

lemma sample_tides_held: "tides_held sample_tides sx_held"
  unfolding tides_held_def by (auto simp: sample_tides_def split: option.splits if_splits)

theorem tidesdb_store_reads_back_witness:
  "\<exists>rc s. store_put (tdb_bg (\<lambda>db. db)) (kv_at (tidesdb_backend sample_tides sample_tdb0 :: ((sample_tdb, unit) tdb, unit) kv_backend) sample_tdb0)
      ''k'' ''v'' = Some (rc, s) \<and> rc \<noteq> KV_RETRY"
  using tidesdb_store_reads_back [OF sample_tides_ok _ _ refl, where c = sample_tdb0 and al = "[]" and ti = sample_tdb0 and k = "''k''" and v = "''v''"]
  by (fastforce simp: sample_tdb0_def)

text \<open>
  C34. Every operation of the TidesDB engine gives back the transactions, iterators and buffers it took from the library,
  whichever call fails and wherever a scan stops: what the caller holds is the same before and after. The writes and the
  get always return; a scan does when it returns.
\<close>

theorem tidesdb_releases_all:
  assumes h: "tides_held api held"
  shows "(\<exists>rc t'. tdb_put api t k v = Some (rc, t') \<and> held (td_db t') = held (td_db t)) \<and>
    (\<exists>rc t'. tdb_putbatch api t kvs = Some (rc, t') \<and> held (td_db t') = held (td_db t)) \<and>
    (\<exists>rc t'. tdb_delbatch api t ks = Some (rc, t') \<and> held (td_db t') = held (td_db t)) \<and>
    (\<exists>rc t'. tdb_del api t k = Some (rc, t') \<and> held (td_db t') = held (td_db t)) \<and>
    (\<exists>rc w t'. tdb_get api t k = Some (rc, w, t') \<and> held (td_db t') = held (td_db t)) \<and>
    (\<forall>n arg' t'. tdb_range api t lo hi limit cb arg = Some (n, arg', t') \<longrightarrow> held (td_db t') = held (td_db t))"
proof -
  have "tdb_get api t k \<noteq> None" by (simp add: tdb_get_def Let_def split: prod.split)
  then obtain rc w t' where "tdb_get api t k = Some (rc, w, t')" by auto
  then have "\<exists>rc w t'. tdb_get api t k = Some (rc, w, t') \<and> held (td_db t') = held (td_db t)" using tdb_get_held [OF h] by blast
  moreover have "held (snd (in_txn api (\<lambda>txn. ta_txn_put api txn (td_cf t) k v) (td_db t))) = held (td_db t)"
    "held (snd (in_txn api (\<lambda>txn. ta_txn_delete api txn (td_cf t) k) (td_db t))) = held (td_db t)"
    "held (snd (in_txn api (txn_puts api (td_cf t) kvs) (td_db t))) = held (td_db t)"
    "held (snd (in_txn api (txn_dels api (td_cf t) ks) (td_db t))) = held (td_db t)"
    by (intro in_txn_held [OF h]; fact tides_heldD(2) [OF h] tides_heldD(3) [OF h] txn_puts_held [OF h] txn_dels_held [OF h])+
  moreover have "\<forall>n arg' t'. tdb_range api t lo hi limit cb arg = Some (n, arg', t') \<longrightarrow> held (td_db t') = held (td_db t)"
    by (intro allI impI) (rule tdb_range_held [OF h])
  ultimately show ?thesis by (simp add: tdb_put_def tdb_putbatch_def tdb_delbatch_def tdb_del_def case_prod_beta Let_def)
qed

theorem tidesdb_releases_all_witness:
  "\<exists>rc t'. tdb_put sample_tides sample_tdb0 ''k'' ''v'' = Some (rc, t') \<and> sx_held (td_db t') = 0"
proof -
  have "sx_held (td_db sample_tdb0) = 0" by (simp add: sample_tdb0_def)
  then show ?thesis
    using tidesdb_releases_all [OF sample_tides_held, of sample_tdb0 "''k''" "''v''" "[]" "[]" "[]" "[]" 0 "None :: unit kv_range_cb option" "()"]
    by metis
qed

end
