(* ===== verification/KB_Summary.thy ===== *)
theory KB_Summary
  imports KB_Kvlua KB_Reporter
begin

text \<open>
  From the counters of the repeats of one cell to the reported numbers: \<open>median_d\<close> and \<open>summarize_point\<close> of
  \<open>src/src/main.c\<close>, in IEEE double arithmetic. The scratch array \<open>tmp\<close> is the list of the values of the repeats,
  which \<open>median_d\<close> leaves sorted, so its ends are the extremes that are reported.
\<close>

subsection \<open>The code\<close>

record point_result =
  pr_stats :: op_stats
  pr_units :: int
  pr_wall :: double
  pr_engine :: string
  pr_ok :: bool

record summary_row =
  sr_engine :: string
  sr_threads :: int
  sr_sweep_value :: int
  sr_wu_s :: double
  sr_ops_s :: double
  sr_p50 :: double
  sr_p99 :: double

text \<open>\<open>qsort\<close> with \<open>cmp_d\<close> sorts ascending; the second component is the sorted array.\<close>

definition cmp_d :: "double \<Rightarrow> double \<Rightarrow> int" where
  "cmp_d x y = (if x > y then 1 else 0) - (if x < y then 1 else 0)"

definition median_d :: "double list \<Rightarrow> double \<times> double list" where
  "median_d a =
     (let n = length a in
      if n = 0 then (0, a)
      else (let s = sort a
            in (if odd n then s ! (n div 2) else dmul (1 / 2) (dadd (s ! (n div 2 - 1)) (s ! (n div 2))), s)))"

abbreviation med :: "double list \<Rightarrow> double" where "med a \<equiv> fst (median_d a)"

text \<open>One line per kind of operation that any repeat has used.\<close>

definition summarize_op :: "point_result list \<Rightarrow> op \<Rightarrow> report_op option" where
  "summarize_op Rs i =
     (let hs = map (\<lambda>r. st_h (pr_stats r) i) Rs
      in if sum_list (map count hs) = 0 then None
         else Some \<lparr>ro_op = op_name (int (op_index i)),
                    ro_count = double_to_u64 (dadd (med (map (\<lambda>h. u64_to_double (count h)) hs)) (1 / 2)),
                    ro_p50 = double_to_u64 (med (map (\<lambda>h. u64_to_double (hist_percentile h 50)) hs)),
                    ro_p99 = double_to_u64 (med (map (\<lambda>h. u64_to_double (hist_percentile h 99)) hs)),
                    ro_p999 = double_to_u64 (med (map (\<lambda>h. u64_to_double (hist_percentile h (rnd (999 / 10)))) hs)),
                    ro_max = double_to_u64 (med (map (\<lambda>h. u64_to_double (max_ns h)) hs))\<rparr>)"

fun summarize_ops :: "point_result list \<Rightarrow> op list \<Rightarrow> report_op list \<Rightarrow> report_op list" where
  "summarize_ops Rs [] out = out"
| "summarize_ops Rs (i # is) out =
     (if length out < REPORT_MAX_OPS then
        (case summarize_op Rs i of None \<Rightarrow> summarize_ops Rs is out | Some q \<Rightarrow> summarize_ops Rs is (out @ [q]))
      else out)"

text \<open>\<open>100.0 * x / tot\<close>, 0 when the total is 0; the total is added in 64 bits before it is converted.\<close>

definition percentage :: "u64 \<Rightarrow> u64 \<Rightarrow> double" where
  "percentage x tot =
     (if u64_to_double tot > 0 then ddiv (dmul 100 (u64_to_double x)) (u64_to_double tot) else 0)"

definition rate :: "double \<Rightarrow> double \<Rightarrow> double" where
  "rate x wall = (if wall > 0 then ddiv x wall else 0)"

text \<open>All histograms of one repeat merged into one.\<close>

definition overall :: "point_result \<Rightarrow> hist" where
  "overall r = fold (\<lambda>i all. hist_merge all (st_h (pr_stats r) i)) op_all hist_reset"

definition summarize_point ::
  "string \<Rightarrow> point_result list \<Rightarrow> int \<Rightarrow> string option \<Rightarrow> int \<Rightarrow> reporter list \<Rightarrow> summary_row \<times> report_point \<times> reporter list" where
  "summarize_point name Rs threads sweep_param sweep_value reporters =
     (let hits = (\<lambda>r. get_hits (pr_stats r)); misses = (\<lambda>r. get_misses (pr_stats r)); errors = (\<lambda>r. get_errors (pr_stats r));
          has_hit = (\<exists>r \<in> set Rs. hits r + misses r > 0);
          has_err = (\<exists>r \<in> set Rs. errors r > 0);
          (wu, wus) = median_d (map (\<lambda>r. rate (int_to_double (pr_units r)) (pr_wall r)) Rs);
          (opm, opss) = median_d (map (\<lambda>r. rate (u64_to_double (prim_ops (pr_stats r))) (pr_wall r)) Rs);
          rp = \<lparr>rp_workload = name, rp_engine = pr_engine (hd Rs), rp_threads = threads, rp_repeat = int (length Rs),
                rp_sweep_param = sweep_param, rp_sweep_value = sweep_value,
                rp_ops = summarize_ops Rs op_all [],
                rp_has_hit = has_hit,
                rp_hit_rate = (if has_hit then med (map (\<lambda>r. percentage (hits r) (hits r + misses r)) Rs) else 0),
                rp_has_err = has_err,
                rp_err_rate = (if has_err then med (map (\<lambda>r. percentage (errors r) (hits r + misses r + errors r)) Rs) else 0),
                rp_wu_med = wu, rp_wu_lo = wus ! 0, rp_wu_hi = wus ! (length Rs - 1),
                rp_ops_med = opm, rp_ops_lo = opss ! 0, rp_ops_hi = opss ! (length Rs - 1),
                rp_overall_p50 = double_to_u64 (med (map (\<lambda>r. u64_to_double (hist_percentile (overall r) 50)) Rs)),
                rp_overall_p99 = double_to_u64 (med (map (\<lambda>r. u64_to_double (hist_percentile (overall r) 99)) Rs))\<rparr>
      in (\<lparr>sr_engine = pr_engine (hd Rs), sr_threads = threads, sr_sweep_value = sweep_value, sr_wu_s = rp_wu_med rp,
           sr_ops_s = rp_ops_med rp, sr_p50 = u64_to_double (rp_overall_p50 rp), sr_p99 = u64_to_double (rp_overall_p99 rp)\<rparr>,
          rp, reporters_point reporters rp))"

subsection \<open>The median\<close>

definition is_double :: "double \<Rightarrow> bool" where
  "is_double x \<longleftrightarrow> rnd x = x"


lemma sort_ends:
  assumes "i < length xs"
  shows "sort xs ! 0 \<le> sort xs ! i" "sort xs ! i \<le> sort xs ! (length xs - 1)"
  using assms by (auto intro!: sorted_nth_mono)

lemma median_d_snd: "snd (median_d a) = sort a"
  by (simp add: median_d_def Let_def)

lemma median_d_between:
  assumes "a \<noteq> []" "\<forall>x \<in> set a. is_double x"
  shows "sort a ! 0 \<le> med a" "med a \<le> sort a ! (length a - 1)"
proof -
  let ?n = "length a" and ?s = "sort a"
  have n: "0 < ?n" using assms(1) by simp
  have d: "rnd (?s ! i) = ?s ! i" if "i < ?n" for i
    using assms(2) nth_mem [of i ?s] that by (simp add: is_double_def)
  have "?s ! 0 \<le> med a \<and> med a \<le> ?s ! (?n - 1)"
  proof (cases "odd ?n")
    case True
    then show ?thesis using n sort_ends [of "?n div 2" a] by (simp add: median_d_def Let_def)
  next
    case False
    then have i: "?n div 2 - 1 < ?n" "?n div 2 < ?n" using n by linarith+
    have "?s ! (?n div 2 - 1) \<le> ?s ! (?n div 2)" using i by (intro sorted_nth_mono) auto
    from ieee.average_between [OF d [OF i(1)] d [OF i(2)] this] show ?thesis
      using False n sort_ends [OF i(1)] sort_ends [OF i(2)]
      by (simp add: median_d_def Let_def dmul_def dadd_def)
  qed
  then show "sort a ! 0 \<le> med a" "med a \<le> sort a ! (length a - 1)" by auto
qed


lemma u64_to_double_exact: "unat w < 2 ^ 53 \<Longrightarrow> u64_to_double w = of_nat (unat w)"
  unfolding u64_to_double_def by (rule rnd_of_nat)

lemma percentage_exact:
  assumes "unat x \<le> unat tot" "0 < unat tot" "unat tot < 2 ^ 46"
  shows "percentage x tot = rnd (100 * of_nat (unat x) / of_nat (unat tot))"
proof -
  have "dmul 100 (of_nat (unat x)) = rnd (of_nat (100 * unat x))" by (simp add: dmul_def del: of_nat_unat)
  also have "\<dots> = of_nat (100 * unat x)" using assms by (intro rnd_of_nat) simp
  finally show ?thesis
    using assms u64_to_double_exact [of x] u64_to_double_exact [of tot]
    by (simp add: percentage_def ddiv_def del: of_nat_unat)
qed

lemma percentage_range:
  assumes "unat x \<le> unat tot" "unat tot < 2 ^ 46"
  shows "0 \<le> percentage x tot \<and> percentage x tot \<le> 100"
proof (cases "unat tot = 0")
  case True
  then show ?thesis by (simp add: percentage_def u64_to_double_def)
next
  case False
  have "(of_nat (unat x) :: rat) \<le> of_nat (unat tot)" using assms(1) by (simp only: of_nat_le_iff)
  then have "100 * of_nat (unat x) / of_nat (unat tot) \<le> (100 :: rat)" using False by (simp add: divide_le_eq del: of_nat_unat)
  then have "rnd (100 * of_nat (unat x) / of_nat (unat tot)) \<le> 100"
    using rnd_mono [of _ 100] rnd_of_nat [of 100] by force
  then show ?thesis using percentage_exact [OF assms(1) _ assms(2)] False by (simp add: rnd_nonneg del: of_nat_unat)
qed

lemma overall_spec:
  assumes "\<And>i. st_h (pr_stats r) i = hist_spec (xs i)"
  shows "overall r = hist_spec (concat (map xs op_all))"
proof -
  have "fold (\<lambda>i all. hist_merge all (st_h (pr_stats r) i)) is (hist_spec ys) = hist_spec (ys @ concat (map xs is))" for "is" ys
    by (induction "is" arbitrary: ys) (simp_all add: assms hist_merge_spec)
  from this [of op_all "[]"] show ?thesis by (simp add: overall_def hist_reset_spec)
qed

lemma summarize_ops_from:
  "length out + length is \<le> REPORT_MAX_OPS \<Longrightarrow> summarize_ops Rs is out = out @ List.map_filter (summarize_op Rs) is"
  by (induction "is" arbitrary: out) (auto split: option.split)


text \<open>There are seven kinds of operation, so the bound of eight lines never cuts the table.\<close>

lemma summarize_ops_all: "summarize_ops Rs op_all [] = List.map_filter (summarize_op Rs) op_all"
  using summarize_ops_from [of "[]" op_all Rs] by (simp add: op_all_def del: summarize_ops.simps List.map_filter_simps)

lemma is_double_results [simp]:
  "is_double (rate x w)" "is_double (percentage a b)" "is_double (u64_to_double c)"
  by (simp_all add: is_double_def rate_def percentage_def ddiv_def u64_to_double_def)

lemma sort_ends_in:
  assumes "a \<noteq> []" shows "sort a ! 0 \<in> set a" "sort a ! (length a - 1) \<in> set a"
  using assms nth_mem [of 0 "sort a"] nth_mem [of "length a - 1" "sort a"] by simp_all

lemma med_map_bounds:
  assumes "Rs \<noteq> []" "\<And>r. r \<in> set Rs \<Longrightarrow> is_double (f r)" "\<And>r. r \<in> set Rs \<Longrightarrow> l \<le> f r \<and> f r \<le> u"
  shows "l \<le> med (map f Rs) \<and> med (map f Rs) \<le> u"
  using median_d_between [of "map f Rs"] sort_ends_in [of "map f Rs"] assms by force

subsection \<open>Properties\<close>

text \<open>The unpacked result of \<open>summarize_point\<close>.\<close>

lemma summarize_point_fields:
  assumes "summarize_point name Rs threads param value reps = (row, rp, reps')"
  shows "rp_wu_med rp = med (map (\<lambda>r. rate (int_to_double (pr_units r)) (pr_wall r)) Rs)"
    "rp_wu_lo rp = sort (map (\<lambda>r. rate (int_to_double (pr_units r)) (pr_wall r)) Rs) ! 0"
    "rp_wu_hi rp = sort (map (\<lambda>r. rate (int_to_double (pr_units r)) (pr_wall r)) Rs) ! (length Rs - 1)"
    "rp_ops_med rp = med (map (\<lambda>r. rate (u64_to_double (prim_ops (pr_stats r))) (pr_wall r)) Rs)"
    "rp_ops_lo rp = sort (map (\<lambda>r. rate (u64_to_double (prim_ops (pr_stats r))) (pr_wall r)) Rs) ! 0"
    "rp_ops_hi rp = sort (map (\<lambda>r. rate (u64_to_double (prim_ops (pr_stats r))) (pr_wall r)) Rs) ! (length Rs - 1)"
    "rp_ops rp = summarize_ops Rs op_all []"
    "rp_has_hit rp = (\<exists>r \<in> set Rs. get_hits (pr_stats r) + get_misses (pr_stats r) > 0)"
    "rp_hit_rate rp = (if rp_has_hit rp then med (map (\<lambda>r. percentage (get_hits (pr_stats r)) (get_hits (pr_stats r) + get_misses (pr_stats r))) Rs) else 0)"
    "rp_err_rate rp = (if rp_has_err rp then med (map (\<lambda>r. percentage (get_errors (pr_stats r))
        (get_hits (pr_stats r) + get_misses (pr_stats r) + get_errors (pr_stats r))) Rs) else 0)"
    "rp_overall_p50 rp = double_to_u64 (med (map (\<lambda>r. u64_to_double (hist_percentile (overall r) 50)) Rs))"
    "rp_overall_p99 rp = double_to_u64 (med (map (\<lambda>r. u64_to_double (hist_percentile (overall r) 99)) Rs))"
    "row = \<lparr>sr_engine = pr_engine (hd Rs), sr_threads = threads, sr_sweep_value = value, sr_wu_s = rp_wu_med rp,
           sr_ops_s = rp_ops_med rp, sr_p50 = u64_to_double (rp_overall_p50 rp), sr_p99 = u64_to_double (rp_overall_p99 rp)\<rparr>"
    "reps' = reporters_point reps rp"
  using assms by (auto simp: summarize_point_def Let_def case_prod_beta median_d_snd)

lemma unat_add_le: "unat (a + b :: u64) = unat a + unat b" if "unat a + unat b < 2 ^ 64"
  using that by (simp add: unat_word_ariths)

lemma med_range:
  assumes "Rs \<noteq> []" "\<forall>r \<in> set Rs. is_double (f r)"
  shows "sort (map f Rs) ! 0 \<le> med (map f Rs)" "med (map f Rs) \<le> sort (map f Rs) ! (length Rs - 1)"
    "sort (map f Rs) ! 0 \<in> f ` set Rs" "sort (map f Rs) ! (length Rs - 1) \<in> f ` set Rs"
    "\<forall>r \<in> set Rs. sort (map f Rs) ! 0 \<le> f r \<and> f r \<le> sort (map f Rs) ! (length Rs - 1)"
proof -
  let ?a = "map f Rs"
  show "sort ?a ! 0 \<le> med ?a" "med ?a \<le> sort ?a ! (length Rs - 1)"
    using median_d_between [of ?a] assms by simp_all
  show "sort ?a ! 0 \<in> f ` set Rs" "sort ?a ! (length Rs - 1) \<in> f ` set Rs"
    using sort_ends_in [of ?a] assms(1) by simp_all
  show "\<forall>r \<in> set Rs. sort ?a ! 0 \<le> f r \<and> f r \<le> sort ?a ! (length Rs - 1)"
  proof
    fix r assume "r \<in> set Rs"
    then have "f r \<in> set (sort ?a)" by simp
    then obtain i where "i < length ?a" "sort ?a ! i = f r" by (metis in_set_conv_nth length_sort)
    then show "sort ?a ! 0 \<le> f r \<and> f r \<le> sort ?a ! (length Rs - 1)" using sort_ends [of i ?a] by auto
  qed
qed

lemma hit_percentages:
  assumes "unat (h :: u64) + unat m + unat e < 2 ^ 46"
  shows "0 \<le> percentage h (h + m) \<and> percentage h (h + m) \<le> 100"
    "0 \<le> percentage e (h + m + e) \<and> percentage e (h + m + e) \<le> 100" "h + m > 0 \<longleftrightarrow> h \<noteq> 0 \<or> m \<noteq> 0"
proof -
  have hm: "unat (h + m) = unat h + unat m" using assms by (intro unat_add_le) simp
  then have "unat (h + m + e) = unat h + unat m + unat e" using assms by (subst unat_add_le) simp_all
  then show "0 \<le> percentage h (h + m) \<and> percentage h (h + m) \<le> 100"
    "0 \<le> percentage e (h + m + e) \<and> percentage e (h + m + e) \<le> 100"
    using assms hm by (auto intro!: percentage_range)
  show "h + m > 0 \<longleftrightarrow> h \<noteq> 0 \<or> m \<noteq> 0"
    using hm by (simp add: word_less_nat_alt unat_gt_0)
qed




lemma trunc_u64_bounds:
  assumes "of_nat l \<le> x" "x \<le> of_nat u" "u < 2 ^ 64"
  shows "l \<le> unat (double_to_u64 x) \<and> unat (double_to_u64 x) \<le> u"
proof -
  have x: "0 \<le> x" using assms(1) of_nat_0_le_iff [of l, where 'a = rat] by linarith
  have "int l \<le> \<lfloor>x\<rfloor>" "\<lfloor>x\<rfloor> \<le> int u" using assms(1,2) by (simp_all add: le_floor_iff floor_le_iff)
  moreover have td: "trunc_double x = \<lfloor>x\<rfloor>" using x by (simp add: trunc_double_def)
  moreover have "int u < 2 ^ 64" using assms(3) by simp
  ultimately have "unat (double_to_u64 x) = nat \<lfloor>x\<rfloor>" unfolding td [symmetric] by (intro unat_double_to_u64) linarith+
  then show ?thesis using \<open>int l \<le> \<lfloor>x\<rfloor>\<close> \<open>\<lfloor>x\<rfloor> \<le> int u\<close> by linarith
qed

lemma med_u64_bounds:
  assumes "Rs \<noteq> []" "\<forall>r \<in> set Rs. l \<le> unat (f r) \<and> unat (f r) \<le> u" "u < 2 ^ 53"
  shows "l \<le> unat (double_to_u64 (med (map (\<lambda>r. u64_to_double (f r)) Rs))) \<and>
    unat (double_to_u64 (med (map (\<lambda>r. u64_to_double (f r)) Rs))) \<le> u"
proof -
  have "of_nat l \<le> u64_to_double (f r) \<and> u64_to_double (f r) \<le> of_nat u" if "r \<in> set Rs" for r
    using bspec [OF assms(2) that] assms(3) u64_to_double_exact [of "f r"] by (simp del: of_nat_unat)
  from med_map_bounds [OF assms(1) _ this] show ?thesis using assms(3) by (intro trunc_u64_bounds) auto
qed

lemma overall_events: "overall r = hist_spec (concat (map (\<lambda>i. samples_of i evs) op_all))" if "pr_stats r = stats_spec evs"
  by (rule overall_spec) (simp add: that stats_spec_def)

lemma summarize_op_name: "summarize_op Rs i = Some q \<Longrightarrow> ro_op q = op_name (int (op_index i))"
  by (auto simp: summarize_op_def Let_def split: if_splits)

lemma length_samples_of: "length (samples_of i evs) \<le> length evs"
  by (induction evs) (auto simp: samples_of_def split: stat_event.splits)

lemma sum_lengths_zero:
  assumes "\<forall>r \<in> set Rs. length (f r) \<le> N" "length Rs * N < 2 ^ 64"
  shows "sum_list (map (\<lambda>r. of_nat (length (f r)) :: u64) Rs) = 0 \<longleftrightarrow> (\<forall>r \<in> set Rs. f r = [])"
proof -
  have s: "sum_list (map (\<lambda>r. of_nat (length (f r)) :: u64) Rs) = of_nat (sum_list (map (\<lambda>r. length (f r)) Rs))"
    by (induction Rs) simp_all
  have "sum_list (map (\<lambda>r. length (f r)) Rs) \<le> sum_list (map (\<lambda>_. N) Rs)" using assms(1) by (intro sum_list_mono) auto
  then have "sum_list (map (\<lambda>r. length (f r)) Rs) < 2 ^ 64" using assms(2) by (simp add: sum_list_triv)
  then have u: "unat (of_nat (sum_list (map (\<lambda>r. length (f r)) Rs)) :: u64) = sum_list (map (\<lambda>r. length (f r)) Rs)"
    by (simp add: unat_of_nat)
  have "sum_list (map (\<lambda>r. of_nat (length (f r)) :: u64) Rs) = 0 \<longleftrightarrow> sum_list (map (\<lambda>r. length (f r)) Rs) = 0"
    using u unat_eq_zero unfolding s by metis
  then show ?thesis by (simp add: sum_list_eq_0_iff)
qed

lemma map_filter_names:
  assumes "\<And>i q. g i = Some q \<Longrightarrow> nm q = f i" "\<And>i. g i = None \<longleftrightarrow> \<not> P i"
  shows "map nm (List.map_filter g is) = map f (filter P is)"
  using assms by (induction "is") (fastforce split: option.split simp: List.map_filter_simps)+

text \<open>
  C17. The operation lines and the overall percentiles of a cell. Where the counters of each repeat are those of the events
  it saw, the cell has one line for every kind of operation that some repeat used, in the fixed order of the kinds and
  none dropped; and the overall 99th percentile lies between the smallest and the largest of the repeats' percentiles, each
  taken over the samples of all operations of that repeat.
\<close>

theorem summary_covers_operations:
  assumes Rs: "Rs \<noteq> []" and evs: "\<forall>r \<in> set Rs. pr_stats r = fold note_event (evs r) stats_reset"
    and N: "\<forall>r \<in> set Rs. length (evs r) \<le> N" "length Rs * N < 2 ^ 64"
    and p99: "\<forall>r \<in> set Rs. p99 r = hist_percentile (fold (\<lambda>v h. hist_record h v) (concat (map (\<lambda>i. samples_of i (evs r)) op_all)) hist_reset) 99"
    and lu: "\<forall>r \<in> set Rs. l \<le> unat (p99 r) \<and> unat (p99 r) \<le> u" "u < 2 ^ 53"
    and sp: "summarize_point name Rs threads param value reps = (row, rp, reps')"
  shows "map ro_op (rp_ops rp) = map (\<lambda>i. op_name (int (op_index i))) (filter (\<lambda>i. \<exists>r \<in> set Rs. samples_of i (evs r) \<noteq> []) op_all) \<and>
    l \<le> unat (rp_overall_p99 rp) \<and> unat (rp_overall_p99 rp) \<le> u"
proof -
  have st: "pr_stats r = stats_spec (evs r)" if "r \<in> set Rs" for r
    using evs that fold_note_event [of "evs r" "[]"] by (simp add: stats_reset_spec)
  have none: "summarize_op Rs i = None \<longleftrightarrow> \<not> (\<exists>r \<in> set Rs. samples_of i (evs r) \<noteq> [])" for i
  proof -
    have "map (\<lambda>r. count (st_h (pr_stats r) i)) Rs = map (\<lambda>r. of_nat (length (samples_of i (evs r)))) Rs"
      using st by (simp add: stats_spec_def)
    then have m: "map count (map (\<lambda>r. st_h (pr_stats r) i) Rs) = map (\<lambda>r. of_nat (length (samples_of i (evs r)))) Rs"
      by (simp add: comp_def)
    have "\<forall>r \<in> set Rs. length (samples_of i (evs r)) \<le> N" using N(1) length_samples_of le_trans by blast
    from sum_lengths_zero [OF this N(2)] show ?thesis unfolding summarize_op_def Let_def m by auto
  qed
  have "map ro_op (rp_ops rp) = map (\<lambda>i. op_name (int (op_index i))) (filter (\<lambda>i. \<exists>r \<in> set Rs. samples_of i (evs r) \<noteq> []) op_all)"
    unfolding summarize_point_fields(7) [OF sp] summarize_ops_all
    by (rule map_filter_names [OF summarize_op_name none])
  moreover have "overall r = fold (\<lambda>v h. hist_record h v) (concat (map (\<lambda>i. samples_of i (evs r)) op_all)) hist_reset" if "r \<in> set Rs" for r
    using overall_events [OF st [OF that]] fold_hist_record [of _ "[]"] by (simp add: hist_reset_spec)
  then have "\<forall>r \<in> set Rs. l \<le> unat (hist_percentile (overall r) 99) \<and> unat (hist_percentile (overall r) 99) \<le> u"
    using lu(1) p99 by simp
  ultimately show ?thesis unfolding summarize_point_fields(12) [OF sp] using med_u64_bounds [OF Rs _ lu(2), of l "\<lambda>r. hist_percentile (overall r) 99"] by blast
qed


text \<open>Two repeats on a skiplist: the counters come from a few events each.\<close>

definition sample_repeat :: "stat_event list \<Rightarrow> int \<Rightarrow> point_result" where
  "sample_repeat evs units =
     \<lparr>pr_stats = fold note_event evs stats_reset, pr_units = units, pr_wall = 2, pr_engine = ''skiplist'', pr_ok = True\<rparr>"

lemma sample_repeat_sels [simp]:
  "pr_stats (sample_repeat evs u) = stats_spec evs" "pr_units (sample_repeat evs u) = u"
  "pr_wall (sample_repeat evs u) = 2" "pr_engine (sample_repeat evs u) = ''skiplist''"
  using fold_note_event [of evs "[]"] by (simp_all add: sample_repeat_def stats_reset_spec)


theorem summary_covers_operations_witness:
  "\<exists>row rp reps'. summarize_point ''w'' [sample_repeat [Called OP_PUT 700 1, Called OP_DEL 800 1] 10] 1 None 0 [] = (row, rp, reps')
     \<and> map ro_op (rp_ops rp) = [''put'', ''del'']"
proof -
  let ?es = "[Called OP_PUT 700 1, Called OP_DEL 800 1]"
  let ?r = "sample_repeat ?es 10"
  obtain row rp reps' where sp: "summarize_point ''w'' [?r] 1 None 0 [] = (row, rp, reps')"
    by (cases "summarize_point ''w'' [?r] 1 None 0 []") auto
  let ?p = "hist_percentile (fold (\<lambda>v h. hist_record h v) (concat (map (\<lambda>i. samples_of i ?es) op_all)) hist_reset) 99"
  have s: "concat (map (\<lambda>i. samples_of i ?es) op_all) = [700, 800]" by (simp add: op_all_def samples_of_def)
  have "?p \<le> max_ns (hist_spec [700, 800])"
    unfolding s fold_hist_record [of _ "[]", unfolded append_Nil, folded hist_reset_spec] by (intro hist_percentile_bounds) (simp_all add: word_le_nat_alt)
  then have "unat ?p \<le> 800" by (simp add: word_le_nat_alt)
  then have "map ro_op (rp_ops rp) = map (\<lambda>i. op_name (int (op_index i))) (filter (\<lambda>i. \<exists>r \<in> set [?r]. samples_of i ?es \<noteq> []) op_all)"
    using summary_covers_operations [of "[?r]" "\<lambda>_. ?es" 2 "\<lambda>_. ?p" 0 800, OF _ _ _ _ _ _ _ sp] fold_note_event [of ?es "[]"]
    by (simp add: stats_reset_spec)
  then show ?thesis using sp by (auto simp: op_all_def samples_of_def op_name_def)
qed

end
