(* ===== verification/KB_System.thy ===== *)
theory KB_System
  imports KB_Cstring
begin

text \<open>
  What keybench asks the operating system: the size of a data directory (\<open>du_bytes\<close>) and its kind of file system
  (\<open>is_ram_fs\<close>) from \<open>src/src/main.c\<close>, and the mount and the block device behind it from \<open>src/src/probe_system.c\<close>.

  The file system is a record of answers, \<open>lstat\<close> and the names that \<open>readdir\<close> returns; it does not change during a
  walk. \<open>du_bytes\<close> walks the directories with a bounded stack of paths and a bound on the entries it reads, so it always
  returns; \<open>on_disk\<close> relates the file system to a tree, whose size is the reference.
\<close>

subsection \<open>The size of a directory\<close>

abbreviation DU_PATH_MAX :: nat where "DU_PATH_MAX \<equiv> 4096"
abbreviation DU_MAX_PENDING :: nat where "DU_MAX_PENDING \<equiv> 64"
abbreviation DU_MAX_ENTRIES :: nat where "DU_MAX_ENTRIES \<equiv> 2000000"

text \<open>\<open>fs_lstat\<close> tells whether it is a directory, and the size. \<open>fs_list\<close> is \<open>None\<close> when the directory does not open.\<close>

record filesys =
  fs_lstat :: "string \<Rightarrow> (bool \<times> u64) option"
  fs_list :: "string \<Rightarrow> string list option"

text \<open>The entries of one directory; the stack of pending directories has its top first.\<close>

fun du_entries :: "filesys \<Rightarrow> string \<Rightarrow> string list \<Rightarrow> u64 \<times> string list \<times> nat \<Rightarrow> u64 \<times> string list \<times> nat" where
  "du_entries fs dir [] s = s"
| "du_entries fs dir (e # es) (acc, pending, guard) =
     (if \<not> guard < DU_MAX_ENTRIES then (acc, pending, guard)
      else du_entries fs dir es
        (if e = ''.'' \<or> e = ''..'' then (acc, pending, guard + 1)
         else if length dir + 1 + length e \<ge> DU_PATH_MAX then (acc, pending, guard + 1)
         else
           (let child = dir @ ''/'' @ e
            in case fs_lstat fs child of
                 None \<Rightarrow> (acc, pending, guard + 1)
               | Some (isd, sz) \<Rightarrow>
                   (acc + sz,
                    if isd \<and> length pending < DU_MAX_PENDING then snprintf DU_PATH_MAX child # pending else pending,
                    guard + 1))))"

lemma du_entries_guard:
  "guard \<le> snd (snd (du_entries fs dir es (acc, pending, guard)))"
  "guard \<le> DU_MAX_ENTRIES \<Longrightarrow> snd (snd (du_entries fs dir es (acc, pending, guard))) \<le> DU_MAX_ENTRIES"
  "guard < DU_MAX_ENTRIES \<Longrightarrow> es \<noteq> [] \<Longrightarrow> guard < snd (snd (du_entries fs dir es (acc, pending, guard)))"
proof -
  show le: "guard \<le> snd (snd (du_entries fs dir es (acc, pending, guard)))" for es acc pending guard
  proof (induction es arbitrary: acc pending guard)
    case (Cons e es)
    show ?case by (simp add: Let_def split: option.split) (meson Cons.IH Suc_leD)
  qed simp
  show "guard \<le> DU_MAX_ENTRIES \<Longrightarrow> snd (snd (du_entries fs dir es (acc, pending, guard))) \<le> DU_MAX_ENTRIES"
    by (induction es arbitrary: acc pending guard) (auto simp: Let_def split: option.split)
  show "guard < DU_MAX_ENTRIES \<Longrightarrow> es \<noteq> [] \<Longrightarrow> guard < snd (snd (du_entries fs dir es (acc, pending, guard)))"
    by (cases es) (auto simp: Let_def Suc_le_eq [symmetric] le split: option.split)
qed

function du_walk :: "filesys \<Rightarrow> u64 \<times> string list \<times> nat \<Rightarrow> u64" where
  "du_walk fs (acc, [], guard) = acc"
| "du_walk fs (acc, dir # pending, guard) =
     (if \<not> guard < DU_MAX_ENTRIES then acc
      else (case fs_list fs (snprintf DU_PATH_MAX dir) of
              None \<Rightarrow> du_walk fs (acc, pending, guard)
            | Some es \<Rightarrow> du_walk fs (du_entries fs (snprintf DU_PATH_MAX dir) es (acc, pending, guard))))"
  by pat_completeness auto
termination
proof (relation "measures [\<lambda>(fs, acc, pending, guard). DU_MAX_ENTRIES - guard, \<lambda>(fs, acc, pending, guard). length pending]")
  fix fs and acc :: u64 and dir pending guard es
  assume g: "\<not> \<not> guard < DU_MAX_ENTRIES"
  obtain t p n where r: "du_entries fs (snprintf DU_PATH_MAX dir) es (acc, pending, guard) = (t, p, n)" by (metis prod_cases3)
  show "((fs, du_entries fs (snprintf DU_PATH_MAX dir) es (acc, pending, guard)), (fs, acc, dir # pending, guard))
      \<in> measures [\<lambda>(fs, acc, pending, guard). DU_MAX_ENTRIES - guard, \<lambda>(fs, acc, pending, guard). length pending]"
  proof (cases "es = []")
    case False
    then have "guard < n" using du_entries_guard(3) [of guard es fs "snprintf DU_PATH_MAX dir" acc pending] g r by simp
    then show ?thesis using g r by (simp add: diff_less_mono2)
  qed simp
qed simp_all

definition du_bytes :: "filesys \<Rightarrow> string \<Rightarrow> u64" where
  "du_bytes fs top_dir =
     (case fs_lstat fs top_dir of
        None \<Rightarrow> 0
      | Some (isd, sz) \<Rightarrow> if \<not> isd then sz else du_walk fs (sz, [snprintf DU_PATH_MAX top_dir], 0))"

subsection \<open>The tree it measures\<close>

datatype ftree = Leaf u64 | Dir u64 "(string \<times> ftree) list"

abbreviation is_dir :: "ftree \<Rightarrow> bool" where
  "is_dir t \<equiv> (case t of Leaf _ \<Rightarrow> False | Dir _ _ \<Rightarrow> True)"

fun tree_size :: "ftree \<Rightarrow> u64" where
  "tree_size (Leaf n) = n"
| "tree_size (Dir n es) = n + sum_list (map (\<lambda>e. tree_size (snd e)) es)"

text \<open>The tree is what the file system shows below the path.\<close>

fun on_disk :: "filesys \<Rightarrow> string \<Rightarrow> ftree \<Rightarrow> bool" where
  "on_disk fs p (Leaf n) \<longleftrightarrow> fs_lstat fs p = Some (False, n)"
| "on_disk fs p (Dir n es) \<longleftrightarrow>
     fs_lstat fs p = Some (True, n) \<and>
     (case fs_list fs p of None \<Rightarrow> False | Some ns \<Rightarrow> filter (\<lambda>x. x \<noteq> ''.'' \<and> x \<noteq> ''..'') ns = map fst es) \<and>
     (\<forall>e \<in> set es. length p + 1 + length (fst e) < DU_PATH_MAX \<and> on_disk fs (p @ ''/'' @ fst e) (snd e))"

text \<open>How many names reading all its directories returns.\<close>

fun tree_names :: "filesys \<Rightarrow> string \<Rightarrow> ftree \<Rightarrow> nat" where
  "tree_names fs p (Leaf n) = 0"
| "tree_names fs p (Dir n es) =
     (case fs_list fs p of None \<Rightarrow> 0 | Some ns \<Rightarrow> length ns) + sum_list (map (\<lambda>e. tree_names fs (p @ ''/'' @ fst e) (snd e)) es)"

text \<open>
  Whether the stack suffices when the tree is on top of it with \<open>b\<close> paths below: all directories of a directory are pushed,
  and the last is walked with the others below it.
\<close>

fun fits :: "nat \<Rightarrow> ftree \<Rightarrow> bool" and fits_all :: "nat \<Rightarrow> (string \<times> ftree) list \<Rightarrow> bool" where
  "fits b (Leaf n) \<longleftrightarrow> True"
| "fits b (Dir n es) \<longleftrightarrow> fits_all b es"
| "fits_all b [] \<longleftrightarrow> b \<le> DU_MAX_PENDING"
| "fits_all b (e # es) \<longleftrightarrow> (if is_dir (snd e) then fits b (snd e) \<and> fits_all (b + 1) es else fits_all b es)"

fun inner_size :: "ftree \<Rightarrow> u64" where
  "inner_size (Leaf n) = 0"
| "inner_size (Dir n es) = sum_list (map (\<lambda>e. tree_size (snd e)) es)"

fun own_size :: "ftree \<Rightarrow> u64" where
  "own_size (Leaf n) = n" | "own_size (Dir n es) = n"

lemma tree_size_split: "tree_size t = own_size t + inner_size t"
  by (cases t) simp_all

lemma on_disk_lstat: "on_disk fs p t \<Longrightarrow> fs_lstat fs p = Some (is_dir t, own_size t)"
  by (cases t) simp_all

subsection \<open>The walk measures the tree\<close>

abbreviation dirs_of :: "(string \<times> ftree) list \<Rightarrow> (string \<times> ftree) list" where
  "dirs_of es \<equiv> filter (\<lambda>e. is_dir (snd e)) es"

abbreviation below :: "string \<Rightarrow> (string \<times> ftree) list \<Rightarrow> (string \<times> ftree) list" where
  "below p es \<equiv> map (\<lambda>e. (p @ ''/'' @ fst e, snd e)) es"

fun stack_fits :: "(string \<times> ftree) list \<Rightarrow> bool" where
  "stack_fits [] \<longleftrightarrow> True"
| "stack_fits (x # xs) \<longleftrightarrow> fits (length xs) (snd x) \<and> stack_fits xs"

lemma fits_all_le: "fits_all b es \<Longrightarrow> b \<le> DU_MAX_PENDING"
  by (induction es arbitrary: b) (auto split: if_splits dest: Suc_leD)

lemma stack_fits_push:
  "fits_all (length xs) es \<Longrightarrow> stack_fits xs \<Longrightarrow> stack_fits (rev (below p (dirs_of es)) @ xs)"
proof (induction es arbitrary: xs)
  case (Cons e es)
  then show ?case using Cons.IH [of "(p @ ''/'' @ fst e, snd e) # xs"] by (cases "is_dir (snd e)") simp_all
qed simp

lemma du_entries_tree:
  assumes "filter (\<lambda>x. x \<noteq> ''.'' \<and> x \<noteq> ''..'') ns = map fst es"
    and "\<forall>e \<in> set es. length p + 1 + length (fst e) < DU_PATH_MAX \<and> on_disk fs (p @ ''/'' @ fst e) (snd e)"
    and "fits_all (length pending) es" and "guard + length ns \<le> DU_MAX_ENTRIES"
  shows "du_entries fs p ns (acc, pending, guard) =
    (acc + sum_list (map (\<lambda>e. own_size (snd e)) es), rev (map fst (below p (dirs_of es))) @ pending, guard + length ns)"
  using assms
proof (induction ns arbitrary: es acc pending guard)
  case (Cons n ns)
  have g: "guard < DU_MAX_ENTRIES" using Cons.prems(4) by simp
  show ?case
  proof (cases "n = ''.'' \<or> n = ''..''")
    case True
    then show ?thesis using Cons.IH [of es pending "guard + 1" acc] Cons.prems g by auto
  next
    case False
    then obtain e es' where es: "es = e # es'" "n = fst e" "filter (\<lambda>x. x \<noteq> ''.'' \<and> x \<noteq> ''..'') ns = map fst es'"
      using Cons.prems(1) by (cases es) auto
    have d: "on_disk fs (p @ ''/'' @ n) (snd e)" "length p + 1 + length n < DU_PATH_MAX" using Cons.prems(2) es by auto
    have l: "fs_lstat fs (p @ ''/'' @ n) = Some (is_dir (snd e), own_size (snd e))" using on_disk_lstat [OF d(1)] .
    have c: "snprintf DU_PATH_MAX (p @ ''/'' @ n) = p @ ''/'' @ n" using d(2) by (simp add: snprintf_def)
    have room: "is_dir (snd e) \<Longrightarrow> length pending < DU_MAX_PENDING" using Cons.prems(3) es fits_all_le [of "length pending + 1" es'] by simp
    show ?thesis
      using Cons.IH [of es' "if is_dir (snd e) then (p @ ''/'' @ n) # pending else pending" "guard + 1" "acc + own_size (snd e)"]
        Cons.prems es False d l c room g by (cases "is_dir (snd e)") (simp_all add: Let_def add.assoc)
  qed
qed simp

lemma tree_names_none:
  "on_disk fs p t \<Longrightarrow> tree_names fs p t = 0 \<Longrightarrow> inner_size t = 0"
  by (cases t) (auto split: option.splits)

lemma sum_dirs: "(\<And>n. f (Leaf n) = (0 :: 'a :: comm_monoid_add)) \<Longrightarrow> sum_list (map (\<lambda>e. f (snd e)) (dirs_of es)) = sum_list (map (\<lambda>e. f (snd e)) es)"
  by (induction es) (auto split: ftree.splits)

lemma sum_names_dirs:
  "sum_list (map (\<lambda>x. tree_names fs (fst x) (snd x)) (below p (dirs_of es))) = sum_list (map (\<lambda>e. tree_names fs (p @ ''/'' @ fst e) (snd e)) es)"
  by (induction es) (auto split: ftree.splits)

lemma sum_sizes: "sum_list (map (\<lambda>e. own_size (snd e)) es) + sum_list (map (\<lambda>e. inner_size (snd e)) es) = sum_list (map (\<lambda>e. tree_size (snd e)) es)"
  unfolding tree_size_split sum_list_addf ..

lemma du_walk_tree:
  assumes "\<forall>x \<in> set xs. is_dir (snd x) \<and> length (fst x) < DU_PATH_MAX \<and> on_disk fs (fst x) (snd x)"
    and "stack_fits xs" and "guard + sum_list (map (\<lambda>x. tree_names fs (fst x) (snd x)) xs) \<le> DU_MAX_ENTRIES"
  shows "du_walk fs (acc, map fst xs, guard) = acc + sum_list (map (\<lambda>x. inner_size (snd x)) xs)"
  using assms
proof (induction fs "(acc, map fst xs, guard)" arbitrary: acc xs guard rule: du_walk.induct)
  case (1 fs acc guard)
  then show ?case by simp
next
  case (2 fs acc dir pending guard)
  then obtain p n es rest where xs: "xs = (p, Dir n es) # rest" "dir = p" "pending = map fst rest"
    by (cases xs) (auto split: ftree.splits)
  have p: "snprintf DU_PATH_MAX p = p" using 2(4) xs by (simp add: snprintf_def)
  obtain ns where ns: "fs_list fs p = Some ns" "filter (\<lambda>x. x \<noteq> ''.'' \<and> x \<noteq> ''..'') ns = map fst es"
    using 2(4) xs by (auto split: option.splits)
  show ?case
  proof (cases "guard < DU_MAX_ENTRIES")
    case False
    then have "sum_list (map (\<lambda>x. tree_names fs (fst x) (snd x)) xs) = 0" using 2(6) by linarith
    then have "\<forall>x \<in> set xs. tree_names fs (fst x) (snd x) = 0" by (simp add: sum_list_eq_0_iff)
    then have "\<forall>x \<in> set xs. inner_size (snd x) = 0" using 2(4) tree_names_none by blast
    then have "sum_list (map (\<lambda>x. inner_size (snd x)) xs) = 0" by (simp add: sum_list_0 cong: map_cong)
    then show ?thesis using False by (simp add: 2(3) [symmetric])
  next
    case True
    let ?xs = "rev (below p (dirs_of es)) @ rest"
    have f: "fits_all (length rest) es" "stack_fits rest" using 2(5) xs by simp_all
    have step: "du_entries fs p ns (acc, pending, guard) =
        (acc + sum_list (map (\<lambda>e. own_size (snd e)) es), map fst ?xs, guard + length ns)"
      using du_entries_tree [of ns es p fs pending guard acc] ns f 2(4,6) xs by (simp add: rev_map comp_def)
    have rest: "sum_list (map (\<lambda>x. inner_size (snd x)) ?xs) = sum_list (map (\<lambda>e. inner_size (snd e)) es) + sum_list (map (\<lambda>x. inner_size (snd x)) rest)"
      using sum_dirs [of inner_size es] by (simp add: rev_map [symmetric] sum_list_rev comp_def)
    have names: "sum_list (map (\<lambda>x. tree_names fs (fst x) (snd x)) ?xs) =
        sum_list (map (\<lambda>e. tree_names fs (p @ ''/'' @ fst e) (snd e)) es) + sum_list (map (\<lambda>x. tree_names fs (fst x) (snd x)) rest)"
      unfolding map_append sum_list_append rev_map [symmetric] sum_list_rev sum_names_dirs ..
    have "du_walk fs (acc + sum_list (map (\<lambda>e. own_size (snd e)) es), map fst ?xs, guard + length ns) =
        acc + sum_list (map (\<lambda>e. own_size (snd e)) es) + sum_list (map (\<lambda>x. inner_size (snd x)) ?xs)"
    proof (rule 2(2))
      show "stack_fits ?xs" using stack_fits_push f by blast
    qed (use 2(4,6) xs ns True step p names in \<open>auto split: option.splits\<close>)
    then show ?thesis using True p ns step xs rest sum_sizes [of es] 2(3) by (simp add: add.assoc [symmetric])
  qed
qed

text \<open>The stack never overflows and the walk never reads more than its bound, on any file system.\<close>

lemma du_entries_stack:
  "length pending \<le> DU_MAX_PENDING \<Longrightarrow> length (fst (snd (du_entries fs dir es (acc, pending, guard)))) \<le> DU_MAX_PENDING"
  by (induction es arbitrary: acc pending guard) (auto simp: Let_def split: option.split)

subsection \<open>The kind of file system\<close>

definition is_ram_fs :: "(string \<Rightarrow> u64 option) \<Rightarrow> string \<Rightarrow> bool" where
  "is_ram_fs statfs dir = (case statfs dir of None \<Rightarrow> False | Some t \<Rightarrow> t = 0x01021994 \<or> t = 0x858458f6)"

subsection \<open>Properties\<close>

text \<open>
  C35. The size that the timeline reports for a data directory is the size of its tree, every entry counted once, as
  long as the paths fit their buffer, reading all directories returns at most 2000000 names and the stack of pending
  directories does not need more than its 64 slots. The walk returns in any case, as it is a total function.
\<close>

theorem du_bytes_is_tree_size:
  assumes t: "on_disk fs p t" and p: "length p < DU_PATH_MAX" and n: "tree_names fs p t \<le> DU_MAX_ENTRIES" and f: "fits 0 t"
  shows "du_bytes fs p = tree_size t"
proof (cases t)
  case (Leaf n)
  then show ?thesis using t by (simp add: du_bytes_def)
next
  case (Dir n es)
  have "du_walk fs (own_size t, map fst [(p, t)], 0) = own_size t + sum_list (map (\<lambda>x. inner_size (snd x)) [(p, t)])"
    by (rule du_walk_tree) (use assms Dir in auto)
  moreover have "snprintf DU_PATH_MAX p = p" using p by (simp add: snprintf_def)
  ultimately show ?thesis using on_disk_lstat [OF t] Dir by (simp add: du_bytes_def tree_size_split)
qed

definition sample_fs :: filesys where
  "sample_fs = \<lparr>
     fs_lstat = (\<lambda>p. map_of [(''/d'', (True, 40)), (''/d/a'', (False, 7)), (''/d/s'', (True, 40)), (''/d/s/b'', (False, 5))] p),
     fs_list = (\<lambda>p. map_of [(''/d'', [''.'', ''..'', ''a'', ''s'']), (''/d/s'', [''..'', ''b'', ''.''])] p)\<rparr>"

theorem du_bytes_is_tree_size_witness: "du_bytes sample_fs ''/d'' = 92"
proof -
  let ?t = "Dir 40 [(''a'', Leaf 7), (''s'', Dir 40 [(''b'', Leaf 5)])]"
  have "du_bytes sample_fs ''/d'' = tree_size ?t"
    by (rule du_bytes_is_tree_size) (simp_all add: sample_fs_def)
  then show ?thesis by simp
qed

end
