(* ===== verification/KB_Sysprobe.thy ===== *)
theory KB_Sysprobe
  imports KB_System KB_Config KB_Registry KB_Affinity
begin

text \<open>
  The two probes: \<open>src/src/probe_system.c\<close> (the machine, the disk under the data directory, the load while a run goes on)
  and \<open>src/src/probe_build.c\<close> (how the binary was built).

  What the operating system answers is the record \<open>sys_env\<close>: the content of a file or \<open>None\<close> when it does not open, the
  mount table, the results of the calls. A probe is the list of the calls it makes to its callback. A metric whose text is
  not a finite number, and the scan of \<open>/proc/stat\<close> when it leaves variables unset, is \<open>None\<close>. Preprocessor conditions of
  the build probe are the record \<open>build_env\<close>.
\<close>

subsection \<open>Reading files\<close>

function fgets_lines :: "nat \<Rightarrow> string \<Rightarrow> string list" where
  "fgets_lines n s = (if s = [] \<or> n \<le> 1 then [] else c_str (fst (fgets n s)) # fgets_lines n (snd (fgets n s)))"
  by pat_completeness auto
termination
  by (relation "measure (\<lambda>(n, s). length s)") (auto intro: fgets_shrinks)

declare fgets_lines.simps [simp del]

text \<open>The value after the colon of the first line that starts with the key.\<close>

definition proc_field :: "string option \<Rightarrow> string \<Rightarrow> nat \<Rightarrow> string option" where
  "proc_field content key n =
     (case content of
        None \<Rightarrow> None
      | Some s \<Rightarrow>
          (case find (\<lambda>line. take (length key) line = key) (fgets_lines 512 s) of
             None \<Rightarrow> None
           | Some line \<Rightarrow>
               (let c = dropWhile (\<lambda>c. c \<noteq> CHR '':'') line
                in if c = [] then None
                   else Some (snprintf n (takeWhile (\<lambda>c. c \<noteq> newline)
                          (dropWhile (\<lambda>c. c = CHR '' '' \<or> c = CHR 0x09) (tl c)))))))"

text \<open>The first line of a file in a buffer of \<open>n\<close> bytes.\<close>

definition first_line :: "nat \<Rightarrow> string option \<Rightarrow> string option" where
  "first_line n content = (case content of None \<Rightarrow> None | Some s \<Rightarrow> if s = [] then None else Some (c_str (fst (fgets n s))))"

subsection \<open>The disk under a directory\<close>

record mntent =
  me_fsname :: string
  me_dir :: string
  me_type :: string

definition mount_matches :: "string \<Rightarrow> string \<Rightarrow> bool" where
  "mount_matches rp m \<longleftrightarrow>
     (let l = length m in take l rp = m \<and> (l = 1 \<or> (l < length rp \<and> rp ! l = CHR ''/'') \<or> length rp = l))"

definition mount_step :: "string \<Rightarrow> mntent \<Rightarrow> nat \<times> (string \<times> string \<times> string) option \<Rightarrow> nat \<times> (string \<times> string \<times> string) option" where
  "mount_step rp e s =
     (if length (me_dir e) \<ge> fst s \<and> mount_matches rp (me_dir e)
      then (length (me_dir e), Some (snprintf 128 (me_fsname e), snprintf 32 (me_type e), snprintf 256 (me_dir e)))
      else s)"

text \<open>Device, type and mount point, with the buffer sizes of \<open>sys_disk\<close>.\<close>

definition data_mount :: "(string \<Rightarrow> string option) \<Rightarrow> mntent list option \<Rightarrow> string \<Rightarrow> (string \<times> string \<times> string) option" where
  "data_mount realpath mounts dir =
     (let rp = (case realpath dir of Some p \<Rightarrow> p | None \<Rightarrow> snprintf 4096 dir)
      in case mounts of None \<Rightarrow> None | Some es \<Rightarrow> snd (fold (mount_step rp) es (0, None)))"

definition base_block :: "nat \<Rightarrow> string \<Rightarrow> string" where
  "base_block n dev =
     (let p = (if take 5 dev = ''/dev/'' then drop 5 dev else dev); s = snprintf n p
      in if take 4 s = ''nvme'' \<or> take 6 s = ''mmcblk'' then
           (let after = rev (takeWhile (\<lambda>c. c \<noteq> CHR ''p'') (rev s))
            in if CHR ''p'' \<in> set s \<and> after \<noteq> [] \<and> isdigit (hd after) then take (length s - length after - 1) s else s)
         else rev (dropWhile isdigit (rev s)))"

record sys_env =
  se_read :: "string \<Rightarrow> string option"
  se_realpath :: "string \<Rightarrow> string option"
  se_mounts :: "mntent list option"
  se_hostname :: "string option"
  se_uname :: "(string \<times> string \<times> string) option"
  se_cores :: int
  se_page_size :: int
  se_pages :: int
  se_statvfs :: "string \<Rightarrow> (u64 \<times> u64 \<times> u64) option"

definition trim_model :: "string \<Rightarrow> string" where
  "trim_model line = rev (dropWhile (\<lambda>c. c = CHR '' '') (rev (takeWhile (\<lambda>c. c \<noteq> newline) line)))"

definition sys_disk :: "sys_env \<Rightarrow> string \<Rightarrow> (string \<times> string) list" where
  "sys_disk env dir =
     (case data_mount (se_realpath env) (se_mounts env) dir of
        None \<Rightarrow> []
      | Some (dev, fstype, mnt) \<Rightarrow>
          (let base = base_block 128 dev
           in [(''data_dev'', snprintf 512 (dev @ '' on '' @ mnt @ '' ('' @ fstype @ '')''))] @
              (case first_line 128 (se_read env (snprintf 256 (''/sys/block/'' @ base @ ''/queue/rotational''))) of
                 None \<Rightarrow> []
               | Some line \<Rightarrow> [(''data_disk'', if word_of_int (fst (strtol line)) \<noteq> (0 :: 32 word) then ''rotational (HDD)'' else ''solid state'')]) @
              (case first_line 128 (se_read env (snprintf 256 (''/sys/block/'' @ base @ ''/device/model''))) of
                 None \<Rightarrow> []
               | Some line \<Rightarrow> (if trim_model line = [] then [] else [(''data_disk_model'', trim_model line)]))))"

subsection \<open>The machine\<close>

definition GiB :: double where "GiB = 1073741824"

definition sys_info :: "sys_env \<Rightarrow> affinity \<Rightarrow> probes \<Rightarrow> (string \<times> string) list" where
  "sys_info env aff g =
     (case se_hostname env of None \<Rightarrow> [] | Some h \<Rightarrow> [(''host'', snprintf 256 h)]) @
     (case se_uname env of
        None \<Rightarrow> []
      | Some (sysname, release, machine) \<Rightarrow> [(''os'', snprintf 256 (sysname @ '' '' @ release @ '' '' @ machine))]) @
     (case proc_field (se_read env ''/proc/cpuinfo'') ''model name'' 256 of None \<Rightarrow> [] | Some m \<Rightarrow> [(''cpu'', m)]) @
     (if se_cores env > 0 then [(''cpu_cores'', snprintf 32 (show_int (se_cores env))), (''cpu_affinity'', kb_affinity_desc aff)] else []) @
     (if se_pages env > 0 \<and> se_page_size env > 0 then
        [(''ram'', snprintf 32 (fmt_fixed 1 (ddiv (dmul (int_to_double (se_pages env)) (int_to_double (se_page_size env))) GiB) @ '' GiB''))]
      else []) @
     (if se_page_size env > 0 then [(''page_size'', snprintf 32 (show_int (se_page_size env)))] else []) @
     (let dir = probe_data_dir g
      in (case se_statvfs env dir of
            None \<Rightarrow> []
          | Some (blocks, bavail, frsize) \<Rightarrow>
              (let tot = ddiv (dmul (u64_to_double blocks) (u64_to_double frsize)) GiB;
                   freeb = ddiv (dmul (u64_to_double bavail) (u64_to_double frsize)) GiB
               in [(snprintf 128 (''data_fs('' @ dir @ '')''),
                    snprintf 64 (fmt_fixed 1 freeb @ '' GiB free of '' @ fmt_fixed 1 tot @ '' GiB''))])) @
         sys_disk env dir)"

subsection \<open>The load during a run\<close>

text \<open>
  The static variables of \<open>sys_sample\<close>: the idle and total ticks of the last call and the processor time and the clock, \<open>None\<close>
  before the first call.
\<close>

record sys_prev =
  pv_idle :: u64
  pv_total :: u64
  pv_cpu :: "(double \<times> int \<times> int) option"

definition sys_prev_init :: sys_prev where
  "sys_prev_init = \<lparr>pv_idle = 0, pv_total = 0, pv_cpu = None\<rparr>"

record rusage =
  ru_utime :: "int \<times> int"
  ru_stime :: "int \<times> int"
  ru_maxrss :: int
  ru_minflt :: int
  ru_majflt :: int
  ru_nvcsw :: int
  ru_nivcsw :: int

record sys_now =
  sn_read :: "string \<Rightarrow> string option"
  sn_loadavg :: "double option"
  sn_rusage :: "rusage option"
  sn_clock :: "int \<times> int"
  sn_page_size :: int

text \<open>The numbers \<open>fscanf\<close> converts, at most \<open>k\<close>; a conversion to an unsigned type saturates.\<close>

fun scan_nums :: "nat \<Rightarrow> string \<Rightarrow> int list" where
  "scan_nums 0 s = []"
| "scan_nums (Suc k) s =
     (let (neg, t) = sign_of (dropWhile isspace s); ds = takeWhile isdigit t
      in if ds = [] then []
         else (if neg then - int (dec_val ds) else int (dec_val ds)) # scan_nums k (dropWhile isdigit t))"

definition to_ull :: "int \<Rightarrow> u64" where
  "to_ull v = (if \<bar>v\<bar> \<ge> 2 ^ 64 then - 1 else word_of_int v)"

text \<open>Four to seven numbers leave variables unset that are then added.\<close>

definition cpu_util :: "string option \<Rightarrow> sys_prev \<Rightarrow> ((string \<times> double) list \<times> sys_prev) option" where
  "cpu_util content pv =
     (let ns = (case content of None \<Rightarrow> [] | Some s \<Rightarrow> if take 3 s = ''cpu'' then scan_nums 8 (drop 3 s) else [])
      in if length ns < 4 then Some ([], pv)
         else if length ns < 8 then None
         else (let tot = sum_list (map to_ull ns); idle = to_ull (ns ! 3); dt = tot - pv_total pv; di = idle - pv_idle pv
               in Some (if pv_total pv \<noteq> 0 \<and> dt \<noteq> 0
                        then [(''cpu_util_pct'', ddiv (dmul 100 (u64_to_double (dt - di))) (u64_to_double dt))] else [],
                        pv\<lparr>pv_idle := idle, pv_total := tot\<rparr>)))"

definition field_metric :: "string \<Rightarrow> string option \<Rightarrow> string \<Rightarrow> double \<Rightarrow> (string \<times> double) list option" where
  "field_metric name content key unit =
     (case proc_field content key 64 of
        None \<Rightarrow> Some []
      | Some s \<Rightarrow> map_option (\<lambda>x. [(name, ddiv x unit)]) (fst (strtod s)))"

definition proc_cpu :: "sys_now \<Rightarrow> sys_prev \<Rightarrow> (string \<times> double) list \<times> sys_prev" where
  "proc_cpu now pv =
     (case sn_rusage now of
        None \<Rightarrow> ([], pv)
      | Some ru \<Rightarrow>
          (let cpu = dadd (dadd (dadd (int_to_double (fst (ru_utime ru))) (ddiv (int_to_double (snd (ru_utime ru))) 1000000))
                                (int_to_double (fst (ru_stime ru)))) (ddiv (int_to_double (snd (ru_stime ru))) 1000000);
               pct = (case pv_cpu pv of
                        None \<Rightarrow> []
                      | Some (prev_cpu, ps, pns) \<Rightarrow>
                          (let dw = dadd (int_to_double (fst (sn_clock now) - ps)) (ddiv (int_to_double (snd (sn_clock now) - pns)) 1000000000)
                           in if dw > 0 then [(''proc_cpu_pct'', ddiv (dmul 100 (dsub cpu prev_cpu)) dw)] else []))
           in (pct @ [(''peak_rss_mb'', ddiv (int_to_double (ru_maxrss ru)) 1024), (''minflt'', int_to_double (ru_minflt ru)),
                      (''majflt'', int_to_double (ru_majflt ru)), (''vol_ctxsw'', int_to_double (ru_nvcsw ru)),
                      (''invol_ctxsw'', int_to_double (ru_nivcsw ru))],
               pv\<lparr>pv_cpu := Some (cpu, sn_clock now)\<rparr>)))"

definition resident :: "sys_now \<Rightarrow> (string \<times> double) list" where
  "resident now =
     (case sn_read now ''/proc/self/statm'' of
        None \<Rightarrow> []
      | Some s \<Rightarrow>
          (let ns = scan_nums 2 s
           in if length ns = 2 then [(''rss_mb'', ddiv (dmul (int_to_double (ns ! 1)) (int_to_double (sn_page_size now))) 1048576)] else []))"

definition sys_sample :: "sys_now \<Rightarrow> sys_prev \<Rightarrow> ((string \<times> double) list \<times> sys_prev) option" where
  "sys_sample now pv = do {
     (cpu, pv) \<leftarrow> cpu_util (sn_read now ''/proc/stat'') pv;
     avail \<leftarrow> field_metric ''mem_avail_mb'' (sn_read now ''/proc/meminfo'') ''MemAvailable'' 1024;
     let load = (case sn_loadavg now of None \<Rightarrow> [] | Some l \<Rightarrow> [(''load1'', l)]);
     let (usage, pv) = proc_cpu now pv;
     rd \<leftarrow> field_metric ''io_read_mb'' (sn_read now ''/proc/self/io'') ''read_bytes'' 1048576;
     wr \<leftarrow> field_metric ''io_write_mb'' (sn_read now ''/proc/self/io'') ''write_bytes'' 1048576;
     thr \<leftarrow> field_metric ''threads'' (sn_read now ''/proc/self/status'') ''Threads'' 1;
     Some (cpu @ avail @ load @ usage @ resident now @ rd @ wr @ thr, pv) }"

text \<open>The probe as it is registered, at one moment.\<close>

definition SYSTEM_PROBE :: "sys_env \<Rightarrow> affinity \<Rightarrow> probes \<Rightarrow> (string \<times> double) list \<Rightarrow> probe" where
  "SYSTEM_PROBE env aff g metrics = \<lparr>p_name = ''system'', p_info = Some (sys_info env aff g), p_sample = Some metrics\<rparr>"

subsection \<open>The build\<close>

record build_env =
  bd_version :: string
  bd_clang :: "(int \<times> int \<times> int) option"
  bd_gcc :: "(int \<times> int \<times> int) option"
  bd_stdc :: "int option"
  bd_optimize :: bool
  bd_mallctl :: bool
  bd_tcmalloc :: bool
  bd_glibc :: "string option"

definition allocator :: "build_env \<Rightarrow> string" where
  "allocator b =
     (if bd_mallctl b then ''jemalloc'' else if bd_tcmalloc b then ''tcmalloc''
      else if bd_glibc b \<noteq> None then ''glibc malloc'' else ''system malloc'')"

definition version3 :: "string \<Rightarrow> int \<times> int \<times> int \<Rightarrow> string" where
  "version3 name v = (case v of (a, b, c) \<Rightarrow> name @ show_int a @ ''.'' @ show_int b @ ''.'' @ show_int c)"

definition build_info :: "build_env \<Rightarrow> (string \<times> string) list" where
  "build_info b =
     [(''keybench'', bd_version b),
      (''compiler'', snprintf 64 (case bd_clang b of
         Some v \<Rightarrow> version3 ''clang '' v
       | None \<Rightarrow> (case bd_gcc b of Some v \<Rightarrow> version3 ''gcc '' v | None \<Rightarrow> ''unknown'')))] @
     (case bd_stdc b of
        None \<Rightarrow> []
      | Some v \<Rightarrow> [(''std'', snprintf 32 (''C '' @ show_int v @ (if bd_optimize b then '' (optimized)'' else [])))]) @
     [(''allocator'', snprintf 96 (case bd_glibc b of
         Some v \<Rightarrow> allocator b @ '' (glibc '' @ v @ '')''
       | None \<Rightarrow> allocator b))]"

definition BUILD_PROBE :: "build_env \<Rightarrow> probe" where
  "BUILD_PROBE b = \<lparr>p_name = ''build'', p_info = Some (build_info b), p_sample = None\<rparr>"

subsection \<open>The mount is the longest that holds the directory\<close>

text \<open>The directory lies at or below the mount point, component by component.\<close>

definition under :: "string \<Rightarrow> string \<Rightarrow> bool" where
  "under rp m \<longleftrightarrow> m = ''/'' \<or> rp = m \<or> (\<exists>r. rp = m @ ''/'' @ r)"

lemma mount_matches_under:
  assumes rp: "take 1 rp = ''/''" and m: "m \<noteq> []"
  shows "mount_matches rp m \<longleftrightarrow> under rp m"
proof
  assume a: "mount_matches rp m"
  then have t: "take (length m) rp = m" by (simp add: mount_matches_def Let_def)
  consider "length m = 1" | "length m < length rp" "rp ! length m = CHR ''/''" | "length rp = length m"
    using a by (auto simp: mount_matches_def Let_def)
  then show "under rp m"
  proof cases
    case 1
    then have "m = ''/''" using t rp by simp
    then show ?thesis by (simp add: under_def)
  next
    case 2
    have "rp = take (length m) rp @ drop (length m) rp" by simp
    also have "\<dots> = m @ rp ! length m # drop (Suc (length m)) rp" using t 2(1) by (simp add: Cons_nth_drop_Suc)
    finally show ?thesis using 2(2) unfolding under_def by auto
  next
    case 3
    then show ?thesis using t by (simp add: under_def)
  qed
next
  assume "under rp m"
  then show "mount_matches rp m" using rp by (auto simp: under_def mount_matches_def Let_def)
qed

text \<open>What the loop has found after some entries: nothing that matched, or the last of the longest.\<close>

definition is_best :: "string \<Rightarrow> mntent list \<Rightarrow> mntent \<Rightarrow> mntent list \<Rightarrow> bool" where
  "is_best rp pre e post \<longleftrightarrow>
     mount_matches rp (me_dir e) \<and>
     (\<forall>x \<in> set pre. mount_matches rp (me_dir x) \<longrightarrow> length (me_dir x) \<le> length (me_dir e)) \<and>
     (\<forall>x \<in> set post. mount_matches rp (me_dir x) \<longrightarrow> length (me_dir x) < length (me_dir e))"

definition mount_found :: "mntent \<Rightarrow> nat \<times> (string \<times> string \<times> string) option" where
  "mount_found e = (length (me_dir e), Some (snprintf 128 (me_fsname e), snprintf 32 (me_type e), snprintf 256 (me_dir e)))"

definition best_mount :: "string \<Rightarrow> mntent list \<Rightarrow> nat \<times> (string \<times> string \<times> string) option \<Rightarrow> bool" where
  "best_mount rp es s \<longleftrightarrow>
     (s = (0, None) \<and> (\<forall>x \<in> set es. \<not> mount_matches rp (me_dir x))) \<or>
     (\<exists>pre e post. es = pre @ e # post \<and> is_best rp pre e post \<and> s = mount_found e)"

lemma mount_step_cases:
  "mount_step rp e s = (if length (me_dir e) \<ge> fst s \<and> mount_matches rp (me_dir e) then mount_found e else s)"
  by (simp add: mount_step_def mount_found_def)

lemma best_mount_le: "best_mount rp es s \<Longrightarrow> x \<in> set es \<Longrightarrow> mount_matches rp (me_dir x) \<Longrightarrow> length (me_dir x) \<le> fst s"
  by (auto simp: best_mount_def is_best_def mount_found_def less_imp_le)

lemma best_mount_step:
  assumes b: "best_mount rp es s"
  shows "best_mount rp (es @ [e]) (mount_step rp e s)"
proof (cases "length (me_dir e) \<ge> fst s \<and> mount_matches rp (me_dir e)")
  case True
  then have "is_best rp es e []" using best_mount_le [OF b] by (fastforce simp: is_best_def)
  then show ?thesis using True unfolding best_mount_def mount_step_cases by auto
next
  case False
  have keep: "mount_step rp e s = s" using False by (simp only: mount_step_cases if_False)
  from b consider "s = (0, None)" "\<forall>x \<in> set es. \<not> mount_matches rp (me_dir x)"
    | pre x post where "es = pre @ x # post" "is_best rp pre x post" "s = mount_found x"
    unfolding best_mount_def by blast
  then show ?thesis
  proof cases
    case 1
    then show ?thesis using False unfolding keep best_mount_def by auto
  next
    case 2
    then have "is_best rp pre x (post @ [e])" using False by (auto simp: is_best_def mount_found_def)
    moreover have "es @ [e] = pre @ x # post @ [e]" using 2(1) by simp
    ultimately show ?thesis using 2(3) unfolding keep best_mount_def by blast
  qed
qed

lemma best_mount_fold: "best_mount rp es (fold (mount_step rp) es (0, None))"
proof (induction es rule: rev_induct)
  case Nil
  then show ?case by (simp add: best_mount_def)
next
  case (snoc e es)
  then show ?case using best_mount_step [of rp es "fold (mount_step rp) es (0, None)" e] by simp
qed

subsection \<open>Properties\<close>

text \<open>
  C36. The probe reports the mount that holds the data directory: the longest mount point at or above its real path,
  component by component, and of equally long ones the one mounted last, which hides the others. It reports none only when no
  mount point is at or above the path.
\<close>

theorem data_mount_is_longest:
  assumes rp: "realpath dir = Some rp" "take 1 rp = ''/''" and es: "\<forall>e \<in> set es. me_dir e \<noteq> []"
  shows "case data_mount realpath (Some es) dir of
    None \<Rightarrow> \<forall>e \<in> set es. \<not> under rp (me_dir e)
  | Some r \<Rightarrow> (\<exists>pre e post. es = pre @ e # post \<and> under rp (me_dir e) \<and>
      r = (snprintf 128 (me_fsname e), snprintf 32 (me_type e), snprintf 256 (me_dir e)) \<and>
      (\<forall>x \<in> set pre. under rp (me_dir x) \<longrightarrow> length (me_dir x) \<le> length (me_dir e)) \<and>
      (\<forall>x \<in> set post. under rp (me_dir x) \<longrightarrow> length (me_dir x) < length (me_dir e)))"
proof -
  have u: "mount_matches rp (me_dir e) = under rp (me_dir e)" if "e \<in> set es" for e
    using mount_matches_under rp(2) es that by blast
  have d: "data_mount realpath (Some es) dir = snd (fold (mount_step rp) es (0, None))" by (simp add: data_mount_def rp(1))
  from best_mount_fold [of rp es] consider
      "fold (mount_step rp) es (0, None) = (0, None)" "\<forall>x \<in> set es. \<not> mount_matches rp (me_dir x)"
    | pre e post where "es = pre @ e # post" "is_best rp pre e post" "fold (mount_step rp) es (0, None) = mount_found e"
    unfolding best_mount_def by blast
  then show ?thesis
  proof cases
    case 1
    then show ?thesis using d u by simp
  next
    case 2
    have "under rp (me_dir e)" "\<forall>x \<in> set pre. under rp (me_dir x) \<longrightarrow> length (me_dir x) \<le> length (me_dir e)"
      "\<forall>x \<in> set post. under rp (me_dir x) \<longrightarrow> length (me_dir x) < length (me_dir e)"
      using 2(1,2) u unfolding is_best_def by auto
    then show ?thesis unfolding d 2(3) mount_found_def using 2(1) by auto
  qed
qed

definition sample_mounts :: "mntent list" where
  "sample_mounts = [\<lparr>me_fsname = ''/dev/sda2'', me_dir = ''/'', me_type = ''ext4''\<rparr>,
     \<lparr>me_fsname = ''/dev/nvme0n1p1'', me_dir = ''/data'', me_type = ''xfs''\<rparr>, \<lparr>me_fsname = ''tmpfs'', me_dir = ''/dat'', me_type = ''tmpfs''\<rparr>]"

theorem data_mount_is_longest_witness:
  "data_mount Some (Some sample_mounts) ''/data/kb'' = Some (''/dev/nvme0n1p1'', ''xfs'', ''/data'')"
proof -
  have no: "\<not> under ''/data/kb'' ''/dat''" and yes: "under ''/data/kb'' ''/data''" by (simp_all add: under_def)
  have "\<forall>e \<in> set sample_mounts. me_dir e \<noteq> []" by (simp add: sample_mounts_def)
  from data_mount_is_longest [where realpath = Some and dir = "''/data/kb''" and es = sample_mounts, OF refl _ this] obtain pre e post r where
    e: "sample_mounts = pre @ e # post" "under ''/data/kb'' (me_dir e)" "data_mount Some (Some sample_mounts) ''/data/kb'' = Some r"
      "r = (snprintf 128 (me_fsname e), snprintf 32 (me_type e), snprintf 256 (me_dir e))"
      "\<forall>x \<in> set post. under ''/data/kb'' (me_dir x) \<longrightarrow> length (me_dir x) < length (me_dir e)"
    using yes by (auto simp: sample_mounts_def split: option.splits)
  consider "pre = []" | a where "pre = [a]" | a b where "pre = [a, b]"
    using e(1) by (cases pre; cases "tl pre"; cases "tl (tl pre)") (auto simp: sample_mounts_def)
  then show ?thesis
  proof cases
    case 1
    then show ?thesis using e yes by (auto simp: sample_mounts_def)
  next
    case 2
    then show ?thesis using e by (auto simp: sample_mounts_def snprintf_def)
  next
    case 3
    then show ?thesis using e no by (auto simp: sample_mounts_def)
  qed
qed

text \<open>
  The block device of a partition: trailing digits are dropped, and of an NVMe or MMC partition the \<open>p\<close> with them. A whole
  device whose own name ends in a digit loses it, so nothing is found for it below \<open>/sys/block\<close>.
\<close>

lemma base_block_dev:
  assumes "length s < n"
  shows "base_block n (''/dev/'' @ s) =
    (if take 4 s = ''nvme'' \<or> take 6 s = ''mmcblk'' then
       (let after = rev (takeWhile (\<lambda>c. c \<noteq> CHR ''p'') (rev s))
        in if CHR ''p'' \<in> set s \<and> after \<noteq> [] \<and> isdigit (hd after) then take (length s - length after - 1) s else s)
     else rev (dropWhile isdigit (rev s)))"
proof -
  have "snprintf n s = s" using assms by (simp add: snprintf_def)
  then show ?thesis by (simp add: base_block_def)
qed

lemma base_block_plain:
  assumes "name \<noteq> []" "\<not> isdigit (last name)" "take 4 (name @ ds) \<noteq> ''nvme''" "take 6 (name @ ds) \<noteq> ''mmcblk''"
    and "\<forall>c \<in> set ds. isdigit c" "length name + length ds < n"
  shows "base_block n (''/dev/'' @ name @ ds) = name"
proof -
  have "dropWhile isdigit (rev ds @ rev name) = dropWhile isdigit (rev name)" using assms(5) by (intro dropWhile_append2) simp
  moreover have "dropWhile isdigit (rev name) = rev name" using assms(1,2) by (cases name rule: rev_cases) simp_all
  ultimately have "dropWhile isdigit (rev (name @ ds)) = rev name" by simp
  then show ?thesis using base_block_dev [of "name @ ds" n] assms(3,4,6) by simp
qed

lemma base_block_nvme:
  assumes "take 4 name = ''nvme'' \<or> take 6 name = ''mmcblk''" "ds \<noteq> []" "\<forall>c \<in> set ds. isdigit c" "length name + length ds + 1 < n"
  shows "base_block n (''/dev/'' @ name @ ''p'' @ ds) = name"
proof -
  have long: "take 4 (name @ ''p'' @ ds) = ''nvme'' \<or> take 6 (name @ ''p'' @ ds) = ''mmcblk''"
  proof (cases "take 4 name = ''nvme''")
    case True
    then have "length (take 4 name) = 4" by simp
    then have "4 \<le> length name" by simp
    then show ?thesis using True by simp
  next
    case False
    then have m: "take 6 name = ''mmcblk''" using assms(1) by blast
    then have "length (take 6 name) = 6" by simp
    then have "6 \<le> length name" by simp
    then show ?thesis using m by simp
  qed
  have "takeWhile (\<lambda>c. c \<noteq> CHR ''p'') (rev ds @ CHR ''p'' # rev name) = rev ds"
  proof -
    have "\<forall>c \<in> set (rev ds). c \<noteq> CHR ''p''" using assms(3) by (auto simp: isdigit_def)
    then have "takeWhile (\<lambda>c. c \<noteq> CHR ''p'') (rev ds @ CHR ''p'' # rev name) = rev ds @ takeWhile (\<lambda>c. c \<noteq> CHR ''p'') (CHR ''p'' # rev name)"
      by (intro takeWhile_append2) blast
    then show ?thesis by simp
  qed
  moreover have "isdigit (hd ds)" using assms(2,3) by (simp add: list.set_sel)
  ultimately show ?thesis using base_block_dev [of "name @ ''p'' @ ds" n] long assms(2,4) by (simp add: Let_def)
qed

lemma base_block_whole_device: "base_block 128 ''/dev/dm-0'' = ''dm-''" "base_block 128 ''/dev/md127'' = ''md''"
  by (simp_all add: base_block_def snprintf_def isdigit_def)

end
