(* ===== verification/KB_Cli.thy ===== *)
theory KB_Cli
  imports KB_Config KB_Registry KB_Reporter "HOL-Library.Monad_Syntax"
begin

text \<open>
  The command line and the effective run configuration, from \<open>src/src/main.c\<close>: the number arguments, the comma list of
  thread counts, \<open>apply_config\<close>, \<open>save_config\<close>, \<open>setup_report_dir\<close>, \<open>emit_probes\<close> and the part of \<open>main\<close> up to the
  start of the run.

  A step of \<open>main\<close> goes on, or ends the process with an exit status, or leaves what the model covers: a number that is
  infinite or not a number, or a conversion that C leaves undefined. Conversions from \<open>long\<close> to \<open>int\<close> wrap, as
  the compilers the project supports define them. The files are a map from paths to contents.
\<close>

subsection \<open>The code\<close>

datatype 'a outcome = Go 'a | Exit int | Undef

fun and_then :: "'a outcome \<Rightarrow> ('a \<Rightarrow> 'b outcome) \<Rightarrow> 'b outcome" where
  "and_then (Go x) f = f x"
| "and_then (Exit n) f = Exit n"
| "and_then Undef f = Undef"

definition defined :: "'a option \<Rightarrow> 'a outcome" where
  "defined x = (case x of Some y \<Rightarrow> Go y | None \<Rightarrow> Undef)"

definition to_int :: "int \<Rightarrow> int" where
  "to_int v = sint (word_of_int v :: 32 word)"

record config =
  cfg_ops :: int
  cfg_secs :: double
  cfg_users :: int
  cfg_items :: int
  cfg_seed :: u32
  cfg_threads :: int
  cfg_seed_threads :: int
  cfg_seed_once :: int
  cfg_pin :: int
  cfg_sweep_param :: "string option"
  cfg_sweep_value :: int
  cfg_timeline :: double
  cfg_backend :: "string option"
  cfg_data_dir :: "string option"
  cfg_conf :: "cfg_file option"

text \<open>The local variables of \<open>main\<close>.\<close>

record cli =
  cl_cfg :: config
  cl_threads :: "string option"
  cl_report :: "string option"
  cl_save :: "string option"
  cl_probe :: "string option"
  cl_report_dir :: "string option"
  cl_repeat :: int
  cl_auto_plot :: bool
  cl_files :: "string list"
  cl_cfiles :: "string list"

definition main_init :: cli where
  "main_init =
     \<lparr>cl_cfg = \<lparr>cfg_ops = 200000, cfg_secs = 0, cfg_users = 100000, cfg_items = 100000, cfg_seed = 1, cfg_threads = 1,
                cfg_seed_threads = 0, cfg_seed_once = 0, cfg_pin = 0, cfg_sweep_param = None, cfg_sweep_value = 0,
                cfg_timeline = 0, cfg_backend = None, cfg_data_dir = None, cfg_conf = None\<rparr>,
      cl_threads = None, cl_report = None, cl_save = None, cl_probe = None, cl_report_dir = None, cl_repeat = 1,
      cl_auto_plot = False, cl_files = [], cl_cfiles = []\<rparr>"

subsubsection \<open>Numbers\<close>

definition arg_long :: "string \<Rightarrow> int outcome" where
  "arg_long s = (let (v, e, err) = strtol s in if e = s \<or> e \<noteq> [] \<or> err then Exit 2 else Go v)"

definition arg_double :: "string \<Rightarrow> double outcome" where
  "arg_double s = (let (v, e) = strtod s in if e = s \<or> e \<noteq> [] \<or> strtod_erange v then Exit 2 else defined v)"

text \<open>The first argument is the number of free slots of \<open>out\<close>.\<close>

fun parse_int_list :: "nat \<Rightarrow> string \<Rightarrow> int list" where
  "parse_int_list 0 s = []"
| "parse_int_list (Suc room) s =
     (if s = [] then []
      else (let (v, e, err) = strtol s
            in if e = s then []
               else (if v < 1 then 1 else to_int v) #
                    parse_int_list room (case e of c # e' \<Rightarrow> if c = CHR '','' then e' else e | [] \<Rightarrow> e)))"

subsubsection \<open>The configuration file\<close>

definition apply_config :: "cfg_file option \<Rightarrow> cli \<Rightarrow> cli option" where
  "apply_config conf m =
     (case cfg_section conf ''bench'' of
        None \<Rightarrow> Some m
      | Some b \<Rightarrow>
          (let cfg = cl_cfg m;
               str = (\<lambda>key old. case kv_opt_str (Some b) key None of Some s \<Rightarrow> Some s | None \<Rightarrow> old);
               flt = (\<lambda>key old. case kv_opt_str (Some b) key None of Some s \<Rightarrow> atof s | None \<Rightarrow> Some old)
           in do {
             secs \<leftarrow> flt ''secs'' (cfg_secs cfg);
             timeline \<leftarrow> flt ''timeline'' (cfg_timeline cfg);
             ops \<leftarrow> kv_opt_int (Some b) ''ops'' (cfg_ops cfg);
             users \<leftarrow> kv_opt_int (Some b) ''users'' (cfg_users cfg);
             items \<leftarrow> kv_opt_int (Some b) ''items'' (cfg_items cfg);
             seed \<leftarrow> kv_opt_int (Some b) ''seed'' (uint (cfg_seed cfg));
             seed_threads \<leftarrow> kv_opt_int (Some b) ''seed_threads'' (cfg_seed_threads cfg);
             seed_once \<leftarrow> kv_opt_int (Some b) ''seed_once'' (cfg_seed_once cfg);
             pin \<leftarrow> kv_opt_int (Some b) ''pin'' (cfg_pin cfg);
             repeat \<leftarrow> kv_opt_int (Some b) ''repeat'' (cl_repeat m);
             Some (m\<lparr>cl_cfg := cfg\<lparr>cfg_backend := str ''backend'' (cfg_backend cfg), cfg_secs := secs, cfg_timeline := timeline,
                                   cfg_data_dir := str ''data_dir'' (cfg_data_dir cfg), cfg_ops := ops, cfg_users := users,
                                   cfg_items := items, cfg_seed := word_of_int seed, cfg_seed_threads := to_int seed_threads,
                                   cfg_seed_once := to_int seed_once, cfg_pin := to_int pin\<rparr>,
                     cl_threads := str ''threads'' (cl_threads m), cl_report := str ''report'' (cl_report m),
                     cl_repeat := to_int repeat, cl_cfiles := kv_opt_all (Some b) ''workload'' 64\<rparr>)
           }))"


text \<open>
  \<open>%g\<close>: the value rounded to six significant digits, without an exponent while its decimal exponent is between -4
  and 5, and without trailing zeros.
\<close>

definition ilog10 :: "rat \<Rightarrow> int" where
  "ilog10 x =
     (let (n, d) = quotient_of x; e = int (floorlog 10 (nat n)) - int (floorlog 10 (nat d))
      in if 10 powi e \<le> x then e else e - 1)"

definition strip_zeros :: "string \<Rightarrow> string" where
  "strip_zeros s =
     (if CHR ''.'' \<in> set s
      then (let r = dropWhile (\<lambda>c. c = CHR ''0'') (rev s) in rev (if hd r = CHR ''.'' then tl r else r)) else s)"

definition fmt_g :: "double \<Rightarrow> string" where
  "fmt_g x =
     (if x = 0 then ''0''
      else (let e0 = ilog10 \<bar>x\<bar>; n0 = rne (\<bar>x\<bar> / 10 powi (e0 - 5));
                (e, n) = (if n0 = 10 ^ 6 then (e0 + 1, 10 ^ 5) else (e0, n0))
            in if - 4 \<le> e \<and> e < 6 then strip_zeros (fmt_fixed (nat (5 - e)) x)
               else (if x < 0 then ''-'' else []) @ strip_zeros (fmt_fixed 5 (of_int n / 10 ^ 5)) @ ''e'' @
                    (if e < 0 then ''-'' else ''+'') @ (if \<bar>e\<bar> < 10 then ''0'' else []) @ show_nat (nat \<bar>e\<bar>)))"

text \<open>The lines of the replay file, then the file. A pair of strings is printed as \<open>key = value\<close>, the middle one is padding.\<close>

definition pad_entry :: "string \<times> string \<times> string \<Rightarrow> string" where
  "pad_entry e = (case e of (k, pad, v) \<Rightarrow> k @ pad @ '' = '' @ v @ nl)"

definition replay_entries ::
  "config \<Rightarrow> string \<Rightarrow> string \<Rightarrow> int \<Rightarrow> string option \<Rightarrow> string option \<Rightarrow> string list \<Rightarrow> (string \<times> string \<times> string) list" where
  "replay_entries cfg engines_str threads_list repeat report_arg report_dir files =
     [(''backend'', [], engines_str), (''threads'', [], threads_list)] @
     (if cfg_seed_threads cfg > 0 then [(''seed_threads'', [], show_int (cfg_seed_threads cfg))] else []) @
     (if cfg_seed_once cfg \<noteq> 0 then [(''seed_once'', [], ''1'')] else []) @
     (if cfg_pin cfg \<noteq> 0 then [(''pin'', [], ''1'')] else []) @
     (if cfg_secs cfg > 0 then [(''secs'', [], fmt_g (cfg_secs cfg))] else [(''ops'', '' '', show_int (cfg_ops cfg))]) @
     [(''users'', '' '', show_int (cfg_users cfg)), (''items'', '' '', show_int (cfg_items cfg)),
      (''seed'', ''  '', show_nat (unat (cfg_seed cfg))), (''repeat'', [], show_int repeat)] @
     (case cfg_data_dir cfg of Some d \<Rightarrow> if d \<noteq> [] then [(''data_dir'', [], d)] else [] | None \<Rightarrow> []) @
     (case report_dir of
        Some d \<Rightarrow> [(''report_dir'', [], d)]
      | None \<Rightarrow> (case report_arg of Some r \<Rightarrow> [(''report'', [], r)] | None \<Rightarrow> [])) @
     map (\<lambda>f. (''workload'', [], f)) files"

definition replay_section :: "kv_options \<Rightarrow> string" where
  "replay_section ob =
     (if opt_name ob = ''bench'' then []
      else nl @ ''['' @ opt_name ob @ '']'' @ nl @ concat (map (\<lambda>(k, v). pad_entry (k, [], v)) (opt_kv ob)))"

definition save_config ::
  "string \<Rightarrow> config \<Rightarrow> string \<Rightarrow> string \<Rightarrow> int \<Rightarrow> string option \<Rightarrow> string option \<Rightarrow> string list \<Rightarrow> cfg_file option \<Rightarrow> string" where
  "save_config path cfg engines_str threads_list repeat report_arg report_dir files conf =
     ''keybench '' @ KEYBENCH_VERSION @ '' replay file - reproduce with:  keybench --config '' @ path @ nl @ nl @
     ''[bench]'' @ nl @
     concat (map pad_entry (replay_entries cfg engines_str threads_list repeat report_arg report_dir files)) @
     (case conf of None \<Rightarrow> [] | Some c \<Rightarrow> concat (map replay_section (cf_s c)))"

subsubsection \<open>The command line\<close>

text \<open>The first pass over the arguments loads the configuration; a later \<open>--config\<close> replaces an earlier one.\<close>

fun prescan :: "(string \<Rightarrow> string option) \<Rightarrow> string list \<Rightarrow> cfg_file option \<times> string option \<Rightarrow> (cfg_file option \<times> string option) outcome" where
  "prescan fs (a # v # args) (conf, sav) =
     (if a = ''--config'' then
        (case cfg_load (fs v) of (rc, c) \<Rightarrow> if rc \<noteq> 0 then Exit 2 else prescan fs args (c, sav))
      else if a = ''--save-config'' then prescan fs args (conf, Some v)
      else prescan fs (v # args) (conf, sav))"
| "prescan fs _ st = Go st"

abbreviation upd_cfg :: "(config \<Rightarrow> config) \<Rightarrow> cli \<Rightarrow> cli" where
  "upd_cfg f m \<equiv> m\<lparr>cl_cfg := f (cl_cfg m)\<rparr>"

text \<open>An option that takes a value, when a value follows it.\<close>

definition value_option :: "string \<Rightarrow> string \<Rightarrow> cli \<Rightarrow> cli outcome option" where
  "value_option a v m =
     (if a = ''--ops'' then Some (and_then (arg_long v) (\<lambda>n. Go (upd_cfg (cfg_ops_update (\<lambda>_. n)) m)))
      else if a = ''--secs'' then Some (and_then (arg_double v) (\<lambda>x. Go (upd_cfg (cfg_secs_update (\<lambda>_. x)) m)))
      else if a = ''--threads'' then Some (Go (m\<lparr>cl_threads := Some v\<rparr>))
      else if a = ''--seed-threads'' then Some (and_then (arg_long v) (\<lambda>n. Go (upd_cfg (cfg_seed_threads_update (\<lambda>_. to_int n)) m)))
      else if a = ''--repeat'' then Some (and_then (arg_long v) (\<lambda>n. Go (m\<lparr>cl_repeat := to_int n\<rparr>)))
      else if a = ''--report'' then Some (Go (m\<lparr>cl_report := Some v\<rparr>))
      else if a = ''--report-dir'' then Some (Go (m\<lparr>cl_report_dir := Some v\<rparr>))
      else if a = ''--timeline'' then Some (and_then (arg_double v) (\<lambda>x. Go (upd_cfg (cfg_timeline_update (\<lambda>_. x)) m)))
      else if a = ''--probe'' then Some (Go (m\<lparr>cl_probe := Some v\<rparr>))
      else if a = ''--data-dir'' then Some (Go (upd_cfg (cfg_data_dir_update (\<lambda>_. Some v)) m))
      else if a = ''--users'' then Some (and_then (arg_long v) (\<lambda>n. Go (upd_cfg (cfg_users_update (\<lambda>_. n)) m)))
      else if a = ''--items'' then Some (and_then (arg_long v) (\<lambda>n. Go (upd_cfg (cfg_items_update (\<lambda>_. n)) m)))
      else if a = ''--seed'' then Some (and_then (arg_long v) (\<lambda>n. Go (upd_cfg (cfg_seed_update (\<lambda>_. word_of_int n)) m)))
      else if a = ''--backend'' then Some (Go (upd_cfg (cfg_backend_update (\<lambda>_. Some v)) m))
      else if a = ''--config'' \<or> a = ''--save-config'' then Some (Go m)
      else None)"

text \<open>Every other argument: the options without a value, help, an unknown option, a workload file.\<close>

definition plain_arg :: "string \<Rightarrow> cli \<Rightarrow> cli outcome" where
  "plain_arg a m =
     (if a = ''--pin'' then Go (upd_cfg (cfg_pin_update (\<lambda>_. 1)) m)
      else if a = ''--seed-once'' then Go (upd_cfg (cfg_seed_once_update (\<lambda>_. 1)) m)
      else if a = ''--auto-plot'' then Go (m\<lparr>cl_auto_plot := True\<rparr>)
      else if a = ''-h'' \<or> a = ''--help'' then Exit 0
      else if a \<noteq> [] \<and> hd a = CHR ''-'' then Exit 2
      else if length (cl_files m) < 64 then Go (m\<lparr>cl_files := cl_files m @ [a]\<rparr>)
      else Go m)"

fun parse_args :: "string list \<Rightarrow> cli \<Rightarrow> cli outcome" where
  "parse_args [] m = Go m"
| "parse_args [a] m = plain_arg a m"
| "parse_args (a # v # args) m =
     (case value_option a v m of
        Some r \<Rightarrow> and_then r (parse_args args)
      | None \<Rightarrow> and_then (plain_arg a m) (parse_args (v # args)))"

subsubsection \<open>The rest of \<open>main\<close> before the run\<close>

fun find_engines :: "('c, 'o, 'a) backends \<Rightarrow> string list \<Rightarrow> string list outcome" where
  "find_engines reg [] = Go []"
| "find_engines reg (t # ts) =
     (case backend_find reg (Some t) of
        None \<Rightarrow> Exit 2
      | Some e \<Rightarrow> and_then (find_engines reg ts) (\<lambda>ns. Go (ent_name e # ns)))"

text \<open>Without any engine registered the default lookup is a null pointer that \<open>main\<close> dereferences.\<close>

definition resolve_engines :: "('c, 'o, 'a) backends \<Rightarrow> string option \<Rightarrow> string list outcome" where
  "resolve_engines reg backend =
     and_then (case backend of None \<Rightarrow> Go [] | Some b \<Rightarrow> find_engines reg (take 16 (strtok_all (CHR '','') (snprintf 256 b))))
       (\<lambda>ns. if ns = [] then (case backend_find reg None of None \<Rightarrow> Undef | Some e \<Rightarrow> Go [ent_name e]) else Go ns)"

definition needs_dir :: "('c, 'o, 'a) backends \<Rightarrow> string list \<Rightarrow> bool" where
  "needs_dir reg engines \<longleftrightarrow>
     (\<exists>n \<in> set engines. case backend_find reg (Some n) of Some e \<Rightarrow> ent_persistent e | None \<Rightarrow> False)"

definition no_dir :: "string option \<Rightarrow> bool" where
  "no_dir d \<longleftrightarrow> (case d of None \<Rightarrow> True | Some s \<Rightarrow> s = [])"

definition thread_counts :: "string option \<Rightarrow> int list" where
  "thread_counts threads_arg =
     (case threads_arg of
        None \<Rightarrow> [1]
      | Some s \<Rightarrow> (let ts = parse_int_list 64 s in if length ts < 1 then [1] else ts))"

text \<open>
  The timestamp and whether the directory exists or can be made are parameters. The results are the reporter list,
  the path of the replay file and the directory.
\<close>

definition setup_report_dir :: "(string \<Rightarrow> bool) \<Rightarrow> string \<Rightarrow> string \<Rightarrow> (string \<times> string \<times> string) option" where
  "setup_report_dir can_mkdir ts base =
     (let dir = snprintf 600 (base @ ''/'' @ ts)
      in if \<not> can_mkdir dir then None
         else Some (snprintf 2400 (''console,console:'' @ dir @ ''/report.txt,tsv:'' @ dir @ ''/points.tsv,timeline:'' @ dir @ ''/timeline.tsv''),
                    snprintf 700 (dir @ ''/replay.cnf''), snprintf 600 dir))"

definition choose_probes :: "probes \<Rightarrow> string option \<Rightarrow> probes" where
  "choose_probes g probe_arg =
     (case probe_arg of
        None \<Rightarrow> probe_select_all g
      | Some s \<Rightarrow> if s = ''none'' then probe_select_none g
                  else snd (select_probes g (strtok_all (CHR '','') (snprintf 256 s))))"

record plan =
  pl_cfg :: config
  pl_wl :: "string list"
  pl_engines :: "string list"
  pl_tlist :: "int list"
  pl_repeat :: int
  pl_report :: "string option"
  pl_replay :: "(string \<times> string) option"
  pl_probes :: probes
  pl_run :: report_run
  pl_auto_plot :: bool
  pl_rd_dir :: string

definition effective_config :: "(string \<Rightarrow> string option) \<Rightarrow> string list \<Rightarrow> (cfg_file option \<times> cli) outcome" where
  "effective_config fs args =
     and_then (prescan fs args (None, None)) (\<lambda>(conf, sav).
     and_then (case conf of
                 None \<Rightarrow> Go main_init
               | Some _ \<Rightarrow> and_then (defined (apply_config conf main_init)) (\<lambda>m. Go (upd_cfg (cfg_conf_update (\<lambda>_. conf)) m))) (\<lambda>m.
     and_then (parse_args args (m\<lparr>cl_save := sav\<rparr>)) (\<lambda>m.
     Go (conf, if cfg_secs (cl_cfg m) > 0 then upd_cfg (cfg_ops_update (\<lambda>_. 0)) m else m))))"

definition workloads :: "cli \<Rightarrow> string list" where
  "workloads m = (if cl_files m = [] \<and> cl_cfiles m \<noteq> [] then cl_cfiles m else cl_files m)"

definition or_else :: "'a option \<Rightarrow> 'a option \<Rightarrow> 'a option" where
  "or_else a b = (case a of None \<Rightarrow> b | Some _ \<Rightarrow> a)"

definition make_plan ::
  "('c, 'o, 'a) backends \<Rightarrow> (string \<Rightarrow> string option) \<Rightarrow> (string \<Rightarrow> bool) \<Rightarrow> string \<Rightarrow> probes \<Rightarrow> string list \<Rightarrow> plan outcome" where
  "make_plan reg fs can_mkdir ts g args =
     and_then (effective_config fs args) (\<lambda>(conf, m).
     (let cfg = cl_cfg m; wl = workloads m; bench = cfg_section conf ''bench''
      in if wl = [] then Exit 2 else
     and_then (resolve_engines reg (cfg_backend cfg)) (\<lambda>engines.
     if needs_dir reg engines \<and> no_dir (cfg_data_dir cfg) then Exit 2 else
     (let tlist = thread_counts (cl_threads m); repeat = (if cl_repeat m < 1 then 1 else cl_repeat m);
          report_dir = or_else (cl_report_dir m) (if conf = None then None else kv_opt_str bench ''report_dir'' None);
          probe_arg = or_else (cl_probe m) (if conf = None then None else kv_opt_str bench ''probe'' None);
          engine = (case cfg_backend cfg of Some b \<Rightarrow> b | None \<Rightarrow> engines ! 0);
          threads = (case cl_threads m of Some t \<Rightarrow> t | None \<Rightarrow> ''1'')
      in
     and_then (if conf = None \<or> cl_auto_plot m then Go (cl_auto_plot m)
               else and_then (defined (kv_opt_int bench ''auto_plot'' 0)) (\<lambda>v. Go (to_int v \<noteq> 0))) (\<lambda>auto_plot.
     and_then (case report_dir of
                 None \<Rightarrow> Go (cl_report m, cl_save m, [])
               | Some base \<Rightarrow> (case setup_report_dir can_mkdir ts base of
                                 None \<Rightarrow> Exit 2
                               | Some (spec, replay, dir) \<Rightarrow> Go (Some spec, Some replay, dir))) (\<lambda>(report_arg, save_arg, rd_dir).
     Go \<lparr>pl_cfg = cfg, pl_wl = wl, pl_engines = engines, pl_tlist = tlist, pl_repeat = repeat, pl_report = report_arg,
         pl_replay = map_option (\<lambda>path. (path, save_config path cfg engine threads repeat report_arg report_dir wl conf)) save_arg,
         pl_probes = choose_probes g probe_arg,
         pl_run = \<lparr>rr_engine = engine, rr_seed = cfg_seed cfg, rr_repeat = repeat, rr_threads_list = threads, rr_nworkloads = length wl\<rparr>,
         pl_auto_plot = auto_plot, pl_rd_dir = rd_dir\<rparr>))))))"

text \<open>\<open>pinfo_cb\<close> keeps the first 32 pairs. The first component is what goes to standard error.\<close>

definition pinfo_cb :: "string \<times> string \<Rightarrow> (string \<times> string) list \<Rightarrow> (string \<times> string) list" where
  "pinfo_cb kv acc = (if length acc < 32 then acc @ [kv] else acc)"

fun emit_loop :: "bool \<Rightarrow> probe list \<Rightarrow> reporter list \<Rightarrow> string \<times> reporter list" where
  "emit_loop rendered [] reps = ([], reps)"
| "emit_loop rendered (p # ps) reps =
     (case p_info p of
        None \<Rightarrow> emit_loop rendered ps reps
      | Some calls \<Rightarrow>
          (let kv = fold pinfo_cb calls []
           in if rendered then emit_loop rendered ps (reporters_probe reps \<lparr>rb_probe = p_name p, rb_kv = kv\<rparr>)
              else (case emit_loop rendered ps reps of (err, reps') \<Rightarrow>
                      (''[probe: '' @ p_name p @ '']'' @ nl @ concat (map (\<lambda>(k, v). ''  '' @ pad_right 14 k @ '' '' @ v @ nl) kv) @ err, reps'))))"

definition emit_probes :: "probes \<Rightarrow> reporter list \<Rightarrow> string \<times> reporter list" where
  "emit_probes g reps = emit_loop (reporters_want_probe reps) (g_sel g) reps"

subsection \<open>Thread lists\<close>

fun comma_list :: "int list \<Rightarrow> string" where
  "comma_list [] = []"
| "comma_list [n] = show_int n"
| "comma_list (n # ns) = show_int n @ '','' @ comma_list ns"

lemma to_int_id: "- (2 ^ 31) \<le> v \<Longrightarrow> v < 2 ^ 31 \<Longrightarrow> to_int v = v"
  by (simp add: to_int_def int_word_sint)

lemma strtol_show_int:
  assumes "0 \<le> n" "n \<le> LONG_MAX" "r = [] \<or> \<not> isdigit (hd r)"
  shows "strtol (show_int n @ r) = (n, r, False)"
  using strtol_show_nat [of "nat n" r] assms by (simp add: show_int_def)

lemma show_int_append_neq: "show_int n @ r \<noteq> r"
  by (simp add: show_int_def)

lemma parse_comma_list:
  "\<forall>n \<in> set ns. 1 \<le> n \<and> n < 2 ^ 31 \<Longrightarrow> parse_int_list room (comma_list ns) = take room ns"
proof (induction ns arbitrary: room rule: comma_list.induct)
  case 1
  show ?case by (cases room) simp_all
next
  case (2 n)
  then have n: "strtol (show_int n) = (n, [], False)" "to_int n = n" "show_int n \<noteq> []"
    using strtol_show_int [of n "[]"] to_int_id [of n] by (simp_all add: show_int_def)
  then show ?case using 2 by (cases room; cases "room - 1") simp_all
next
  case (3 n n' ns)
  then have n: "strtol (show_int n @ '','' @ comma_list (n' # ns)) = (n, '','' @ comma_list (n' # ns), False)" "to_int n = n"
    using strtol_show_int [of n "'','' @ comma_list (n' # ns)"] to_int_id [of n] by (simp_all add: isdigit_def)
  show ?case
  proof (cases room)
    case (Suc m)
    then show ?thesis using 3 n show_int_append_neq [of n "'','' @ comma_list (n' # ns)"] by (simp add: show_int_def)
  qed simp
qed

subsection \<open>Plans\<close>

lemma and_then_eq_Go [simp]: "and_then r f = Go y \<longleftrightarrow> (\<exists>x. r = Go x \<and> f x = Go y)"
  by (cases r) simp_all

lemma length_parse_int_list: "length (parse_int_list room s) \<le> room"
  by (induction room arbitrary: s) (simp_all add: case_prod_beta Let_def)

lemma plain_arg_files: "plain_arg a m = Go m' \<Longrightarrow> length (cl_files m) \<le> 64 \<Longrightarrow> length (cl_files m') \<le> 64 \<and> cl_cfiles m' = cl_cfiles m"
  by (auto simp: plain_arg_def split: if_splits)

lemma value_option_files: "value_option a v m = Some (Go m') \<Longrightarrow> cl_files m' = cl_files m \<and> cl_cfiles m' = cl_cfiles m"
  by (auto simp: value_option_def split: if_splits)

lemma parse_args_files:
  "parse_args args m = Go m' \<Longrightarrow> length (cl_files m) \<le> 64 \<Longrightarrow> length (cl_files m') \<le> 64 \<and> cl_cfiles m' = cl_cfiles m"
proof (induction args m arbitrary: m' rule: parse_args.induct)
  case (2 a m)
  then show ?case using plain_arg_files by simp
next
  case (3 a v args m)
  show ?case
  proof (cases "value_option a v m")
    case None
    then show ?thesis using 3 plain_arg_files [of a m] by fastforce
  next
    case (Some r)
    then obtain m1 where "r = Go m1" "parse_args args m1 = Go m'" using 3(3) by auto
    then show ?thesis using 3(2) [OF Some] 3(4) value_option_files [of a v m m1] Some by simp
  qed
qed simp

lemma kv_opt_all_length: "length (kv_opt_all (Some ob) key mx) \<le> mx"
  by (simp add: kv_opt_all_def fold_collect)

lemma apply_config_files:
  assumes "apply_config conf m = Some m'" "length (cl_cfiles m) \<le> 64"
  shows "cl_files m' = cl_files m \<and> length (cl_cfiles m') \<le> 64"
proof (cases "cfg_section conf ''bench''")
  case None
  then show ?thesis using assms by (simp add: apply_config_def)
next
  case (Some b)
  then show ?thesis using assms kv_opt_all_length [of b "''workload''" 64]
    by (auto simp: apply_config_def Let_def Option.bind_eq_Some_conv)
qed

lemma effective_config_ok:
  assumes "effective_config fs args = Go (conf, m)"
  shows "length (cl_files m) \<le> 64 \<and> length (cl_cfiles m) \<le> 64 \<and> (cfg_secs (cl_cfg m) > 0 \<longrightarrow> cfg_ops (cl_cfg m) = 0)"
proof -
  obtain sav m0 m1 where m0: "(case conf of None \<Rightarrow> Go main_init
        | Some _ \<Rightarrow> and_then (defined (apply_config conf main_init)) (\<lambda>m. Go (upd_cfg (cfg_conf_update (\<lambda>_. conf)) m))) = Go m0"
    and m1: "parse_args args (m0\<lparr>cl_save := sav\<rparr>) = Go m1"
    and m: "m = (if cfg_secs (cl_cfg m1) > 0 then upd_cfg (cfg_ops_update (\<lambda>_. 0)) m1 else m1)"
    using assms by (auto simp: effective_config_def split: prod.splits)
  have init: "cl_files main_init = []" "cl_cfiles main_init = []" by (simp_all add: main_init_def)
  have "cl_files m0 = [] \<and> length (cl_cfiles m0) \<le> 64"
  proof (cases conf)
    case (Some c)
    then show ?thesis using m0 apply_config_files [of conf main_init] init
      by (auto simp: defined_def split: option.splits)
  qed (use m0 init in auto)
  then show ?thesis using parse_args_files [OF m1] m by auto
qed

lemma find_engines_Go:
  "find_engines reg ts = Go ns \<Longrightarrow> length ns = length ts \<and> (\<forall>n \<in> set ns. \<exists>e. backend_find reg (Some n) = Some e \<and> ent_name e = n)"
proof (induction ts arbitrary: ns)
  case (Cons t ts)
  then obtain e ns' where e: "backend_find reg (Some t) = Some e" "find_engines reg ts = Go ns'" "ns = ent_name e # ns'"
    by (auto split: option.splits)
  have "ent_name e = t" using e(1) by (auto simp: backend_find_def Let_def find_Some_iff split: option.splits)
  then show ?case using Cons.IH [OF e(2)] e by auto
qed simp

lemma default_engine: "backend_find reg None = Some e \<Longrightarrow> \<exists>e'. backend_find reg (Some (ent_name e)) = Some e' \<and> ent_name e' = ent_name e"
proof -
  assume "backend_find reg None = Some e"
  then have "e \<in> set reg" by (auto simp: backend_find_def Let_def find_Some_iff split: option.splits if_splits)
  then have "find (\<lambda>x. ent_name x = ent_name e) reg \<noteq> None" by (auto simp: find_None_iff)
  then obtain x where x: "find (\<lambda>x. ent_name x = ent_name e) reg = Some x" by blast
  then have "ent_name x = ent_name e" by (auto simp: find_Some_iff)
  with x show ?thesis by (simp add: backend_find_def)
qed

lemma resolve_engines_Go:
  assumes "resolve_engines reg b = Go ns"
  shows "ns \<noteq> [] \<and> length ns \<le> 16 \<and> (\<forall>n \<in> set ns. \<exists>e. backend_find reg (Some n) = Some e \<and> ent_name e = n)"
proof -
  obtain ns' where ns': "(case b of None \<Rightarrow> Go [] | Some b \<Rightarrow> find_engines reg (take 16 (strtok_all (CHR '','') (snprintf 256 b)))) = Go ns'"
    "(if ns' = [] then (case backend_find reg None of None \<Rightarrow> Undef | Some e \<Rightarrow> Go [ent_name e]) else Go ns') = Go ns"
    using assms by (auto simp: resolve_engines_def)
  show ?thesis
  proof (cases "ns' = []")
    case True
    then show ?thesis using ns'(2) default_engine by (auto split: option.splits)
  next
    case False
    then obtain b' where "b = Some b'" "find_engines reg (take 16 (strtok_all (CHR '','') (snprintf 256 b'))) = Go ns'"
      using ns'(1) by (cases b) auto
    then show ?thesis using find_engines_Go False ns'(2) by fastforce
  qed
qed

lemma thread_counts_length: "1 \<le> length (thread_counts t) \<and> length (thread_counts t) \<le> 64"
proof (cases t)
  case (Some s)
  then show ?thesis using length_parse_int_list [of 64 s] by (simp add: thread_counts_def Let_def Suc_le_eq)
qed (simp add: thread_counts_def)


lemma make_plan_Go:
  assumes "make_plan reg fs can_mkdir ts g args = Go p"
  obtains conf m where "effective_config fs args = Go (conf, m)" "pl_cfg p = cl_cfg m" "pl_wl p = workloads m" "pl_wl p \<noteq> []"
    "resolve_engines reg (cfg_backend (pl_cfg p)) = Go (pl_engines p)"
    "\<not> (needs_dir reg (pl_engines p) \<and> no_dir (cfg_data_dir (pl_cfg p)))"
    "pl_tlist p = thread_counts (cl_threads m)" "pl_repeat p = (if cl_repeat m < 1 then 1 else cl_repeat m)"
proof -
  obtain conf m where e: "effective_config fs args = Go (conf, m)"
    using assms unfolding make_plan_def by auto
  show ?thesis
    by (rule that [OF e]) (use assms e in \<open>auto simp: make_plan_def Let_def split: if_splits prod.splits\<close>)
qed

subsection \<open>Reading a replay file back\<close>

lemma fgets_all_lines:
  "\<forall>l \<in> set ls. newline \<notin> set l \<and> length l < 1023 \<Longrightarrow> fgets_all (concat (map (\<lambda>l. l @ nl) ls)) = map (\<lambda>l. l @ nl) ls"
proof (induction ls)
  case (Cons l ls)
  then show ?case using fgets_all_line [of l "concat (map (\<lambda>l. l @ nl) ls)"] by simp
qed (simp add: fgets_all.simps)

lemma cfg_line_blank [simp]: "cfg_line st nl = st"
  by (cases st) (simp add: cfg_line_def c_str_def trim_def)

text \<open>A line without an equals sign that starts with a letter changes nothing.\<close>

lemma set_strip_comment: "set (strip_comment b s) \<subseteq> set s"
  by (induction b s rule: strip_comment.induct) auto

lemma set_trim: "set (trim s) \<subseteq> set s"
  by (auto simp: trim_eq dest!: set_dropWhileD)

lemma hd_trim: "s \<noteq> [] \<Longrightarrow> \<not> isspace (hd s) \<Longrightarrow> trim s \<noteq> [] \<and> hd (trim s) = hd s"
proof -
  assume s: "s \<noteq> []" "\<not> isspace (hd s)"
  then obtain c cs where c: "s = c # cs" "\<not> isspace c" by (cases s) auto
  have "dropWhile isspace (rev cs @ [c]) \<noteq> [] \<and> last (dropWhile isspace (rev cs @ [c])) = c"
    using c(2) by (simp add: dropWhile_append)
  then show ?thesis using c by (simp add: trim_eq hd_rev)
qed

lemma cfg_line_other:
  assumes "l = c # cs" "CHR ''='' \<notin> set l" "\<not> isspace c" "c \<notin> {CHR ''['', CHR ''#'', CHR '';'', CHR 0x00}"
  shows "cfg_line st l = st"
proof -
  let ?s = "trim (strip_comment True (c_str l))"
  have "strip_comment True (c_str l) \<noteq> [] \<and> hd (strip_comment True (c_str l)) = c"
    using assms(1,4) by (simp add: c_str_def)
  then have h: "?s \<noteq> []" "hd ?s = c" using hd_trim assms(3) by metis+
  have "set ?s \<subseteq> set l"
    using set_trim set_strip_comment set_takeWhileD unfolding c_str_def by (metis (no_types, lifting) subsetD subsetI)
  then have "CHR ''='' \<notin> set ?s" using assms(2) by blast
  then show ?thesis using h assms(4) by (cases st) (simp add: cfg_line_def Let_def)
qed

text \<open>The lines of a replay file.\<close>

definition entry_body :: "string \<times> string \<times> string \<Rightarrow> string" where
  "entry_body e = (case e of (k, pad, v) \<Rightarrow> k @ pad @ '' = '' @ v)"

definition replay_lines ::
  "string \<Rightarrow> (string \<times> string \<times> string) list \<Rightarrow> cfg_file option \<Rightarrow> string list" where
  "replay_lines path entries conf =
     [''keybench '' @ KEYBENCH_VERSION @ '' replay file - reproduce with:  keybench --config '' @ path, [], ''[bench]''] @
     map entry_body entries @
     concat (map (\<lambda>s. [[], ''['' @ fst s @ '']''] @ map (\<lambda>(k, v). entry_body (k, [], v)) (snd s))
       (case conf of None \<Rightarrow> [] | Some c \<Rightarrow> filter (\<lambda>s. fst s \<noteq> ''bench'') (cfg_view c)))"

lemma pad_entry_body: "pad_entry = (\<lambda>e. entry_body e @ nl)"
  by (simp add: fun_eq_iff pad_entry_def entry_body_def case_prod_beta)

lemma replay_section_lines:
  "replay_section ob = (if opt_name ob = ''bench'' then [] else
     concat (map (\<lambda>l. l @ nl) ([[], ''['' @ opt_name ob @ '']''] @ map (\<lambda>(k, v). entry_body (k, [], v)) (opt_kv ob))))"
  by (simp add: replay_section_def pad_entry_body comp_def case_prod_unfold)

lemma save_config_lines:
  "save_config path cfg e t rp ra rd files conf =
     concat (map (\<lambda>l. l @ nl) (replay_lines path (replay_entries cfg e t rp ra rd files) conf))"
proof -
  have "concat (map replay_section os) = concat (map (\<lambda>l. l @ nl)
      (concat (map (\<lambda>s. [[], ''['' @ fst s @ '']''] @ map (\<lambda>(k, v). entry_body (k, [], v)) (snd s))
         (filter (\<lambda>s. fst s \<noteq> ''bench'') (map (\<lambda>s. (opt_name s, opt_kv s)) os)))))" for os
    by (induction os) (simp_all add: replay_section_lines)
  then show ?thesis
    by (cases conf) (simp_all add: save_config_def replay_lines_def pad_entry_body comp_def cfg_view_def)
qed

definition key_value :: "string \<times> string \<times> string \<Rightarrow> string \<times> string" where
  "key_value e = (fst e, snd (snd e))"

definition pad_ok :: "string \<times> string \<times> string \<Rightarrow> bool" where
  "pad_ok e \<longleftrightarrow> key_ok (fst e) \<and> clean (snd (snd e)) \<and> fst (snd e) \<in> {[], '' '', ''  ''} \<and> length (entry_body e) < 1023"

definition section_ok :: "string \<times> (string \<times> string) list \<Rightarrow> bool" where
  "section_ok s \<longleftrightarrow> name_ok (fst s) \<and> (\<forall>kv \<in> set (snd s). entry_ok kv)"

definition other_sections :: "cfg_file option \<Rightarrow> (string \<times> (string \<times> string) list) list" where
  "other_sections conf = (case conf of None \<Rightarrow> [] | Some c \<Rightarrow> filter (\<lambda>s. fst s \<noteq> ''bench'') (cfg_view c))"

lemma pad_ok_line:
  assumes "pad_ok e"
  shows "cfg_line st (entry_body e @ nl) = cfg_line st (entry_line (key_value e))" "entry_ok (key_value e)"
    "newline \<notin> set (entry_body e)" "length (entry_body e) < 1023"
proof -
  obtain k u v where e: "e = (k, u, v)" by (cases e)
  obtain c cur where st: "st = (c, cur)" by fastforce
  have a: "key_ok k" "clean v" "length (k @ u @ '' = '' @ v) < 1023" "u \<in> {[], '' '', ''  ''}"
    using assms by (simp_all add: pad_ok_def e entry_body_def)
  then obtain j where j: "u = replicate j (CHR '' '')"
    by (metis insert_iff empty_iff replicate_0 replicate_Suc)
  show "cfg_line st (entry_body e @ nl) = cfg_line st (entry_line (key_value e))"
    using cfg_line_padded [OF a(1,2) j, of c cur] cfg_line_padded [OF a(1,2), of "[]" 0 c cur]
    by (simp add: e st entry_body_def entry_line_def key_value_def)
  show "entry_ok (key_value e)" using a by (simp add: entry_ok_def entry_line_def key_value_def e)
  show "newline \<notin> set (entry_body e)" "length (entry_body e) < 1023"
    using a cleanD(3) by (auto simp: e entry_body_def key_ok_def)
qed

lemma fold_pad_entries:
  "\<forall>e \<in> set es. pad_ok e \<Longrightarrow>
   fold (\<lambda>line st. cfg_line st line) (map (\<lambda>e. entry_body e @ nl) es) st = fold (\<lambda>line st. cfg_line st line) (map entry_line (map key_value es)) st"
  by (induction es arbitrary: st) (simp_all add: pad_ok_line(1))

lemma section_body: "entry_body (k, [], v) @ nl = entry_line (k, v)" "''['' @ n @ '']'' @ nl = header_line n"
  by (simp_all add: entry_body_def entry_line_def header_line_def)

lemma fold_blank_sections:
  "fold (\<lambda>line st. cfg_line st line)
     (map (\<lambda>l. l @ nl) (concat (map (\<lambda>s. [[], ''['' @ fst s @ '']''] @ map (\<lambda>(k, v). entry_body (k, [], v)) (snd s)) secs))) st =
   fold (\<lambda>line st. cfg_line st line) (concat (map section_lines secs)) st"
proof (induction secs arbitrary: st)
  case (Cons s secs)
  have "(\<lambda>l. l @ nl) \<circ> (\<lambda>(k, v). entry_body (k, [], v)) = entry_line"
    by (auto simp: fun_eq_iff entry_body_def entry_line_def)
  moreover have "CHR ''['' # fst s @ CHR '']'' # nl = header_line (fst s)" by (simp add: header_line_def)
  ultimately show ?case using Cons by (simp add: section_lines_def)
qed simp

lemma section_line_ok:
  assumes "section_ok s" "l \<in> set ([[], ''['' @ fst s @ '']''] @ map (\<lambda>(k, v). entry_body (k, [], v)) (snd s))"
  shows "newline \<notin> set l \<and> length l < 1023"
proof -
  have "newline \<notin> set (fst s) \<and> length (fst s) < 64" using assms(1) cleanD(3) by (auto simp: section_ok_def name_ok_def)
  moreover have "newline \<notin> set (entry_body (k, [], v)) \<and> length (entry_body (k, [], v)) < 1023" if "(k, v) \<in> set (snd s)" for k v
  proof -
    have e: "entry_ok (k, v)" using assms(1) that by (auto simp: section_ok_def)
    then have "clean k" "clean v" by (simp_all add: entry_ok_def key_ok_def)
    then show ?thesis using e cleanD(3) by (auto simp: entry_ok_def entry_line_def entry_body_def)
  qed
  ultimately show ?thesis using assms(2) by auto
qed

lemma load_replay:
  assumes es: "\<forall>e \<in> set es. pad_ok e"
    and secs: "\<forall>s \<in> set (other_sections conf). section_ok s" "distinct (map fst (other_sections conf))"
    and path: "CHR ''='' \<notin> set path" "newline \<notin> set path" "length path < 900"
  shows "\<exists>c. cfg_load (Some (concat (map (\<lambda>l. l @ nl) (replay_lines path es conf)))) = (0, Some c) \<and>
    cfg_view c = (''bench'', map key_value es) # other_sections conf"
proof -
  let ?f = "\<lambda>line st. cfg_line st line" and ?secs = "other_sections conf"
  let ?head = "''keybench '' @ KEYBENCH_VERSION @ '' replay file - reproduce with:  keybench --config '' @ path"
  let ?blanks = "concat (map (\<lambda>s. [[], ''['' @ fst s @ '']''] @ map (\<lambda>(k, v). entry_body (k, [], v)) (snd s)) ?secs)"
  have ls: "replay_lines path es conf = [?head, [], ''[bench]''] @ map entry_body es @ ?blanks"
    by (simp add: replay_lines_def other_sections_def)
  have "newline \<notin> set l \<and> length l < 1023" if "l \<in> set ?blanks" for l
    using that section_line_ok [OF bspec [OF secs(1)], of _ l] unfolding set_concat set_map by blast
  moreover have "newline \<notin> set l \<and> length l < 1023" if "l \<in> set (map entry_body es)" for l
    using that es pad_ok_line(3,4) by (auto simp del: split_paired_All)
  moreover have "newline \<notin> set l \<and> length l < 1023" if "l \<in> set [?head, [], ''[bench]'']" for l
    using that path(2,3) by (auto simp: KEYBENCH_VERSION_def)
  ultimately have "\<forall>l \<in> set (replay_lines path es conf). newline \<notin> set l \<and> length l < 1023"
    unfolding ls set_append by blast
  then have lines: "fgets_all (concat (map (\<lambda>l. l @ nl) (replay_lines path es conf))) = map (\<lambda>l. l @ nl) (replay_lines path es conf)"
    by (rule fgets_all_lines)
  obtain c0 where c0: "file_section \<lparr>cf_s = [], cf_cap = 0\<rparr> ''bench'' = (c0, 0)" "cfg_view c0 = [(''bench'', [])]"
      "file_section c0 ''bench'' = (c0, 0)"
    by (auto simp: file_section_def cfg_view_def section_new_def snprintf_def)
  have head: "cfg_line st (?head @ nl) = st" for st
    by (rule cfg_line_other) (use path(1) in \<open>auto simp: KEYBENCH_VERSION_def isspace_def\<close>)
  have "name_ok ''bench''" by (simp add: name_ok_def clean_def isspace_def)
  then have bench: "cfg_line (c0, 0) (''[bench]'' @ nl) = (c0, 0)" using cfg_line_header [of "''bench''" c0 0] c0(3) by (simp add: header_line_def)
  obtain c1 where c1: "fold ?f (map entry_line (map key_value es)) (c0, 0) = (c1, 0)" "cfg_view c1 = [(''bench'', map key_value es)]"
    using fold_entries [of "map key_value es" c0 "[]" "''bench''" "[]" "[]" 0] es pad_ok_line(2) c0(2) by auto
  have "fst ` set ?secs \<inter> fst ` set (cfg_view c1) = {}" by (auto simp: c1(2) other_sections_def split: option.splits)
  then obtain c2 i where c2: "fold ?f (concat (map section_lines ?secs)) (c1, 0) = (c2, i)" "cfg_view c2 = cfg_view c1 @ ?secs"
    using fold_sections [of ?secs c1 0] secs by (auto simp: section_ok_def)
  have "fold ?f (map (\<lambda>l. l @ nl) (replay_lines path es conf)) (c0, 0) = (c2, i)"
    unfolding ls using head bench fold_pad_entries [OF es, of "(c0, 0)"] c1(1) c2(1) fold_blank_sections [of ?secs "(c1, 0)"]
    by (simp add: comp_def)
  then show ?thesis using c0(1) c1(2) c2(2) by (simp add: cfg_load_def lines)
qed

text \<open>Whole numbers of seconds below a million are printed by \<open>%g\<close> without a point.\<close>

lemma quotient_of_nat [simp]: "quotient_of (of_nat n) = (int n, 1)"
  using quotient_of_int [of "int n"] by (simp add: of_int_def)

lemma ilog10_of_nat:
  assumes "0 < n"
  shows "ilog10 (of_nat n) = int (floorlog 10 n - 1)" "10 ^ (floorlog 10 n - 1) \<le> n" "n < 10 ^ floorlog 10 n" "0 < floorlog 10 n"
proof -
  have b: "10 ^ (floorlog 10 n - 1) \<le> n" "n < 10 ^ floorlog 10 n" "0 < floorlog 10 n"
    using floorlog_bounds [of n 10] assms by (auto simp: floorlog_def)
  have "floorlog 10 1 = 1" by (simp add: floorlog_def)
  moreover have "of_nat (10 ^ (floorlog 10 n - 1)) \<le> (of_nat n :: rat)" using b(1) by (simp only: of_nat_le_iff)
  moreover have "int (floorlog 10 n) - 1 = int (floorlog 10 n - 1)" using b(3) by simp
  ultimately show "ilog10 (of_nat n) = int (floorlog 10 n - 1)"
    by (simp add: ilog10_def Let_def of_nat_power del: of_nat_diff)
  show "10 ^ (floorlog 10 n - 1) \<le> n" "n < 10 ^ floorlog 10 n" "0 < floorlog 10 n" by (rule b)+
qed

lemma show_nat_no_point: "CHR ''.'' \<notin> set (show_nat n)"
  using isdigit_show_nat [of "CHR ''.''" n] by (auto simp: isdigit_def)

lemma strip_fixed_nat: "strip_zeros (fmt_fixed d (of_nat n)) = show_nat n"
proof -
  have r: "rne (of_nat n * 10 ^ d) = int (n * 10 ^ d)"
    using rne_of_int [of "int (n * 10 ^ d)"] by simp
  have z: "show_nat 0 = ''0''" by (subst show_nat.simps) code_simp
  show ?thesis
  proof (cases d)
    case 0
    then show ?thesis using r show_nat_no_point by (simp add: fmt_fixed_def strip_zeros_def Let_def)
  next
    case (Suc k)
    then have f: "fmt_fixed d (of_nat n) = show_nat n @ ''.'' @ replicate d (CHR ''0'')"
      using r by (simp add: fmt_fixed_def Let_def z replicate_append_same del: of_nat_mult of_nat_power)
    have "dropWhile (\<lambda>c. c = CHR ''0'') (replicate d (CHR ''0'') @ CHR ''.'' # s) = CHR ''.'' # s" for s
      by (induction d) auto
    then show ?thesis by (simp add: f strip_zeros_def Let_def)
  qed
qed

lemma fmt_g_of_nat:
  assumes "0 < n" "n < 10 ^ 6"
  shows "fmt_g (of_nat n) = show_nat n"
proof -
  note i = ilog10_of_nat [OF assms(1)]
  define k where "k = floorlog 10 n - 1"
  have "(10 :: nat) ^ k < 10 ^ 6" using i(2) assms(2) unfolding k_def by (rule order_le_less_trans)
  then have k: "k < 6" by (rule power_less_imp_less_exp [rotated]) simp
  have "(of_nat n :: rat) / 10 powi (int k - 5) = of_int (int (n * 10 ^ (5 - k)))"
  proof -
    have "(10 :: rat) powi (int k - 5) = 1 / 10 ^ (5 - k)"
      using k by (simp add: power_int_def nat_diff_distrib inverse_eq_divide power_one_over)
    then show ?thesis by simp
  qed
  then have r: "rne (of_nat n / 10 powi (int k - 5)) = int (n * 10 ^ (5 - k))" by (simp only: rne_of_int)
  have "n * 10 ^ (5 - k) < 10 ^ Suc k * 10 ^ (5 - k)" using i(3,4) by (intro mult_strict_right_mono) (simp_all add: k_def)
  also have "\<dots> = 10 ^ 6" using k by (simp flip: power_add)
  finally have "int (n * 10 ^ (5 - k)) \<noteq> int (10 ^ 6)" by (simp only: of_nat_eq_iff)
  then have "int (n * 10 ^ (5 - k)) \<noteq> 10 ^ 6" by simp
  moreover have il: "ilog10 \<bar>of_nat n\<bar> = int k" using i(1) by (simp add: k_def)
  have "rne (\<bar>of_nat n\<bar> / 10 powi (int k - 5)) = int (n * 10 ^ (5 - k))" using r by simp
  ultimately show ?thesis
    using assms(1) k strip_fixed_nat [of _ n] unfolding fmt_g_def Let_def il by simp
qed

text \<open>Lookups in the entries of a replay file.\<close>

lemma kv_opt_str_map_of: "kv_opt_str (Some b) key None = map_of (opt_kv b) key"
proof -
  have "(case find (\<lambda>kv. fst kv = key) kvs of Some kv \<Rightarrow> Some (snd kv) | None \<Rightarrow> None) = map_of kvs key" for kvs :: "(string \<times> string) list"
    by (induction kvs) (auto split: option.splits)
  then show ?thesis by (simp add: kv_opt_str_def)
qed

lemma map_of_one_if [simp]: "map_of (if c then [(k, v)] else []) x = (if c \<and> k = x then Some v else None)"
  by simp

lemma map_of_append_at: "map_of (xs @ ys) k = (case map_of xs k of None \<Rightarrow> map_of ys k | Some v \<Rightarrow> Some v)"
  by (induction xs) auto

abbreviation kvs_of where
  "kvs_of cfg engines_str threads_list repeat report_arg report_dir files \<equiv>
     map key_value (replay_entries cfg engines_str threads_list repeat report_arg report_dir files)"

lemma kvs_of_eq:
  "kvs_of cfg e t rp ra rd files =
     [(''backend'', e), (''threads'', t)] @
     (if cfg_seed_threads cfg > 0 then [(''seed_threads'', show_int (cfg_seed_threads cfg))] else []) @
     (if cfg_seed_once cfg \<noteq> 0 then [(''seed_once'', ''1'')] else []) @
     (if cfg_pin cfg \<noteq> 0 then [(''pin'', ''1'')] else []) @
     (if cfg_secs cfg > 0 then [(''secs'', fmt_g (cfg_secs cfg))] else []) @
     (if cfg_secs cfg > 0 then [] else [(''ops'', show_int (cfg_ops cfg))]) @
     [(''users'', show_int (cfg_users cfg)), (''items'', show_int (cfg_items cfg)),
      (''seed'', show_nat (unat (cfg_seed cfg))), (''repeat'', show_int rp)] @
     (if no_dir (cfg_data_dir cfg) then [] else [(''data_dir'', the (cfg_data_dir cfg))]) @
     (if rd = None then [] else [(''report_dir'', the rd)]) @
     (if rd = None \<and> ra \<noteq> None then [(''report'', the ra)] else []) @ map (\<lambda>f. (''workload'', f)) files"
  by (auto simp: replay_entries_def key_value_def no_dir_def split: option.split)

lemma map_of_workloads [simp]: "map_of (map (\<lambda>f. (''workload'', f)) files) key = (if key = ''workload'' \<and> files \<noteq> [] then Some (hd files) else None)"
  by (induction files) auto

lemma map_of_zero_if [simp]: "map_of (if c then [] else [(k, v)]) x = (if \<not> c \<and> k = x then Some v else None)"
  by simp

lemma replay_lookups:
  fixes cfg e t rp ra rd files
  defines "look \<equiv> map_of (kvs_of cfg e t rp ra rd files)"
  shows "look ''backend'' = Some e" "look ''threads'' = Some t" "look ''timeline'' = None"
    "look ''seed_threads'' = (if cfg_seed_threads cfg > 0 then Some (show_int (cfg_seed_threads cfg)) else None)"
    "look ''seed_once'' = (if cfg_seed_once cfg \<noteq> 0 then Some ''1'' else None)" "look ''pin'' = (if cfg_pin cfg \<noteq> 0 then Some ''1'' else None)"
    "look ''secs'' = (if cfg_secs cfg > 0 then Some (fmt_g (cfg_secs cfg)) else None)"
    "look ''ops'' = (if cfg_secs cfg > 0 then None else Some (show_int (cfg_ops cfg)))"
    "look ''users'' = Some (show_int (cfg_users cfg))" "look ''items'' = Some (show_int (cfg_items cfg))"
    "look ''seed'' = Some (show_nat (unat (cfg_seed cfg)))" "look ''repeat'' = Some (show_int rp)"
    "look ''data_dir'' = (if no_dir (cfg_data_dir cfg) then None else cfg_data_dir cfg)" "look ''report_dir'' = rd"
    "look ''report'' = (if rd = None then ra else None)"
  unfolding look_def kvs_of_eq map_of_append_at by (auto simp: no_dir_def split: option.splits)

lemma replay_workloads: "map snd (filter (\<lambda>kv. fst kv = ''workload'') (kvs_of cfg e t rp ra rd files)) = files"
proof -
  have "filter (\<lambda>kv. fst kv = ''workload'') (map (\<lambda>f. (''workload'', f)) files) = map (\<lambda>f. (''workload'', f)) files"
    by (simp add: filter_map)
  then show ?thesis unfolding kvs_of_eq by (simp add: comp_def)
qed

text \<open>The run configurations a replay file can hold, and that the values of a run can be read back.\<close>

definition replay_ok :: "config \<Rightarrow> string \<Rightarrow> string \<Rightarrow> int \<Rightarrow> string option \<Rightarrow> string option \<Rightarrow> string list \<Rightarrow> cfg_file option \<Rightarrow> bool" where
  "replay_ok cfg engines threads repeat report_arg report_dir files conf \<longleftrightarrow>
     0 \<le> cfg_ops cfg \<and> cfg_ops cfg < 2 ^ 53 \<and> 0 \<le> cfg_users cfg \<and> cfg_users cfg < 2 ^ 53 \<and> 0 \<le> cfg_items cfg \<and> cfg_items cfg < 2 ^ 53 \<and>
     0 \<le> cfg_seed_threads cfg \<and> cfg_seed_threads cfg < 2 ^ 31 \<and> cfg_seed_once cfg \<in> {0, 1} \<and> cfg_pin cfg \<in> {0, 1} \<and>
     0 \<le> repeat \<and> repeat < 2 ^ 31 \<and> (\<exists>n < 10 ^ 6. cfg_secs cfg = of_nat n) \<and> (cfg_secs cfg > 0 \<longrightarrow> cfg_ops cfg = 0) \<and>
     cfg_threads cfg = 1 \<and> cfg_sweep_param cfg = None \<and> cfg_sweep_value cfg = 0 \<and> cfg_data_dir cfg \<noteq> Some [] \<and>
     0 < length files \<and> length files \<le> 64 \<and>
     (\<forall>s \<in> {engines, threads} \<union> set_option (cfg_data_dir cfg) \<union> set_option report_arg \<union> set_option report_dir \<union> set files.
        clean s \<and> length s < 900) \<and>
     (\<forall>s \<in> set (other_sections conf). section_ok s) \<and> distinct (map fst (other_sections conf))"

lemma digits_clean:
  assumes "\<forall>c \<in> set ds. isdigit c" shows "clean ds"
proof -
  have "strip_comment b ds = ds" for b using assms by (induction ds arbitrary: b) (auto simp: isdigit_def)
  moreover have "\<not> isspace c \<and> c \<noteq> newline \<and> c \<noteq> CHR 0x00" if "c \<in> set ds" for c
    using bspec [OF assms that] isdigit_not [of c] by (auto simp: isdigit_def)
  ultimately show ?thesis unfolding clean_def using hd_in_set last_in_set by blast
qed

lemma number_printable: "n < 10 ^ 20 \<Longrightarrow> clean (show_nat n) \<and> length (show_nat n) < 900"
  using digits_clean [of "show_nat n"] isdigit_show_nat [of _ n] show_nat_length [of n 20] by auto

lemma int_printable: "0 \<le> v \<Longrightarrow> v < 10 ^ 20 \<Longrightarrow> clean (show_int v) \<and> length (show_int v) < 900"
  using number_printable [of "nat v"] by (simp add: show_int_def)

lemma pad_ok_printable:
  assumes "clean v \<and> length v < 900" "key_ok k" "length k < 50" "u \<in> {[], '' '', ''  ''}"
  shows "pad_ok (k, u, v)"
  using assms by (auto simp: pad_ok_def entry_body_def)

definition replay_keys :: "string set" where
  "replay_keys = {''backend'', ''threads'', ''seed_threads'', ''seed_once'', ''pin'', ''secs'', ''ops'', ''users'', ''items'', ''seed'', ''repeat'',
     ''data_dir'', ''report_dir'', ''report'', ''workload''}"

lemma key_ok_names: "k \<in> replay_keys \<Longrightarrow> key_ok k \<and> length k < 50"
  unfolding replay_keys_def by (elim insertE emptyE; simp add: key_ok_def clean_def isspace_def)

lemma replay_entry_parts:
  assumes "x \<in> set (replay_entries cfg e t rp ra rd files)"
  shows "fst x \<in> replay_keys" "fst (snd x) \<in> {[], '' '', ''  ''}"
    "snd (snd x) \<in> {e, t} \<union> set_option (cfg_data_dir cfg) \<union> set_option ra \<union> set_option rd \<union> set files \<or>
     snd (snd x) \<in> show_int ` {cfg_ops cfg, cfg_users cfg, cfg_items cfg, cfg_seed_threads cfg, rp} \<or>
     snd (snd x) \<in> {show_nat (unat (cfg_seed cfg)), ''1''} \<or> (cfg_secs cfg > 0 \<and> snd (snd x) = fmt_g (cfg_secs cfg))"
  using assms unfolding replay_entries_def replay_keys_def by (auto split: if_splits option.splits)

lemma replay_pad_ok:
  assumes "replay_ok cfg e t rp ra rd files conf" and x: "x \<in> set (replay_entries cfg e t rp ra rd files)"
  shows "pad_ok x"
proof -
  have s: "clean s \<and> length s < 900"
    if "s \<in> {e, t} \<union> set_option (cfg_data_dir cfg) \<union> set_option ra \<union> set_option rd \<union> set files" for s
    using assms(1) that unfolding replay_ok_def by blast
  have n: "clean (show_int v) \<and> length (show_int v) < 900" if "v \<in> {cfg_ops cfg, cfg_users cfg, cfg_items cfg, cfg_seed_threads cfg, rp}" for v
    using assms(1) that by (intro int_printable) (auto simp: replay_ok_def)
  have u: "clean (show_nat (unat (cfg_seed cfg))) \<and> length (show_nat (unat (cfg_seed cfg))) < 900"
    using unsigned_less [of "cfg_seed cfg", where 'a = nat] by (intro number_printable) simp
  have one: "clean ''1'' \<and> length ''1'' < 900" by (simp add: clean_def isspace_def)
  obtain m where "m < 10 ^ 6" "cfg_secs cfg = of_nat m" using assms(1) by (auto simp: replay_ok_def)
  then have g: "clean (fmt_g (cfg_secs cfg)) \<and> length (fmt_g (cfg_secs cfg)) < 900" if "cfg_secs cfg > 0"
    using that fmt_g_of_nat [of m] number_printable [of m] by simp
  obtain k pad v where e: "x = (k, pad, v)" by (cases x)
  note parts = replay_entry_parts [OF x, unfolded e fst_conv snd_conv]
  have "clean v \<and> length v < 900" using parts(3) s n u one g by (elim disjE) blast+
  then show ?thesis using pad_ok_printable key_ok_names [OF parts(1)] parts(2) unfolding e by blast
qed

lemma parse_printed: "0 \<le> v \<Longrightarrow> v < 2 ^ 53 \<Longrightarrow> cfg_parse_size (Some (show_int v)) d = Some v"
  using parse_shown_size [of "nat v" "[]" 0 d] by (simp add: show_int_def suffix_bits_def)

lemma atof_printed: "n < 10 ^ 6 \<Longrightarrow> atof (show_nat n) = Some (of_nat n)"
  using strtod_show_nat [of "[]" n] rnd_of_nat [of n] by (simp add: atof_def ends_number_def)

lemma replay_numbers:
  assumes ok: "replay_ok cfg e t rp ra rd files conf" and b: "opt_kv b = kvs_of cfg e t rp ra rd files"
  shows "kv_opt_int (Some b) ''ops'' 200000 = Some (if cfg_secs cfg > 0 then 200000 else cfg_ops cfg)"
    "kv_opt_int (Some b) ''users'' d = Some (cfg_users cfg)" "kv_opt_int (Some b) ''items'' d = Some (cfg_items cfg)"
    "kv_opt_int (Some b) ''seed'' d = Some (uint (cfg_seed cfg))" "kv_opt_int (Some b) ''seed_threads'' 0 = Some (cfg_seed_threads cfg)"
    "kv_opt_int (Some b) ''seed_once'' 0 = Some (cfg_seed_once cfg)" "kv_opt_int (Some b) ''pin'' 0 = Some (cfg_pin cfg)"
    "kv_opt_int (Some b) ''repeat'' d = Some rp"
    "(case kv_opt_str (Some b) ''secs'' None of Some s \<Rightarrow> atof s | None \<Rightarrow> Some 0) = Some (cfg_secs cfg)"
proof -
  obtain m where m: "m < 10 ^ 6" "cfg_secs cfg = of_nat m" using ok by (auto simp: replay_ok_def)
  have one: "''1'' = show_int 1" by (simp add: show_int_def show_nat.simps) code_simp
  have seed: "show_nat (unat (cfg_seed cfg)) = show_int (uint (cfg_seed cfg))" by (simp add: show_int_def)
  have s: "uint (cfg_seed cfg) < 2 ^ 53" using uint_lt2p [of "cfg_seed cfg"] by simp
  show "kv_opt_int (Some b) ''ops'' 200000 = Some (if cfg_secs cfg > 0 then 200000 else cfg_ops cfg)"
    "kv_opt_int (Some b) ''users'' d = Some (cfg_users cfg)" "kv_opt_int (Some b) ''items'' d = Some (cfg_items cfg)"
    "kv_opt_int (Some b) ''seed_threads'' 0 = Some (cfg_seed_threads cfg)"
    "kv_opt_int (Some b) ''repeat'' d = Some rp"
    using ok by (simp_all add: kv_opt_int_def kv_opt_str_map_of b replay_lookups parse_printed replay_ok_def)
  show "kv_opt_int (Some b) ''seed_once'' 0 = Some (cfg_seed_once cfg)" "kv_opt_int (Some b) ''pin'' 0 = Some (cfg_pin cfg)"
    using ok parse_printed [of 1] by (auto simp: kv_opt_int_def kv_opt_str_map_of b replay_lookups one replay_ok_def)
  show "kv_opt_int (Some b) ''seed'' d = Some (uint (cfg_seed cfg))"
    using s by (simp add: kv_opt_int_def kv_opt_str_map_of b replay_lookups seed parse_printed)
  show "(case kv_opt_str (Some b) ''secs'' None of Some s \<Rightarrow> atof s | None \<Rightarrow> Some 0) = Some (cfg_secs cfg)"
    using m fmt_g_of_nat [of m] by (cases "m = 0") (simp_all add: kv_opt_str_map_of b replay_lookups atof_printed)
qed

lemma replay_applied:
  assumes ok: "replay_ok cfg e t rp ra rd files conf"
    and c: "cfg_view c = (''bench'', kvs_of cfg e t rp ra rd files) # secs"
  shows "\<exists>b. cfg_section (Some c) ''bench'' = Some b \<and> opt_kv b = kvs_of cfg e t rp ra rd files \<and>
    apply_config (Some c) main_init =
      Some (main_init\<lparr>cl_cfg := cfg\<lparr>cfg_backend := Some e, cfg_timeline := 0, cfg_conf := None, cfg_ops := if cfg_secs cfg > 0 then 200000 else cfg_ops cfg\<rparr>,
                      cl_threads := Some t, cl_report := if rd = None then ra else None, cl_repeat := rp, cl_cfiles := files\<rparr>)"
proof -
  obtain b bs where b: "cf_s c = b # bs" "opt_name b = ''bench''" "opt_kv b = kvs_of cfg e t rp ra rd files"
    using c by (cases "cf_s c") (auto simp: cfg_view_def)
  have sec: "cfg_section (Some c) ''bench'' = Some b" by (simp add: cfg_section_def b)
  note n = replay_numbers [OF ok b(3)]
  have tl: "kv_opt_str (Some b) ''timeline'' None = None" by (simp add: kv_opt_str_map_of b replay_lookups)
  have str: "kv_opt_str (Some b) ''backend'' None = Some e" "kv_opt_str (Some b) ''threads'' None = Some t"
    "kv_opt_str (Some b) ''report'' None = (if rd = None then ra else None)"
    "kv_opt_str (Some b) ''data_dir'' None = (if no_dir (cfg_data_dir cfg) then None else cfg_data_dir cfg)"
    by (simp_all add: kv_opt_str_map_of b replay_lookups)
  have wl: "kv_opt_all (Some b) ''workload'' 64 = files"
    using replay_workloads [of cfg e t rp ra rd files] ok by (simp add: kv_opt_all_def fold_collect b replay_ok_def)
  have i: "to_int (cfg_seed_threads cfg) = cfg_seed_threads cfg" "to_int (cfg_seed_once cfg) = cfg_seed_once cfg"
    "to_int (cfg_pin cfg) = cfg_pin cfg" "to_int rp = rp"
    using ok to_int_id [of 0] to_int_id [of 1] by (auto simp: replay_ok_def to_int_id)
  have opt_id: "(case x of None \<Rightarrow> None | Some s \<Rightarrow> Some s) = x" for x :: "string option" by (cases x) simp_all
  have dd: "(if no_dir (cfg_data_dir cfg) then None else cfg_data_dir cfg) = cfg_data_dir cfg"
    using ok by (auto simp: replay_ok_def no_dir_def split: option.splits)
  have "apply_config (Some c) main_init =
      Some (main_init\<lparr>cl_cfg := (cl_cfg main_init)\<lparr>cfg_backend := Some e, cfg_secs := cfg_secs cfg, cfg_timeline := 0,
                        cfg_data_dir := cfg_data_dir cfg, cfg_ops := if cfg_secs cfg > 0 then 200000 else cfg_ops cfg,
                        cfg_users := cfg_users cfg, cfg_items := cfg_items cfg, cfg_seed := cfg_seed cfg,
                        cfg_seed_threads := cfg_seed_threads cfg, cfg_seed_once := cfg_seed_once cfg, cfg_pin := cfg_pin cfg\<rparr>,
                      cl_threads := Some t, cl_report := if rd = None then ra else None, cl_repeat := rp, cl_cfiles := files\<rparr>)"
    unfolding apply_config_def sec
    by (simp add: Let_def main_init_def n str tl wl i opt_id dd cong: option.case_cong)
  also have "\<dots> = Some (main_init\<lparr>cl_cfg := cfg\<lparr>cfg_backend := Some e, cfg_timeline := 0, cfg_conf := None, cfg_ops := if cfg_secs cfg > 0 then 200000 else cfg_ops cfg\<rparr>,
                      cl_threads := Some t, cl_report := if rd = None then ra else None, cl_repeat := rp, cl_cfiles := files\<rparr>)"
    using ok by (cases cfg) (simp add: main_init_def replay_ok_def)
  finally show ?thesis using sec b(3) by blast
qed

subsection \<open>Properties\<close>

text \<open>
  C27. What \<open>main\<close> has established when a run starts, whatever the arguments and the configuration file: between 1 and 64
  workloads and thread counts and between 1 and 16 engines, so the fixed arrays never overflow; every engine is registered
  under its name; at least one repeat; a fixed number of operations only without a duration; and a data directory when an
  engine is persistent.
\<close>

theorem make_plan_ok:
  assumes "make_plan reg fs can_mkdir ts g args = Go p"
  shows "1 \<le> length (pl_wl p) \<and> length (pl_wl p) \<le> 64 \<and> 1 \<le> length (pl_tlist p) \<and> length (pl_tlist p) \<le> 64 \<and>
    1 \<le> length (pl_engines p) \<and> length (pl_engines p) \<le> 16 \<and> 1 \<le> pl_repeat p \<and>
    (\<forall>n \<in> set (pl_engines p). \<exists>e. backend_find reg (Some n) = Some e \<and> ent_name e = n \<and>
       (ent_persistent e \<longrightarrow> (\<exists>d. cfg_data_dir (pl_cfg p) = Some d \<and> d \<noteq> []))) \<and>
    (cfg_secs (pl_cfg p) > 0 \<longrightarrow> cfg_ops (pl_cfg p) = 0)"
proof -
  obtain conf m where m: "effective_config fs args = Go (conf, m)" "pl_cfg p = cl_cfg m" "pl_wl p = workloads m" "pl_wl p \<noteq> []"
    and e: "resolve_engines reg (cfg_backend (pl_cfg p)) = Go (pl_engines p)"
    and d: "\<not> (needs_dir reg (pl_engines p) \<and> no_dir (cfg_data_dir (pl_cfg p)))"
    and t: "pl_tlist p = thread_counts (cl_threads m)" "pl_repeat p = (if cl_repeat m < 1 then 1 else cl_repeat m)"
    using assms by (rule make_plan_Go)
  have "\<exists>e. backend_find reg (Some n) = Some e \<and> ent_name e = n \<and>
       (ent_persistent e \<longrightarrow> (\<exists>d. cfg_data_dir (pl_cfg p) = Some d \<and> d \<noteq> []))" if n: "n \<in> set (pl_engines p)" for n
  proof -
    obtain e' where e': "backend_find reg (Some n) = Some e'" "ent_name e' = n" using resolve_engines_Go [OF e] n by blast
    have "ent_persistent e' \<Longrightarrow> needs_dir reg (pl_engines p)" unfolding needs_dir_def using n e'(1) by force
    then show ?thesis using e' d by (cases "cfg_data_dir (pl_cfg p)") (auto simp: no_dir_def)
  qed
  moreover have "length (pl_wl p) \<le> 64" "cfg_secs (pl_cfg p) > 0 \<longrightarrow> cfg_ops (pl_cfg p) = 0"
    using effective_config_ok [OF m(1)] m(2,3) by (auto simp: workloads_def)
  moreover have "1 \<le> length (pl_engines p)" "length (pl_engines p) \<le> 16"
    using resolve_engines_Go [OF e] by (auto simp: Suc_le_eq)
  moreover have "1 \<le> length (pl_wl p)" using m(4) by (simp add: Suc_le_eq)
  ultimately show ?thesis using t(2) thread_counts_length [of "cl_threads m"] unfolding t(1) by auto
qed

lemma plain_run: "effective_config fs [''w.lua''] = Go (None, main_init\<lparr>cl_files := [''w.lua'']\<rparr>)"
  by (simp add: effective_config_def plain_arg_def main_init_def)

theorem make_plan_ok_witness:
  "\<exists>p. make_plan [\<lparr>ent_name = ''skiplist'', ent_open = skiplist_backend_open, ent_persistent = False\<rparr> :: (skiplist, unit, unit) backend_entry]
        (\<lambda>_. None) (\<lambda>_. True) ''now'' probes_init [''w.lua''] = Go p \<and> 1 \<le> length (pl_engines p) \<and> length (pl_wl p) \<le> 64"
proof -
  let ?reg = "[\<lparr>ent_name = ''skiplist'', ent_open = skiplist_backend_open, ent_persistent = False\<rparr> :: (skiplist, unit, unit) backend_entry]"
  have e: "resolve_engines ?reg None = Go [''skiplist'']" by (simp add: resolve_engines_def backend_find_def DEFAULT_BACKEND_def)
  have "\<exists>p. make_plan ?reg (\<lambda>_. None) (\<lambda>_. True) ''now'' probes_init [''w.lua''] = Go p"
    by (simp add: make_plan_def plain_run main_init_def workloads_def e or_else_def needs_dir_def backend_find_def Let_def)
  then obtain p where p: "make_plan ?reg (\<lambda>_. None) (\<lambda>_. True) ''now'' probes_init [''w.lua''] = Go p" by blast
  with make_plan_ok [OF p] show ?thesis by blast
qed

lemma odd_lists:
  "thread_counts (Some ''0,-3'') = [1, 1]" "thread_counts (Some ''4294967296,2147483648'') = [0, - (2 ^ 31)]"
proof -
  have s: "strtol ''0,-3'' = (0, '',-3'', False)" "strtol ''-3'' = (- 3, [], False)"
    "strtol ''4294967296,2147483648'' = (4294967296, '',2147483648'', False)" "strtol ''2147483648'' = (2147483648, [], False)"
    by (simp_all add: strtol_def sign_of_def isspace_def isdigit_def dec_val_def digit_val_def)
  have i: "to_int 4294967296 = 0" "to_int 2147483648 = - (2 ^ 31)" by (simp_all add: to_int_def int_word_sint)
  have "parse_int_list (Suc (Suc k)) ''0,-3'' = [1, 1]" "parse_int_list (Suc (Suc k)) ''4294967296,2147483648'' = [0, - (2 ^ 31)]" for k
    using s i by (cases k; simp)+
  from this [of 62] show "thread_counts (Some ''0,-3'') = [1, 1]" "thread_counts (Some ''4294967296,2147483648'') = [0, - (2 ^ 31)]"
    by (simp_all add: thread_counts_def)
qed

text \<open>
  A printed comma list of thread counts from 1 to \<open>2 ^ 31 - 1\<close> reads back exactly, cut at 64 entries; a
  count of 0 or below reads as 1, but a count beyond an \<open>int\<close> is narrowed after the clamp and can be 0 or negative.
\<close>

theorem thread_list_reads_back:
  assumes "ns \<noteq> []" "\<forall>n \<in> set ns. 1 \<le> n \<and> n < 2 ^ 31"
  shows "thread_counts (Some (comma_list ns)) = take 64 ns \<and>
    thread_counts (Some ''0,-3'') = [1, 1] \<and> thread_counts (Some ''4294967296,2147483648'') = [0, - (2 ^ 31)]"
proof (intro conjI)
  show "thread_counts (Some (comma_list ns)) = take 64 ns"
    using parse_comma_list [OF assms(2), of 64] assms(1) by (simp add: thread_counts_def Let_def Suc_le_eq)
qed (rule odd_lists)+

theorem thread_list_reads_back_witness: "thread_counts (Some (comma_list [1, 2, 16])) = [1, 2, 16]"
  using thread_list_reads_back [of "[1, 2, 16]"] by simp





end
