(* ===== verification/KB_Run.thy ===== *)
theory KB_Run
  imports KB_Cli KB_Summary KB_Affinity "HOL-Library.Multiset"
begin

text \<open>
  Running a workload, from \<open>src/src/main.c\<close>: the context table, the worker threads and their shares of the operations,
  and the timed phase.

  The Lua interpreter and the clock are parameters: calling \<open>run()\<close> tells whether it succeeded and which kv events it
  caused on the counters of its worker. One worker is the recursive function \<open>worker_loop\<close>; all workers together are a
  step relation in which any worker that has not returned may do its next iteration, with any outcome, so what holds of
  every sequence of steps holds of every schedule of the threads. The progress line and the timeline only read the counters.
\<close>

subsection \<open>The code\<close>

text \<open>The context table of a thread; a later field replaces an earlier one of the same name.\<close>

definition make_ctx :: "config \<Rightarrow> int \<Rightarrow> int \<Rightarrow> (string \<rightharpoonup> int)" where
  "make_ctx c tid nthreads =
     (let m = [''users'' \<mapsto> cfg_users c, ''items'' \<mapsto> cfg_items c, ''ops'' \<mapsto> cfg_ops c, ''seed'' \<mapsto> uint (cfg_seed c)];
          m = (case cfg_sweep_param c of Some p \<Rightarrow> m(p \<mapsto> cfg_sweep_value c) | None \<Rightarrow> m)
      in m(''thread'' \<mapsto> tid, ''threads'' \<mapsto> nthreads, ''iter'' \<mapsto> 0))"

text \<open>\<open>w_done\<close> tells that the thread has returned.\<close>

record worker =
  w_ops :: int
  w_seed :: u32
  w_tid :: int
  w_nthreads :: int
  w_stats :: op_stats
  w_units :: int
  w_err :: bool
  w_done :: bool

definition c_quot :: "int \<Rightarrow> int \<Rightarrow> int" where
  "c_quot a b = (if a \<ge> 0 then a div b else - ((- a) div b))"

definition run_threads :: "config \<Rightarrow> int" where
  "run_threads cfg = (if cfg_threads cfg < 1 then 1 else cfg_threads cfg)"

definition new_worker :: "config \<Rightarrow> nat \<Rightarrow> worker" where
  "new_worker cfg t =
     (let n = run_threads cfg;
          base = (if cfg_secs cfg > 0 then 0 else c_quot (cfg_ops cfg) n);
          rest = (if cfg_secs cfg > 0 then 0 else c_rem (cfg_ops cfg) n)
      in \<lparr>w_ops = base + (if int t < rest then 1 else 0), w_seed = cfg_seed cfg + of_nat t, w_tid = int t, w_nthreads = n,
          w_stats = stats_reset, w_units = 0, w_err = False, w_done = False\<rparr>)"

definition new_workers :: "config \<Rightarrow> worker list" where
  "new_workers cfg = map (new_worker cfg) [0..<nat (run_threads cfg)]"

text \<open>What an iteration does to the worker, and the loop over the iterations.\<close>

definition after_run :: "bool \<Rightarrow> stat_event list \<Rightarrow> worker \<Rightarrow> worker" where
  "after_run ok evs w =
     (let w = w\<lparr>w_stats := fold note_event evs (w_stats w)\<rparr>
      in if ok then w\<lparr>w_units := w_units w + 1\<rparr> else w\<lparr>w_err := True, w_done := True\<rparr>)"

partial_function (option) worker_loop ::
  "('x \<Rightarrow> u64 \<times> 'x) \<Rightarrow> (int \<Rightarrow> 'x \<Rightarrow> bool \<times> stat_event list \<times> 'x) \<Rightarrow> config \<Rightarrow> u64 \<Rightarrow> worker \<Rightarrow> 'x \<Rightarrow> (worker \<times> 'x) option" where
  "worker_loop now run cfg t0 w x =
     (if cfg_secs cfg \<le> 0 \<and> w_units w \<ge> w_ops w then Some (w\<lparr>w_done := True\<rparr>, x)
      else (case (if cfg_secs cfg > 0 then now x else (0, x)) of (t, x) \<Rightarrow>
        if cfg_secs cfg > 0 \<and> t - t0 \<ge> double_to_u64 (dmul (cfg_secs cfg) 1000000000) then Some (w\<lparr>w_done := True\<rparr>, x)
        else (case run (w_units w + 1) x of (ok, evs, x) \<Rightarrow>
          if \<not> ok then Some (after_run False evs w, x) else worker_loop now run cfg t0 (after_run True evs w) x)))"

text \<open>The whole thread. The workload may fail to load or have no \<open>run\<close> function.\<close>

definition worker_main ::
  "('x \<Rightarrow> u64 \<times> 'x) \<Rightarrow> (int \<Rightarrow> 'x \<Rightarrow> bool \<times> stat_event list \<times> 'x) \<Rightarrow> ('x \<Rightarrow> bool \<times> 'x) \<Rightarrow> config \<Rightarrow> worker \<Rightarrow> 'x \<Rightarrow> (worker \<times> 'x) option" where
  "worker_main now run open_ok cfg w x =
     (case open_ok x of (ok, x) \<Rightarrow>
        let w = w\<lparr>w_stats := stats_reset\<rparr>
        in if \<not> ok then Some (w\<lparr>w_err := True, w_done := True\<rparr>, x)
           else (case now x of (t0, x) \<Rightarrow> worker_loop now run cfg t0 w x))"

text \<open>After all threads have been joined.\<close>

definition timed_result :: "worker list \<Rightarrow> double \<Rightarrow> string \<Rightarrow> point_result" where
  "timed_result ws wall eng =
     \<lparr>pr_stats = fold (\<lambda>w st. stats_merge st (w_stats w)) ws stats_reset, pr_units = sum_list (map w_units ws),
      pr_wall = wall, pr_engine = eng, pr_ok = (\<not> (\<exists>w \<in> set ws. w_err w))\<rparr>"

subsection \<open>All threads together\<close>

text \<open>One step of one worker, with any outcome of the workload and the clock, and the events it records.\<close>

inductive wstep :: "config \<Rightarrow> worker \<Rightarrow> stat_event list \<Rightarrow> worker \<Rightarrow> bool" for cfg where
  not_loaded: "\<not> w_done w \<Longrightarrow> w_units w = 0 \<Longrightarrow> wstep cfg w [] (w\<lparr>w_err := True, w_done := True\<rparr>)"
| ops_done: "\<not> w_done w \<Longrightarrow> cfg_secs cfg \<le> 0 \<Longrightarrow> w_units w \<ge> w_ops w \<Longrightarrow> wstep cfg w [] (w\<lparr>w_done := True\<rparr>)"
| time_up: "\<not> w_done w \<Longrightarrow> cfg_secs cfg > 0 \<Longrightarrow> wstep cfg w [] (w\<lparr>w_done := True\<rparr>)"
| iteration: "\<not> w_done w \<Longrightarrow> \<not> (cfg_secs cfg \<le> 0 \<and> w_units w \<ge> w_ops w) \<Longrightarrow> wstep cfg w evs (after_run ok evs w)"

text \<open>The steps of a timed phase: how many there were, the events in the order they happened, and the workers.\<close>

inductive phase :: "config \<Rightarrow> nat \<Rightarrow> stat_event list \<Rightarrow> worker list \<Rightarrow> bool" for cfg where
  start: "phase cfg 0 [] (new_workers cfg)"
| step: "phase cfg k hist ws \<Longrightarrow> i < length ws \<Longrightarrow> wstep cfg (ws ! i) evs w' \<Longrightarrow> phase cfg (Suc k) (hist @ evs) (ws[i := w'])"

inductive_cases wstepE: "wstep cfg w evs w'"


subsection \<open>Shares of the operations\<close>

lemma run_threads_pos: "0 < run_threads cfg"
  by (simp add: run_threads_def)

lemma length_new_workers [simp]: "length (new_workers cfg) = nat (run_threads cfg)"
  by (simp add: new_workers_def)

lemma new_workers_nth: "i < nat (run_threads cfg) \<Longrightarrow> new_workers cfg ! i = new_worker cfg i"
  by (simp add: new_workers_def)

definition share :: "int \<Rightarrow> nat \<Rightarrow> nat \<Rightarrow> int" where
  "share ops n i = ops div int n + (if int i < ops mod int n then 1 else 0)"

lemma new_worker_share:
  assumes "cfg_secs cfg \<le> 0" "0 \<le> cfg_ops cfg"
  shows "w_ops (new_worker cfg i) = share (cfg_ops cfg) (nat (run_threads cfg)) i"
  using assms run_threads_pos [of cfg] by (simp add: new_worker_def share_def Let_def c_quot_def c_rem_def)

lemma sum_list_below: "sum_list (map (\<lambda>i. if i < r then 1 else 0 :: int) [0..<n]) = int (min r n)"
  by (induction n) auto

lemma sum_shares:
  assumes "0 < n"
  shows "sum_list (map (share ops n) [0..<n]) = ops"
proof -
  define r where "r = nat (ops mod int n)"
  have r: "r \<le> n" "int r = ops mod int n" using assms by (simp_all add: r_def nat_le_iff less_imp_le)
  have "sum_list (map (share ops n) [0..<n]) = int n * (ops div int n) + sum_list (map (\<lambda>i. if i < r then 1 else 0 :: int) [0..<n])"
    unfolding share_def r(2) [symmetric] sum_list_addf by (simp add: sum_list_triv)
  also have "\<dots> = ops" using sum_list_below [of r n] r by (simp add: min_absorb1)
  finally show ?thesis .
qed

subsection \<open>Every schedule\<close>

lemma phase_length: "phase cfg k hist ws \<Longrightarrow> length ws = nat (run_threads cfg)"
  by (induction rule: phase.induct) simp_all

text \<open>With a fixed number of operations no worker exceeds its share, and one that returned without an error has done it.\<close>

definition worker_ok :: "config \<Rightarrow> nat \<Rightarrow> worker \<Rightarrow> bool" where
  "worker_ok cfg i w \<longleftrightarrow> w_ops w = share (cfg_ops cfg) (nat (run_threads cfg)) i \<and> 0 \<le> w_units w \<and> w_units w \<le> w_ops w \<and>
     (w_done w \<and> \<not> w_err w \<longrightarrow> w_units w = w_ops w)"

lemma share_nonneg: "0 \<le> ops \<Longrightarrow> 0 < n \<Longrightarrow> 0 \<le> share ops n i"
  by (simp add: share_def pos_imp_zdiv_nonneg_iff)

lemma wstep_worker_ok:
  "wstep cfg w evs w' \<Longrightarrow> cfg_secs cfg \<le> 0 \<Longrightarrow> worker_ok cfg i w \<Longrightarrow> worker_ok cfg i w'"
  by (induction rule: wstep.induct) (auto simp: worker_ok_def after_run_def Let_def)

lemma phase_worker_ok:
  assumes "phase cfg k hist ws" "cfg_secs cfg \<le> 0" "0 \<le> cfg_ops cfg" "i < length ws"
  shows "worker_ok cfg i (ws ! i)"
  using assms(1,4)
proof (induction arbitrary: i rule: phase.induct)
  case start
  then show ?case
    using new_worker_share [OF assms(2,3)] share_nonneg [OF assms(3), of "nat (run_threads cfg)" i] run_threads_pos [of cfg]
    by (simp add: new_workers_nth worker_ok_def) (simp add: new_worker_def Let_def)
next
  case (step k hist ws j evs w')
  then show ?case using wstep_worker_ok [OF step.hyps(3) assms(2)] by (cases "i = j") (simp_all add: nth_list_update)
qed

text \<open>Every step uses up an operation or ends a thread.\<close>

definition steps_left :: "worker \<Rightarrow> nat" where
  "steps_left w = (if w_done w then 0 else nat (w_ops w - w_units w) + 1)"

lemma wstep_left: "wstep cfg w evs w' \<Longrightarrow> cfg_secs cfg \<le> 0 \<Longrightarrow> steps_left w' < steps_left w"
  by (induction rule: wstep.induct) (auto simp: steps_left_def after_run_def Let_def)

lemma phase_steps_left:
  assumes "phase cfg k hist ws" "cfg_secs cfg \<le> 0"
  shows "k + sum_list (map steps_left ws) \<le> sum_list (map steps_left (new_workers cfg))"
  using assms(1)
proof (induction rule: phase.induct)
  case (step k hist ws i evs w')
  have "sum_list (map steps_left (ws[i := w'])) + steps_left (ws ! i) = sum_list (map steps_left ws) + steps_left w'"
    using step.hyps(2) elem_le_sum_list [of i "map steps_left ws"] by (simp add: map_update sum_list_update)
  then show ?case using step.IH wstep_left [OF step.hyps(3) assms(2)] by simp
qed simp


lemma int_sum_list: "int (sum_list (map f xs)) = sum_list (map (\<lambda>x. int (f x)) xs)"
  by (induction xs) simp_all

lemma new_workers_steps:
  assumes "cfg_secs cfg \<le> 0" "0 \<le> cfg_ops cfg"
  shows "int (sum_list (map steps_left (new_workers cfg))) = cfg_ops cfg + run_threads cfg"
proof -
  let ?n = "nat (run_threads cfg)"
  have n: "0 < ?n" using run_threads_pos by simp
  have left: "int (steps_left (new_worker cfg i)) = share (cfg_ops cfg) ?n i + 1" for i
  proof -
    have "\<not> w_done (new_worker cfg i)" "w_units (new_worker cfg i) = 0" by (simp_all add: new_worker_def Let_def)
    then show ?thesis using new_worker_share [OF assms, of i] share_nonneg [OF assms(2) n, of i] by (simp add: steps_left_def)
  qed
  have "int (sum_list (map steps_left (new_workers cfg))) = sum_list (map (\<lambda>i. int (steps_left (new_worker cfg i))) [0..<?n])"
    by (simp add: new_workers_def int_sum_list comp_def)
  also have "\<dots> = sum_list (map (share (cfg_ops cfg) ?n) [0..<?n]) + int ?n"
    unfolding left by (simp add: sum_list_addf sum_list_triv)
  finally show ?thesis using sum_shares [OF n] run_threads_pos [of cfg] by simp
qed

subsection \<open>Counters do not depend on the schedule\<close>

lemma hist_record_min_max:
  "hist_record h v = \<lparr>buckets = (buckets h)[hist_index v := buckets h ! hist_index v + 1], count = count h + 1,
     sum_ns = sum_ns h + v, min_ns = min (min_ns h) v, max_ns = max (max_ns h) v\<rparr>"
  by (auto simp: hist_record_def min_def max_def not_less)

lemma hist_record_commute: "hist_record (hist_record h u) v = hist_record (hist_record h v) u"
proof -
  have "((buckets h)[hist_index u := buckets h ! hist_index u + 1])
        [hist_index v := (buckets h)[hist_index u := buckets h ! hist_index u + 1] ! hist_index v + 1] =
      ((buckets h)[hist_index v := buckets h ! hist_index v + 1])
        [hist_index u := (buckets h)[hist_index v := buckets h ! hist_index v + 1] ! hist_index u + 1]"
    by (cases "hist_index u = hist_index v") (simp_all add: list_update_swap)
  then show ?thesis by (simp add: hist_record_min_max add_ac min.left_commute max.left_commute min.commute max.commute)
qed

lemma note_event_commute: "note_event e (note_event f st) = note_event f (note_event e st)"
proof (cases e; cases f)
  fix i d n j d' n' assume e: "e = Called i d n" "f = Called j d' n'"
  show ?thesis by (cases "i = j") (simp_all add: e note_event.simps note_call_def hist_record_commute fun_upd_twist add_ac)
qed (auto simp: note_event.simps note_call_def note_get_def)

lemma fold_note_event_perm: "mset es = mset fs \<Longrightarrow> fold note_event es st = fold note_event fs st"
  by (rule fold_multiset_equiv [THEN fun_cong]) (auto simp: fun_eq_iff note_event_commute)

lemma phase_events:
  assumes "phase cfg k hist ws"
  shows "\<exists>es. length es = length ws \<and> (\<forall>i < length ws. w_stats (ws ! i) = fold note_event (es ! i) stats_reset) \<and>
    mset hist = mset (concat es)"
  using assms
proof (induction rule: phase.induct)
  case start
  show ?case
    by (rule exI [of _ "replicate (nat (run_threads cfg)) []"]) (auto simp: new_workers_nth new_worker_def Let_def)
next
  case (step k hist ws i evs w')
  then obtain es where es: "length es = length ws" "\<forall>i < length ws. w_stats (ws ! i) = fold note_event (es ! i) stats_reset"
    "mset hist = mset (concat es)" by blast
  have st: "w_stats w' = fold note_event evs (w_stats (ws ! i))"
    using step.hyps(3) by (cases rule: wstep.cases) (simp_all add: after_run_def Let_def)
  have "mset (concat (es[i := es ! i @ evs])) = mset (concat es) + mset evs"
  proof -
    have e: "es = take i es @ (es ! i) # drop (Suc i) es" using step.hyps(2) es(1) by (simp add: id_take_nth_drop)
    have "es[i := es ! i @ evs] = take i es @ (es ! i @ evs) # drop (Suc i) es"
      using step.hyps(2) es(1) by (simp add: upd_conv_take_nth_drop)
    then show ?thesis by (subst e) (simp add: add_ac)
  qed
  then show ?case
    using es st step.hyps(2) by (intro exI [of _ "es[i := es ! i @ evs]"]) (auto simp: nth_list_update)
qed

lemma merge_workers:
  assumes "length es = length ws" "\<forall>i < length ws. w_stats (ws ! i) = fold note_event (es ! i) stats_reset"
  shows "fold (\<lambda>w st. stats_merge st (w_stats w)) ws (fold note_event fs stats_reset) = fold note_event (fs @ concat es) stats_reset"
  using assms
proof (induction ws arbitrary: es fs)
  case (Cons w ws)
  then obtain e es' where es: "es = e # es'" by (cases es) auto
  have w: "w_stats w = fold note_event e stats_reset" using Cons.prems(2) es by force
  have "stats_merge (fold note_event fs stats_reset) (w_stats w) = fold note_event (fs @ e) stats_reset"
    unfolding w by (simp only: stats_reset_spec fold_note_event stats_merge_spec append_Nil)
  moreover have "\<forall>i < length ws. w_stats (ws ! i) = fold note_event (es' ! i) stats_reset"
    using Cons.prems(2) es by auto
  ultimately show ?case using Cons.IH [of es' "fs @ e"] Cons.prems(1) es by simp
qed simp

subsection \<open>One worker\<close>

abbreviation wsteps :: "config \<Rightarrow> worker \<Rightarrow> worker \<Rightarrow> bool" where
  "wsteps cfg \<equiv> (\<lambda>v w. \<exists>evs. wstep cfg v evs w)\<^sup>*\<^sup>*"

lemma worker_loop_returns:
  assumes "cfg_secs cfg \<le> 0" "\<not> w_done w" "\<not> w_err w" "w_units w \<le> w_ops w"
  shows "\<exists>w' x'. worker_loop now run cfg t0 w x = Some (w', x') \<and> wsteps cfg w w' \<and> w_done w' \<and>
    w_ops w' = w_ops w \<and> w_units w' \<le> w_ops w \<and> (\<not> w_err w' \<longrightarrow> w_units w' = w_ops w)"
  using assms(2-4)
proof (induction "nat (w_ops w - w_units w)" arbitrary: w x rule: less_induct)
  case less
  show ?case
  proof (cases "w_units w \<ge> w_ops w")
    case True
    then have "wstep cfg w [] (w\<lparr>w_done := True\<rparr>)" using assms(1) less.prems by (intro ops_done) auto
    then show ?thesis using True assms(1) less.prems by (subst worker_loop.simps) fastforce
  next
    case False
    obtain ok evs x1 where r: "run (w_units w + 1) x = (ok, evs, x1)" by (metis prod_cases3)
    have st: "wstep cfg w evs (after_run ok evs w)" using False less.prems by (intro iteration) auto
    show ?thesis
    proof (cases ok)
      case True
      let ?w = "after_run True evs w"
      have w: "w_ops ?w = w_ops w" "w_units ?w = w_units w + 1" "\<not> w_done ?w" "\<not> w_err ?w"
        using less.prems by (simp_all add: after_run_def Let_def)
      obtain w' x' where w': "worker_loop now run cfg t0 ?w x1 = Some (w', x')" "wsteps cfg ?w w'" "w_done w'"
        "w_ops w' = w_ops w" "w_units w' \<le> w_ops w" "\<not> w_err w' \<longrightarrow> w_units w' = w_ops w"
        using less.hyps [of ?w x1] w False by auto
      have "worker_loop now run cfg t0 w x = Some (w', x')"
        using False assms(1) r True w'(1) by (subst worker_loop.simps) simp
      moreover have "wsteps cfg w w'" using st True w'(2) by (metis (mono_tags, lifting) converse_rtranclp_into_rtranclp)
      ultimately show ?thesis using w' by blast
    next
      case err: False
      then have "worker_loop now run cfg t0 w x = Some (after_run False evs w, x1)"
        using False assms(1) r by (subst worker_loop.simps) simp
      then show ?thesis using st err less.prems by (fastforce simp: after_run_def Let_def)
    qed
  qed
qed

subsection \<open>Properties\<close>

text \<open>
  With a time bound a worker returns as well, if the time is up after finitely many readings of the clock: \<open>left\<close> bounds those still to
  come, and \<open>run()\<close>, which returns, does not add to them.
\<close>

lemma worker_timed_returns:
  fixes left :: "'x \<Rightarrow> nat"
  assumes secs: "cfg_secs cfg > 0"
    and now: "\<And>x t y. now x = (t, y) \<Longrightarrow> t - t0 \<ge> double_to_u64 (dmul (cfg_secs cfg) 1000000000) \<or> left y < left x"
    and run: "\<And>i x. left (snd (snd (run i x))) \<le> left x"
  shows "\<exists>w' x'. worker_loop now run cfg t0 w x = Some (w', x') \<and> w_done w'"
proof (induction "left x" arbitrary: w x rule: less_induct)
  case less
  obtain t y where n: "now x = (t, y)" by fastforce
  obtain ok evs z where r: "run (w_units w + 1) y = (ok, evs, z)" by (metis prod_cases3)
  show ?case
  proof (cases "t - t0 \<ge> double_to_u64 (dmul (cfg_secs cfg) 1000000000)")
    case True
    then show ?thesis using secs n by (subst worker_loop.simps) simp
  next
    case False
    then have lt: "left z < left x" using now [OF n] run [of "w_units w + 1" y] r by (auto intro: le_less_trans)
    show ?thesis
    proof (cases ok)
      case True
      then show ?thesis using less [OF lt, of "after_run True evs w"] secs n r False by (subst worker_loop.simps) simp
    next
      case err: False
      then show ?thesis using secs n r False by (subst worker_loop.simps) (simp add: after_run_def Let_def)
    qed
  qed
qed

text \<open>
  C32. A worker with a fixed number of operations returns, whatever \<open>run()\<close> does: after its share of iterations or
  at the first error, by steps of the step relation that stands for every schedule, and without an error it has done exactly its share.
\<close>

theorem worker_terminates:
  assumes "cfg_secs cfg \<le> 0" "0 \<le> cfg_ops cfg"
  shows "\<exists>w x'. worker_main now run open_ok cfg (new_worker cfg t) x = Some (w, x') \<and> wsteps cfg (new_worker cfg t) w \<and> w_done w \<and>
    w_units w \<le> share (cfg_ops cfg) (nat (run_threads cfg)) t \<and>
    (\<not> w_err w \<longrightarrow> w_units w = share (cfg_ops cfg) (nat (run_threads cfg)) t)"
proof -
  let ?w = "new_worker cfg t"
  have w: "\<not> w_done ?w" "\<not> w_err ?w" "w_units ?w = 0" "?w\<lparr>w_stats := stats_reset\<rparr> = ?w" by (simp_all add: new_worker_def Let_def)
  have s: "w_ops ?w = share (cfg_ops cfg) (nat (run_threads cfg)) t" "0 \<le> share (cfg_ops cfg) (nat (run_threads cfg)) t"
    using new_worker_share [OF assms] share_nonneg [OF assms(2)] run_threads_pos [of cfg] by simp_all
  obtain ok x1 where o1: "open_ok x = (ok, x1)" by fastforce
  obtain t0 x2 where n: "now x1 = (t0, x2)" by fastforce
  show ?thesis
  proof (cases ok)
    case True
    have m: "worker_main now run open_ok cfg ?w x = worker_loop now run cfg t0 ?w x2"
      by (simp add: worker_main_def o1 n True w Let_def)
    show ?thesis unfolding m using worker_loop_returns [OF assms(1) w(1,2), of now run t0 x2] s w(3) by auto
  next
    case False
    then have "worker_main now run open_ok cfg ?w x = Some (?w\<lparr>w_err := True, w_done := True\<rparr>, x1)"
      by (simp add: worker_main_def o1 w Let_def)
    moreover have "wstep cfg ?w [] (?w\<lparr>w_err := True, w_done := True\<rparr>)" using w by (intro not_loaded)
    ultimately show ?thesis using w(3) s(2) by fastforce
  qed
qed

text \<open>
  C30. The timed phase with a fixed number of operations, for every schedule of the threads: it ends after at most one step per
  operation and thread, no thread ever exceeds its share, shares differ by at most one, and when all threads have returned
  without an error the units of the cell are exactly the operations asked for.
\<close>

theorem timed_phase_runs_all_ops:
  assumes "phase cfg k hist ws" "cfg_secs cfg \<le> 0" "0 \<le> cfg_ops cfg"
  shows "int k \<le> cfg_ops cfg + run_threads cfg \<and>
    (\<forall>w \<in> set ws. w_units w \<le> cfg_ops cfg div run_threads cfg + 1) \<and>
    ((\<forall>w \<in> set ws. w_done w) \<and> pr_ok (timed_result ws wall eng) \<longrightarrow>
       pr_units (timed_result ws wall eng) = cfg_ops cfg \<and>
       (\<forall>w \<in> set ws. w_units w \<in> {cfg_ops cfg div run_threads cfg, cfg_ops cfg div run_threads cfg + 1}))"
proof -
  let ?n = "nat (run_threads cfg)"
  have n: "0 < ?n" "int ?n = run_threads cfg" using run_threads_pos [of cfg] by simp_all
  have ok: "worker_ok cfg i (ws ! i)" if "i < length ws" for i using phase_worker_ok [OF assms that] .
  have sh: "share (cfg_ops cfg) ?n i \<in> {cfg_ops cfg div run_threads cfg, cfg_ops cfg div run_threads cfg + 1}" for i
    using n(2) by (simp add: share_def)
  have "k \<le> sum_list (map steps_left (new_workers cfg))" using phase_steps_left [OF assms(1,2)] by simp
  then have "int k \<le> cfg_ops cfg + run_threads cfg" using new_workers_steps [OF assms(2,3)] by linarith
  moreover have "w_units w \<le> cfg_ops cfg div run_threads cfg + 1" if w: "w \<in> set ws" for w
  proof -
    obtain i where i: "i < length ws" "ws ! i = w" using w by (auto simp: in_set_conv_nth)
    show ?thesis using ok [OF i(1)] sh [of i] unfolding i(2) worker_ok_def by auto
  qed
  moreover have "pr_units (timed_result ws wall eng) = cfg_ops cfg \<and>
       (\<forall>w \<in> set ws. w_units w \<in> {cfg_ops cfg div run_threads cfg, cfg_ops cfg div run_threads cfg + 1})"
    if d: "\<forall>w \<in> set ws. w_done w" "pr_ok (timed_result ws wall eng)"
  proof -
    have u: "w_units (ws ! i) = share (cfg_ops cfg) ?n i" if "i < length ws" for i
      using ok [OF that] d that by (simp add: worker_ok_def timed_result_def)
    then have "map w_units ws = map (share (cfg_ops cfg) ?n) [0..<?n]"
      using phase_length [OF assms(1)] by (intro nth_equalityI) simp_all
    then have "pr_units (timed_result ws wall eng) = cfg_ops cfg" using sum_shares [OF n(1)] by (simp add: timed_result_def)
    moreover have "w_units w \<in> {cfg_ops cfg div run_threads cfg, cfg_ops cfg div run_threads cfg + 1}" if w: "w \<in> set ws" for w
    proof -
      obtain i where i: "i < length ws" "ws ! i = w" using w by (auto simp: in_set_conv_nth)
      show ?thesis using u [OF i(1)] sh [of i] unfolding i(2) by simp
    qed
    ultimately show ?thesis by blast
  qed
  ultimately show ?thesis by blast
qed

text \<open>
  C31. The counters of a cell do not depend on the schedule: for every interleaving of the threads the merged counters and
  histograms are those of one worker that saw all events in the order they happened.
\<close>

theorem timed_counters_schedule_free:
  assumes "phase cfg k hist ws"
  shows "pr_stats (timed_result ws wall eng) = fold note_event hist stats_reset"
proof -
  obtain es where es: "length es = length ws" "\<forall>i < length ws. w_stats (ws ! i) = fold note_event (es ! i) stats_reset"
    "mset hist = mset (concat es)" using phase_events [OF assms] by blast
  show ?thesis using merge_workers [OF es(1,2), of "[]"] fold_note_event_perm [OF es(3)] by (simp add: timed_result_def)
qed


text \<open>Three operations on two threads, and one iteration of the first thread.\<close>

definition small_run :: config where
  "small_run = (cl_cfg main_init)\<lparr>cfg_ops := 3, cfg_threads := 2\<rparr>"

lemma small_run_simps [simp]: "cfg_secs small_run = 0" "cfg_ops small_run = 3" "run_threads small_run = 2"
  by (simp_all add: small_run_def main_init_def run_threads_def)

lemma small_phase:
  "phase small_run 1 [Called OP_PUT 700 1] [after_run True [Called OP_PUT 700 1] (new_worker small_run 0), new_worker small_run 1]"
proof -
  have n: "new_workers small_run = [new_worker small_run 0, new_worker small_run 1]"
    by (simp add: new_workers_def upt_rec)
  have "wstep small_run (new_worker small_run 0) [Called OP_PUT 700 1] (after_run True [Called OP_PUT 700 1] (new_worker small_run 0))"
    by (rule iteration) (simp_all add: new_worker_def Let_def c_quot_def)
  then show ?thesis
    using phase.step [OF phase.start, of 0 small_run "[Called OP_PUT 700 1]" "after_run True [Called OP_PUT 700 1] (new_worker small_run 0)"] n by simp
qed

theorem worker_terminates_witness:
  "\<exists>w x'. worker_main (\<lambda>x. (0, x)) (\<lambda>i x. (True, [], x)) (\<lambda>x. (True, x)) small_run (new_worker small_run 0) () = Some (w, x') \<and>
    (\<not> w_err w \<longrightarrow> w_units w = 2)"
  using worker_terminates [of small_run "\<lambda>x. (0, x)" "\<lambda>i x. (True, [], x)" "\<lambda>x. (True, x)" 0 "()"] by (fastforce simp: share_def)

theorem timed_phase_runs_all_ops_witness:
  "int 1 \<le> cfg_ops small_run + run_threads small_run \<and> w_units (new_worker small_run 1) \<le> 2"
  using timed_phase_runs_all_ops [OF small_phase] by simp

theorem timed_counters_schedule_free_witness:
  "pr_stats (timed_result [after_run True [Called OP_PUT 700 1] (new_worker small_run 0), new_worker small_run 1] 1 ''skiplist'') =
     fold note_event [Called OP_PUT 700 1] stats_reset"
  by (rule timed_counters_schedule_free [OF small_phase])

end
