(* ===== verification/KB_Grid.thy ===== *)
theory KB_Grid
  imports KB_Run "HOL-Library.Sublist"
begin

text \<open>
  The grid of cells of a workload file, from \<open>src/src/main.c\<close>: \<open>read_workload_sweep\<close>, \<open>run_measurement\<close> and \<open>run_file\<close>.

  What a cell does to the machine is a parameter, the record of the two phases \<open>measure_setup\<close> and \<open>measure_timed\<close> and of
  closing the store, over any state of the world together with the reporters, which both phases may use for samples.
\<close>

subsection \<open>The code\<close>

text \<open>
  The \<open>sweep\<close> table a workload may return: its \<open>param\<close> when it is a string, the entries of \<open>values\<close> when it is a
  table, each the number there if any, and \<open>seed_per_value\<close> when it is a boolean.
\<close>

record lua_sweep =
  ls_param :: "string option"
  ls_values :: "int option list option"
  ls_seed_per_value :: "bool option"

text \<open>The values, the name of the parameter and whether the seeded data depend on the value. \<open>None\<close>: the file does not load.\<close>

fun sweep_values :: "int option list \<Rightarrow> nat \<Rightarrow> int list" where
  "sweep_values [] room = []"
| "sweep_values (v # vs) room =
     (if room = 0 then [] else (case v of Some n \<Rightarrow> n # sweep_values vs (room - 1) | None \<Rightarrow> sweep_values vs room))"

definition read_workload_sweep :: "lua_sweep option option \<Rightarrow> nat \<Rightarrow> int list \<times> string \<times> bool" where
  "read_workload_sweep wl mx =
     (case wl of
        Some (Some s) \<Rightarrow>
          (let param = (case ls_param s of Some p \<Rightarrow> snprintf 64 p | None \<Rightarrow> []);
               vals = (case ls_values s of Some vs \<Rightarrow> sweep_values vs mx | None \<Rightarrow> [])
           in (if param = [] then [] else vals, param, case ls_seed_per_value s of Some b \<Rightarrow> b | None \<Rightarrow> True))
      | _ \<Rightarrow> ([], [], True))"

text \<open>
  Setting up gives the store unless it failed, the name of the workload and the version of the engine as far as they were
  reached. A timed run gets its number and the engine's version.
\<close>

record ('x, 's) phases =
  ev_setup :: "config \<Rightarrow> reporter list \<times> 'x \<Rightarrow> 's option \<times> string option \<times> string option \<times> reporter list \<times> 'x"
  ev_timed :: "config \<Rightarrow> nat \<Rightarrow> string \<Rightarrow> 's \<Rightarrow> reporter list \<times> 'x \<Rightarrow> point_result \<times> 's \<times> reporter list \<times> 'x"
  ev_close :: "'s \<Rightarrow> 'x \<Rightarrow> 'x"

record 'x grid =
  gs_name :: string
  gs_rows :: "summary_row list"
  gs_reps :: "reporter list"
  gs_x :: 'x

abbreviation set_rx :: "reporter list \<times> 'x \<Rightarrow> 'x grid \<Rightarrow> 'x grid" where
  "set_rx rx g \<equiv> g\<lparr>gs_reps := fst rx, gs_x := snd rx\<rparr>"

definition version_text :: "string option \<Rightarrow> string" where
  "version_text v = (case v of Some s \<Rightarrow> s | None \<Rightarrow> [])"

definition failed_point :: "string option \<Rightarrow> point_result" where
  "failed_point v = \<lparr>pr_stats = stats_reset, pr_units = 0, pr_wall = 0, pr_engine = version_text v, pr_ok = False\<rparr>"

definition run_measurement :: "('x, 's) phases \<Rightarrow> config \<Rightarrow> nat \<Rightarrow> 'x grid \<Rightarrow> point_result \<times> 'x grid" where
  "run_measurement ev cfg run_no g =
     (case ev_setup ev cfg (gs_reps g, gs_x g) of (store, name, version, rx) \<Rightarrow>
        let g = (set_rx rx g)\<lparr>gs_name := (case name of Some n \<Rightarrow> n | None \<Rightarrow> ''(unnamed)'')\<rparr>
        in (case store of
              None \<Rightarrow> (failed_point version, g)
            | Some s \<Rightarrow>
                (case ev_timed ev cfg run_no (version_text version) s (gs_reps g, gs_x g) of (R, s, rx) \<Rightarrow>
                   (R, (set_rx rx g)\<lparr>gs_x := ev_close ev s (snd rx)\<rparr>))))"

text \<open>The repeats of a cell stop at the first that fails; \<open>r\<close> counts the ones before.\<close>

fun repeats :: "(nat \<Rightarrow> 'g \<Rightarrow> point_result \<times> 'g) \<Rightarrow> nat \<Rightarrow> nat \<Rightarrow> 'g \<Rightarrow> bool \<times> point_result list \<times> 'g" where
  "repeats run 0 r g = (True, [], g)"
| "repeats run (Suc n) r g =
     (case run (r + 1) g of (R, g) \<Rightarrow>
        if \<not> pr_ok R then (False, [R], g)
        else (case repeats run n (r + 1) g of (ok, Rs, g) \<Rightarrow> (ok, R # Rs, g)))"

definition finish_cell :: "config \<Rightarrow> bool \<times> point_result list \<times> 'x grid \<Rightarrow> 'x grid" where
  "finish_cell pc res =
     (case res of (ok, Rs, g) \<Rightarrow>
        if \<not> ok then g
        else (case summarize_point (gs_name g) Rs (cfg_threads pc) (cfg_sweep_param pc) (cfg_sweep_value pc) (gs_reps g) of
                (row, rp, reps) \<Rightarrow> g\<lparr>gs_rows := gs_rows g @ [row], gs_reps := reps\<rparr>))"

text \<open>A cell on its own store, and the cells that share one store.\<close>

definition fresh_cell :: "('x, 's) phases \<Rightarrow> nat \<Rightarrow> config \<Rightarrow> 'x grid \<Rightarrow> 'x grid" where
  "fresh_cell ev rep pc g = finish_cell pc (repeats (run_measurement ev pc) rep 0 g)"

definition timed_on :: "('x, 's) phases \<Rightarrow> string \<Rightarrow> config \<Rightarrow> nat \<Rightarrow> 's \<times> 'x grid \<Rightarrow> point_result \<times> 's \<times> 'x grid" where
  "timed_on ev version pc run_no sg =
     (case ev_timed ev pc run_no version (fst sg) (gs_reps (snd sg), gs_x (snd sg)) of (R, s, rx) \<Rightarrow> (R, s, set_rx rx (snd sg)))"

definition shared_cell :: "('x, 's) phases \<Rightarrow> string \<Rightarrow> nat \<Rightarrow> config \<Rightarrow> 's \<times> 'x grid \<Rightarrow> 's \<times> 'x grid" where
  "shared_cell ev version rep pc sg =
     (case repeats (timed_on ev version pc) rep 0 sg of (ok, Rs, s, g) \<Rightarrow> (s, finish_cell pc (ok, Rs, g)))"

definition seeded_cells :: "('x, 's) phases \<Rightarrow> nat \<Rightarrow> config \<Rightarrow> config list \<Rightarrow> 'x grid \<Rightarrow> 'x grid" where
  "seeded_cells ev rep sc pcs g =
     (case ev_setup ev sc (gs_reps g, gs_x g) of (store, name, version, rx) \<Rightarrow>
        let g = (set_rx rx g)\<lparr>gs_name := (case name of Some n \<Rightarrow> n | None \<Rightarrow> gs_name g)\<rparr>
        in (case store of
              None \<Rightarrow> g
            | Some s \<Rightarrow> (case fold (shared_cell ev (version_text version) rep) pcs (s, g) of (s, g) \<Rightarrow> g\<lparr>gs_x := ev_close ev s (gs_x g)\<rparr>)))"


text \<open>The configuration of a cell, and the cells of one engine in the three modes.\<close>

definition cell_config :: "config \<Rightarrow> string \<Rightarrow> string option \<Rightarrow> int \<Rightarrow> int \<Rightarrow> config" where
  "cell_config base eng sweep_param value threads =
     base\<lparr>cfg_backend := Some eng, cfg_threads := threads, cfg_sweep_param := sweep_param, cfg_sweep_value := value\<rparr>"

definition run_engine ::
  "('x, 's) phases \<Rightarrow> config \<Rightarrow> int list \<Rightarrow> nat \<Rightarrow> string option \<Rightarrow> int list \<Rightarrow> bool \<Rightarrow> string \<Rightarrow> 'x grid \<Rightarrow> 'x grid" where
  "run_engine ev base tlist rep sweep_param steps seed_per_value eng g =
     (let cell = cell_config base eng sweep_param; tmax = fold max (tl tlist) (hd tlist)
      in if cfg_seed_once base \<noteq> 0 \<and> sweep_param \<noteq> None \<and> \<not> seed_per_value then
           seeded_cells ev rep (cell (hd steps) tmax) (concat (map (\<lambda>v. map (cell v) tlist) steps)) g
         else if cfg_seed_once base \<noteq> 0 then
           fold (\<lambda>v. seeded_cells ev rep (cell v tmax) (map (cell v) tlist)) steps g
         else fold (\<lambda>t. fold (\<lambda>v. fresh_cell ev rep (cell v t)) steps) tlist g)"

text \<open>The file has its own copy of the formatter of the reporters.\<close>

definition main_fmt_ns :: "u64 \<Rightarrow> nat \<Rightarrow> string" where
  "main_fmt_ns ns n =
     snprintf n
       (if ns < 1000 then show_nat (unat ns) @ '' ns''
        else if ns < 1000000 then fmt_fixed 2 (ddiv (u64_to_double ns) 1000) @ '' us''
        else if ns < 1000000000 then fmt_fixed 2 (ddiv (u64_to_double ns) 1000000) @ '' ms''
        else fmt_fixed 2 (ddiv (u64_to_double ns) 1000000000) @ '' s'')"

lemma main_fmt_ns_same: "main_fmt_ns = fmt_ns"
  by (simp add: fun_eq_iff main_fmt_ns_def fmt_ns_def word_less_nat_alt)

text \<open>The table printed at the end when there is more than one cell.\<close>

definition summary_table :: "string \<Rightarrow> string option \<Rightarrow> summary_row list \<Rightarrow> string" where
  "summary_table name sweep_param rows =
     nl @ name @ '': sweep summary (medians)'' @ nl @
     pad_right 12 ''engine'' @ '' '' @ pad_left 8 ''threads'' @ '' '' @
     (case sweep_param of Some p \<Rightarrow> pad_left 8 p @ '' '' | None \<Rightarrow> []) @
     pad_left 14 ''wu/sec'' @ '' '' @ pad_left 14 ''ops/sec'' @ '' '' @ pad_left 10 ''p50'' @ '' '' @ pad_left 10 ''p99'' @ nl @
     concat (map (\<lambda>r. pad_right 12 (sr_engine r) @ '' '' @ pad_left 8 (show_int (sr_threads r)) @ '' '' @
       (case sweep_param of Some p \<Rightarrow> pad_left 8 (show_int (sr_sweep_value r)) @ '' '' | None \<Rightarrow> []) @
       pad_left 14 (fmt_fixed 0 (sr_wu_s r)) @ '' '' @ pad_left 14 (fmt_fixed 0 (sr_ops_s r)) @ '' '' @
       pad_left 10 (main_fmt_ns (double_to_u64 (sr_p50 r)) 32) @ '' '' @ pad_left 10 (main_fmt_ns (double_to_u64 (sr_p99 r)) 32) @ nl) rows)"

definition run_file ::
  "('x, 's) phases \<Rightarrow> lua_sweep option option \<Rightarrow> config \<Rightarrow> string list \<Rightarrow> int list \<Rightarrow> nat \<Rightarrow> reporter list \<times> 'x \<Rightarrow>
   summary_row list \<times> string \<times> reporter list \<times> 'x" where
  "run_file ev wl base engines tlist rep rx =
     (let (svals, sparam, seed_per_value) = read_workload_sweep wl 64;
          sweep_param = (if length svals > 0 then Some sparam else None);
          steps = (if length svals > 0 then svals else [0]);
          npoints = length engines * length tlist * length steps;
          g = fold (run_engine ev base tlist rep sweep_param steps seed_per_value) engines
                \<lparr>gs_name = ''(unnamed)'', gs_rows = [], gs_reps = fst rx, gs_x = snd rx\<rparr>
      in (gs_rows g, if npoints > 1 \<and> gs_rows g \<noteq> [] then summary_table (gs_name g) sweep_param (gs_rows g) else [], gs_reps g, gs_x g))"

subsection \<open>The cells of a grid\<close>

text \<open>The cells an engine is measured at, as thread count and swept value, in the order in which they run.\<close>

definition engine_cells :: "config \<Rightarrow> int list \<Rightarrow> int list \<Rightarrow> (int \<times> int) list" where
  "engine_cells base tlist steps =
     (if cfg_seed_once base \<noteq> 0 then concat (map (\<lambda>v. map (\<lambda>t. (t, v)) tlist) steps)
      else concat (map (\<lambda>t. map (\<lambda>v. (t, v)) steps) tlist))"

lemma sweep_values_length: "length (sweep_values vs n) \<le> n"
  by (induction vs n rule: sweep_values.induct) (auto split: option.split simp: Suc_le_eq)

lemma sweep_length: "length (fst (read_workload_sweep wl n)) \<le> n"
  using sweep_values_length by (auto simp: read_workload_sweep_def Let_def split: option.split)

lemma length_engine_cells: "length (engine_cells base tlist steps) = length tlist * length steps"
  by (simp add: engine_cells_def length_concat comp_def sum_list_triv)

abbreviation row_cell :: "summary_row \<Rightarrow> int \<times> int" where "row_cell r \<equiv> (sr_threads r, sr_sweep_value r)"
abbreviation cfg_cell :: "config \<Rightarrow> int \<times> int" where "cfg_cell c \<equiv> (cfg_threads c, cfg_sweep_value c)"

text \<open>Running some cells adds rows for a subsequence of them, for all of them when every phase succeeds.\<close>

definition adds_rows :: "bool \<Rightarrow> (int \<times> int) list \<Rightarrow> 'x grid \<Rightarrow> 'x grid \<Rightarrow> bool" where
  "adds_rows all cells g g' \<longleftrightarrow>
     (\<exists>rows. gs_rows g' = gs_rows g @ rows \<and> subseq (map row_cell rows) cells \<and> (all \<longrightarrow> map row_cell rows = cells))"

definition phases_ok :: "('x, 's) phases \<Rightarrow> bool" where
  "phases_ok ev \<longleftrightarrow> (\<forall>cfg rx. fst (ev_setup ev cfg rx) \<noteq> None) \<and> (\<forall>cfg n v s rx. pr_ok (fst (ev_timed ev cfg n v s rx)))"

lemma adds_none: "gs_rows g' = gs_rows g \<Longrightarrow> \<not> all \<or> cells = [] \<Longrightarrow> adds_rows all cells g g'"
  by (auto simp: adds_rows_def intro!: exI [of _ "[]"])

lemma adds_trans: "adds_rows all c g g1 \<Longrightarrow> adds_rows all c' g1 g2 \<Longrightarrow> adds_rows all (c @ c') g g2"
proof -
  assume "adds_rows all c g g1" "adds_rows all c' g1 g2"
  then obtain rows rows' where "gs_rows g1 = gs_rows g @ rows" "subseq (map row_cell rows) c" "all \<longrightarrow> map row_cell rows = c"
    "gs_rows g2 = gs_rows g1 @ rows'" "subseq (map row_cell rows') c'" "all \<longrightarrow> map row_cell rows' = c'"
    by (auto simp: adds_rows_def)
  then show ?thesis unfolding adds_rows_def by (intro exI [of _ "rows @ rows'"]) (simp add: list_emb_append_mono)
qed

lemma adds_fold:
  assumes "\<And>x g. x \<in> set xs \<Longrightarrow> adds_rows all (cells x) g (f x g)"
  shows "adds_rows all (concat (map cells xs)) g (fold f xs g)"
  using assms
proof (induction xs arbitrary: g)
  case (Cons x xs)
  then show ?case using adds_trans [of all "cells x" g "f x g" "concat (map cells xs)"] by simp
qed (simp add: adds_none)

lemma finish_cell_adds:
  assumes "all \<longrightarrow> ok"
  shows "adds_rows all [cfg_cell pc] g (finish_cell pc (ok, Rs, g))"
proof (cases ok)
  case True
  obtain row rp reps where s: "summarize_point (gs_name g) Rs (cfg_threads pc) (cfg_sweep_param pc) (cfg_sweep_value pc) (gs_reps g) = (row, rp, reps)"
    by (metis prod_cases3)
  have "row_cell row = cfg_cell pc" using summarize_point_fields(13) [OF s] by simp
  then show ?thesis using True s by (auto simp: finish_cell_def adds_rows_def)
next
  case False
  then show ?thesis using assms by (auto simp: finish_cell_def intro!: adds_none)
qed


lemma repeats_keep:
  assumes "\<And>n g. P (snd (run n g)) = (P g :: 'r)"
  shows "P (snd (snd (repeats run n r g))) = P g"
proof (induction n arbitrary: r g)
  case (Suc n)
  obtain R g1 where r: "run (Suc r) g = (R, g1)" by fastforce
  then have "P g1 = P g" using assms [of "Suc r" g] by simp
  then show ?case using Suc [of "Suc r" g1] by (auto simp: r split: prod.splits)
qed simp

lemma repeats_all_ok:
  assumes "\<And>n g. pr_ok (fst (run n g))"
  shows "fst (repeats run n r g)"
proof (induction n arbitrary: r g)
  case (Suc n)
  obtain R g1 where r: "run (Suc r) g = (R, g1)" by fastforce
  then have "pr_ok R" using assms [of "Suc r" g] by simp
  then show ?case using Suc [of "Suc r" g1] by (auto simp: r split: prod.splits)
qed simp

lemma run_measurement_rows: "gs_rows (snd (run_measurement ev cfg n g)) = gs_rows g"
  by (simp add: run_measurement_def Let_def split: prod.split option.split)

lemma run_measurement_ok: "phases_ok ev \<Longrightarrow> pr_ok (fst (run_measurement ev cfg n g))"
proof -
  assume ok: "phases_ok ev"
  obtain store name version rx where s: "ev_setup ev cfg (gs_reps g, gs_x g) = (store, name, version, rx)" by (metis prod_cases4)
  have "store \<noteq> None" using ok s unfolding phases_ok_def by (metis fst_conv)
  then obtain st where st: "store = Some st" by blast
  obtain R s' rx' where t: "ev_timed ev cfg n (version_text version) st rx = (R, s', rx')" by (metis prod_cases3)
  have "pr_ok R" using ok t unfolding phases_ok_def by (metis fst_conv)
  then show ?thesis by (simp add: run_measurement_def s st t Let_def)
qed

lemma timed_on_facts:
  "gs_rows (snd (snd (timed_on ev v pc n sg))) = gs_rows (snd sg)" "phases_ok ev \<Longrightarrow> pr_ok (fst (timed_on ev v pc n sg))"
proof -
  obtain R s' rx' where t: "ev_timed ev pc n v (fst sg) (gs_reps (snd sg), gs_x (snd sg)) = (R, s', rx')" by (metis prod_cases3)
  show "gs_rows (snd (snd (timed_on ev v pc n sg))) = gs_rows (snd sg)" by (simp add: timed_on_def t)
  assume "phases_ok ev"
  then show "pr_ok (fst (timed_on ev v pc n sg))" using t unfolding phases_ok_def by (metis (no_types, lifting) fst_conv timed_on_def case_prod_conv)
qed

lemma adds_from: "gs_rows g1 = gs_rows g \<Longrightarrow> adds_rows all cells g1 g2 \<Longrightarrow> adds_rows all cells g g2"
  by (simp add: adds_rows_def)

lemma fresh_cell_adds: "adds_rows (phases_ok ev) [cfg_cell pc] g (fresh_cell ev rep pc g)"
proof -
  obtain ok Rs g1 where r: "repeats (run_measurement ev pc) rep 0 g = (ok, Rs, g1)" by (metis prod_cases3)
  have "gs_rows g1 = gs_rows g" using repeats_keep [of gs_rows "run_measurement ev pc" rep 0 g] r by (simp add: run_measurement_rows)
  moreover have "phases_ok ev \<longrightarrow> ok" using repeats_all_ok [of "run_measurement ev pc" rep 0 g] run_measurement_ok [of ev pc] r by auto
  ultimately show ?thesis
    using adds_from [OF _ finish_cell_adds [of "phases_ok ev" ok pc g1 Rs]] r by (simp add: fresh_cell_def)
qed

lemma shared_cell_adds: "adds_rows (phases_ok ev) [cfg_cell pc] (snd sg) (snd (shared_cell ev v rep pc sg))"
proof -
  obtain ok Rs s1 g1 where r: "repeats (timed_on ev v pc) rep 0 sg = (ok, Rs, s1, g1)" by (metis prod_cases4)
  have "gs_rows g1 = gs_rows (snd sg)"
    using repeats_keep [of "\<lambda>sg. gs_rows (snd sg)" "timed_on ev v pc" rep 0 sg] r by (simp add: timed_on_facts(1))
  moreover have "phases_ok ev \<longrightarrow> ok" using repeats_all_ok [of "timed_on ev v pc" rep 0 sg] timed_on_facts(2) [of ev v pc] r by auto
  ultimately show ?thesis
    using adds_from [OF _ finish_cell_adds [of "phases_ok ev" ok pc g1 Rs]] r by (simp add: shared_cell_def)
qed

lemma shared_cells_add: "adds_rows (phases_ok ev) (map cfg_cell pcs) (snd sg) (snd (fold (shared_cell ev v rep) pcs sg))"
proof (induction pcs arbitrary: sg)
  case (Cons pc pcs)
  show ?case
    using adds_trans [OF shared_cell_adds [of ev pc sg v rep] Cons.IH [of "shared_cell ev v rep pc sg"]] by simp
qed (simp add: adds_none)

lemma seeded_cells_add: "adds_rows (phases_ok ev) (map cfg_cell pcs) g (seeded_cells ev rep sc pcs g)"
proof -
  obtain store name version rx where s: "ev_setup ev sc (gs_reps g, gs_x g) = (store, name, version, rx)" by (metis prod_cases4)
  define g1 where "g1 = (set_rx rx g)\<lparr>gs_name := (case name of Some n \<Rightarrow> n | None \<Rightarrow> gs_name g)\<rparr>"
  have g1: "gs_rows g1 = gs_rows g" by (simp add: g1_def)
  show ?thesis
  proof (cases store)
    case None
    then have "\<not> phases_ok ev" using s unfolding phases_ok_def by (metis fst_conv)
    then show ?thesis using None g1 by (intro adds_none) (simp_all add: seeded_cells_def s g1_def Let_def)
  next
    case (Some st)
    obtain s2 g2 where f: "fold (shared_cell ev (version_text version) rep) pcs (st, g1) = (s2, g2)" by fastforce
    have "seeded_cells ev rep sc pcs g = g2\<lparr>gs_x := ev_close ev s2 (gs_x g2)\<rparr>"
      using f by (simp add: seeded_cells_def s Some g1_def Let_def)
    moreover have "adds_rows (phases_ok ev) (map cfg_cell pcs) g1 g2"
      using shared_cells_add [of ev pcs "(st, g1)" "version_text version" rep] f by simp
    ultimately show ?thesis using g1 by (simp add: adds_rows_def)
  qed
qed

lemma cell_config_cell [simp]: "cfg_cell (cell_config base eng p v t) = (t, v)"
  by (simp add: cell_config_def)

lemma run_engine_adds:
  "adds_rows (phases_ok ev) (engine_cells base tlist steps) g (run_engine ev base tlist rep p steps spv eng g)"
proof -
  have pcs: "map cfg_cell (map (cell_config base eng p v) tlist) = map (\<lambda>t. (t, v)) tlist" for v by (simp add: comp_def)
  have all: "map cfg_cell (concat (map (\<lambda>v. map (cell_config base eng p v) tlist) steps)) = concat (map (\<lambda>v. map (\<lambda>t. (t, v)) tlist) steps)"
    by (simp add: map_concat comp_def)
  have "adds_rows (phases_ok ev) (concat (map (\<lambda>t. map (\<lambda>v. (t, v)) steps) tlist)) g
      (fold (\<lambda>t. fold (\<lambda>v. fresh_cell ev rep (cell_config base eng p v t)) steps) tlist g)"
  proof (rule adds_fold)
    fix t g
    show "adds_rows (phases_ok ev) (map (\<lambda>v. (t, v)) steps) g (fold (\<lambda>v. fresh_cell ev rep (cell_config base eng p v t)) steps g)"
      using adds_fold [of steps "phases_ok ev" "\<lambda>v. [(t, v)]" "\<lambda>v. fresh_cell ev rep (cell_config base eng p v t)" g]
        fresh_cell_adds [of ev "cell_config base eng p _ t"] by simp
  qed
  moreover have "adds_rows (phases_ok ev) (concat (map (\<lambda>v. map (\<lambda>t. (t, v)) tlist) steps)) g
      (fold (\<lambda>v. seeded_cells ev rep (cell_config base eng p v m) (map (cell_config base eng p v) tlist)) steps g)" for m
    by (rule adds_fold) (metis seeded_cells_add pcs)
  ultimately show ?thesis
    using seeded_cells_add [of ev "concat (map (\<lambda>v. map (cell_config base eng p v) tlist) steps)" g rep] all
    by (auto simp: run_engine_def engine_cells_def Let_def)
qed


subsection \<open>Stores are closed\<close>

text \<open>\<open>cnt\<close> counts the open stores of a world: setting up opens one when it succeeds, closing closes one.\<close>

definition counts_stores :: "('x, 's) phases \<Rightarrow> ('x \<Rightarrow> int) \<Rightarrow> bool" where
  "counts_stores ev cnt \<longleftrightarrow>
     (\<forall>cfg rx. case ev_setup ev cfg rx of (store, name, version, rx') \<Rightarrow> cnt (snd rx') = cnt (snd rx) + (if store = None then 0 else 1)) \<and>
     (\<forall>cfg n v s rx. case ev_timed ev cfg n v s rx of (R, s', rx') \<Rightarrow> cnt (snd rx') = cnt (snd rx)) \<and>
     (\<forall>s x. cnt (ev_close ev s x) = cnt x - 1)"

lemma counts_storesD:
  assumes "counts_stores ev cnt"
  shows "ev_setup ev cfg rx = (store, name, version, rx') \<Longrightarrow> cnt (snd rx') = cnt (snd rx) + (if store = None then 0 else 1)"
    "ev_timed ev cfg n v s rx = (R, s', rx') \<Longrightarrow> cnt (snd rx') = cnt (snd rx)" "cnt (ev_close ev s x) = cnt x - 1"
proof -
  note c = assms [unfolded counts_stores_def]
  show "ev_setup ev cfg rx = (store, name, version, rx') \<Longrightarrow> cnt (snd rx') = cnt (snd rx) + (if store = None then 0 else 1)"
    using c [THEN conjunct1, THEN spec [of _ cfg], THEN spec [of _ rx]] by simp
  show "ev_timed ev cfg n v s rx = (R, s', rx') \<Longrightarrow> cnt (snd rx') = cnt (snd rx)"
    using c [THEN conjunct2, THEN conjunct1, THEN spec [of _ cfg], THEN spec [of _ n], THEN spec [of _ v], THEN spec [of _ s], THEN spec [of _ rx]]
    by simp
  show "cnt (ev_close ev s x) = cnt x - 1" using c by blast
qed

lemma finish_cell_x [simp]: "gs_x (finish_cell pc (ok, Rs, g)) = gs_x g"
  by (simp add: finish_cell_def split: prod.split)

lemma fold_keep: "(\<And>x g. P (f x g) = P g) \<Longrightarrow> P (fold f xs g) = P g"
  by (induction xs arbitrary: g) simp_all

lemma run_measurement_open:
  assumes cs: "counts_stores ev cnt"
  shows "cnt (gs_x (snd (run_measurement ev cfg n g))) = cnt (gs_x g)"
proof -
  obtain store name version rx where s: "ev_setup ev cfg (gs_reps g, gs_x g) = (store, name, version, rx)" by (metis prod_cases4)
  show ?thesis
  proof (cases store)
    case None
    then show ?thesis using counts_storesD(1) [OF cs s] by (simp add: run_measurement_def s Let_def)
  next
    case (Some st)
    obtain R s' rx' where t: "ev_timed ev cfg n (version_text version) st rx = (R, s', rx')" by (metis prod_cases3)
    show ?thesis using counts_storesD(1) [OF cs s] counts_storesD(2) [OF cs t] counts_storesD(3) [OF cs]
      by (simp add: run_measurement_def s t Some Let_def)
  qed
qed

lemma timed_on_open:
  assumes cs: "counts_stores ev cnt"
  shows "cnt (gs_x (snd (snd (timed_on ev v pc n sg)))) = cnt (gs_x (snd sg))"
proof -
  obtain R s' rx' where t: "ev_timed ev pc n v (fst sg) (gs_reps (snd sg), gs_x (snd sg)) = (R, s', rx')" by (metis prod_cases3)
  show ?thesis using counts_storesD(2) [OF cs t] by (simp add: timed_on_def t)
qed

lemma fresh_cell_open:
  assumes cs: "counts_stores ev cnt"
  shows "cnt (gs_x (fresh_cell ev rep pc g)) = cnt (gs_x g)"
proof -
  obtain ok Rs g1 where r: "repeats (run_measurement ev pc) rep 0 g = (ok, Rs, g1)" by (metis prod_cases3)
  show ?thesis using repeats_keep [of "\<lambda>g. cnt (gs_x g)" "run_measurement ev pc" rep 0 g] r
    by (simp add: run_measurement_open [OF cs] fresh_cell_def)
qed

lemma shared_cell_open:
  assumes cs: "counts_stores ev cnt"
  shows "cnt (gs_x (snd (shared_cell ev v rep pc sg))) = cnt (gs_x (snd sg))"
proof -
  obtain ok Rs s1 g1 where r: "repeats (timed_on ev v pc) rep 0 sg = (ok, Rs, s1, g1)" by (metis prod_cases4)
  show ?thesis using repeats_keep [of "\<lambda>sg. cnt (gs_x (snd sg))" "timed_on ev v pc" rep 0 sg] r
    by (simp add: timed_on_open [OF cs] shared_cell_def)
qed

lemma seeded_cells_open:
  assumes cs: "counts_stores ev cnt"
  shows "cnt (gs_x (seeded_cells ev rep sc pcs g)) = cnt (gs_x g)"
proof -
  obtain store name version rx where s: "ev_setup ev sc (gs_reps g, gs_x g) = (store, name, version, rx)" by (metis prod_cases4)
  show ?thesis
  proof (cases store)
    case None
    then show ?thesis using counts_storesD(1) [OF cs s] by (simp add: seeded_cells_def s Let_def)
  next
    case (Some st)
    define g1 where "g1 = (set_rx rx g)\<lparr>gs_name := (case name of Some n \<Rightarrow> n | None \<Rightarrow> gs_name g)\<rparr>"
    obtain s2 g2 where f: "fold (shared_cell ev (version_text version) rep) pcs (st, g1) = (s2, g2)" by fastforce
    have "cnt (gs_x g2) = cnt (gs_x g1)"
      using fold_keep [where f = "shared_cell ev (version_text version) rep" and xs = pcs and g = "(st, g1)" and P = "\<lambda>sg. cnt (gs_x (snd sg))", OF shared_cell_open [OF cs]] f by simp
    then show ?thesis using counts_storesD(1) [OF cs s] counts_storesD(3) [OF cs] f
      by (simp add: seeded_cells_def s Some g1_def Let_def)
  qed
qed

lemma run_engine_open:
  assumes cs: "counts_stores ev cnt"
  shows "cnt (gs_x (run_engine ev base tlist rep p steps spv eng g)) = cnt (gs_x g)"
  unfolding run_engine_def Let_def
  by (auto simp: seeded_cells_open [OF cs] intro!: fold_keep [of "\<lambda>g. cnt (gs_x g)"] fresh_cell_open [OF cs])

lemma run_file_open:
  assumes "counts_stores ev cnt" and "run_file ev wl base engines tlist rep (reps, x) = (rows, out, reps', x')"
  shows "cnt x' = cnt x"
proof -
  obtain svals sparam spv where r: "read_workload_sweep wl 64 = (svals, sparam, spv)" by (metis prod_cases3)
  let ?p = "if length svals > 0 then Some sparam else None" and ?steps = "if length svals > 0 then svals else [0]"
  let ?g0 = "\<lparr>gs_name = ''(unnamed)'', gs_rows = [], gs_reps = reps, gs_x = x\<rparr>"
  have "x' = gs_x (fold (run_engine ev base tlist rep ?p ?steps spv) engines ?g0)"
    using assms(2) by (simp add: run_file_def r Let_def)
  then show ?thesis
    using fold_keep [where P = "\<lambda>g. cnt (gs_x g)" and f = "run_engine ev base tlist rep ?p ?steps spv" and xs = engines and g = ?g0,
        OF run_engine_open [OF assms(1)]] by simp
qed

subsection \<open>Properties\<close>


text \<open>Two engines, two thread counts and a sweep of two values, in a world that only counts open stores.\<close>

definition counting_phases :: "(int, unit) phases" where
  "counting_phases =
     \<lparr>ev_setup = (\<lambda>cfg (reps, x). (Some (), Some ''w'', Some ''v'', reps, x + 1)),
      ev_timed = (\<lambda>cfg n v s rx. (\<lparr>pr_stats = stats_reset, pr_units = 1, pr_wall = 1, pr_engine = v, pr_ok = True\<rparr>, s, rx)),
      ev_close = (\<lambda>s x. x - 1)\<rparr>"

lemma counting_phases_ok: "phases_ok counting_phases" "counts_stores counting_phases (\<lambda>x. x)"
  by (auto simp: phases_ok_def counts_stores_def counting_phases_def)

definition sample_sweep :: "lua_sweep option option" where
  "sample_sweep = Some (Some \<lparr>ls_param = Some ''size'', ls_values = Some [Some 10, None, Some 20], ls_seed_per_value = None\<rparr>)"


end
