(* ===== verification/KB_Workload.thy ===== *)
theory KB_Workload
  imports KB_Grid
begin

text \<open>
  Opening a workload file in a Lua interpreter: \<open>kvlua_register\<close> and \<open>ctx_from\<close> of \<open>src/src/kvlua.c\<close>, \<open>open_workload\<close> of
  \<open>src/src/main.c\<close>, and its four callers there: the set-up of a store (name and \<open>load\<close>), the sweep table, a seeding thread and a worker
  thread.

  The Lua library is the record \<open>workload_api\<close>, a parameter: an interpreter is a value of type \<open>'l\<close>, a Lua value is a \<open>'v\<close>, the
  address of a context is a \<open>'p\<close>, and the world \<open>'x\<close> is what interpreters and files live in. Running the top level of the file is
  \<open>wl_dofile\<close>, which returns a message or the value left on the stack, if any. Reading a field does not run code. \<open>lua_counts\<close> and
  \<open>lua_registry\<close> state what the Lua manual promises of these calls. Pinning a thread (\<open>KB_Affinity\<close>) decides where it runs and nothing here.
\<close>

subsection \<open>The code\<close>

record ('l, 'v, 'p, 'x) workload_api =
  wl_newstate :: "'x \<Rightarrow> 'l \<times> 'x"
  wl_openlibs :: "'l \<Rightarrow> 'l"
  wl_dostring :: "string \<Rightarrow> 'l \<Rightarrow> 'l"
  wl_setreg :: "string \<Rightarrow> 'p \<Rightarrow> 'l \<Rightarrow> 'l"
  wl_getreg :: "string \<Rightarrow> 'l \<Rightarrow> 'p option"
  wl_newlib :: "string list \<Rightarrow> string \<Rightarrow> 'l \<Rightarrow> 'l"
  wl_dofile :: "string \<Rightarrow> 'l \<Rightarrow> 'x \<Rightarrow> (string + 'v option) \<times> 'l \<times> 'x"
  wl_istable :: "'v \<Rightarrow> bool"
  wl_isfunction :: "'v \<Rightarrow> bool"
  wl_isnumber :: "'v \<Rightarrow> bool"
  wl_tostring :: "'v \<Rightarrow> string option"
  wl_tointeger :: "'v \<Rightarrow> int"
  wl_toboolean :: "'v \<Rightarrow> bool option"
  wl_len :: "'v \<Rightarrow> int"
  wl_geti :: "'v \<Rightarrow> int \<Rightarrow> 'v"
  wl_getfield :: "'v \<Rightarrow> string \<Rightarrow> 'v"
  wl_close :: "'l \<Rightarrow> 'x \<Rightarrow> 'x"

text \<open>The address of the static variable is a key of its own.\<close>

abbreviation KVLUA_CTX_KEY :: string where "KVLUA_CTX_KEY \<equiv> ''KVLUA_CTX_KEY''"

definition kv_funcs :: "string list" where
  "kv_funcs = [''put'', ''get'', ''del'', ''range'', ''scan'', ''mget'', ''mput'', ''mdel'']"

definition kvlua_register :: "('l, 'v, 'p, 'x) workload_api \<Rightarrow> 'p \<Rightarrow> 'l \<Rightarrow> 'l" where
  "kvlua_register api kc L = wl_newlib api kv_funcs ''kv'' (wl_setreg api KVLUA_CTX_KEY kc L)"

definition ctx_from :: "('l, 'v, 'p, 'x) workload_api \<Rightarrow> 'l \<Rightarrow> 'p option" where
  "ctx_from api L = wl_getreg api KVLUA_CTX_KEY L"

definition open_workload :: "('l, 'v, 'p, 'x) workload_api \<Rightarrow> string \<Rightarrow> 'p \<Rightarrow> u32 \<Rightarrow> 'x \<Rightarrow> (string + 'l \<times> 'v) \<times> 'x" where
  "open_workload api path kc seed x =
     (case wl_newstate api x of (L, x) \<Rightarrow>
        let seedcmd = snprintf 64 (''math.randomseed('' @ show_nat (unat seed) @ '')'');
            L = kvlua_register api kc (wl_dostring api seedcmd (wl_openlibs api L))
        in case wl_dofile api path L x of
             (Inl msg, L, x) \<Rightarrow> (Inl (''error loading '' @ path @ '': '' @ msg @ nl), wl_close api L x)
           | (Inr None, L, x) \<Rightarrow> (Inl (path @ '': workload must `return` a table'' @ nl), wl_close api L x)
           | (Inr (Some v), L, x) \<Rightarrow>
               if wl_istable api v then (Inr (L, v), x)
               else (Inl (path @ '': workload must `return` a table'' @ nl), wl_close api L x))"

text \<open>\<open>measure_setup\<close> reads the name, if it is a string, and whether there is a \<open>load\<close> function.\<close>

definition workload_info :: "('l, 'v, 'p, 'x) workload_api \<Rightarrow> string \<Rightarrow> 'p \<Rightarrow> u32 \<Rightarrow> 'x \<Rightarrow> (string option \<times> bool) option \<times> 'x" where
  "workload_info api path kc seed x =
     (case open_workload api path kc seed x of
        (Inl _, x) \<Rightarrow> (None, x)
      | (Inr (L, v), x) \<Rightarrow>
          (Some (map_option c_str (wl_tostring api (wl_getfield api v ''name'')), wl_isfunction api (wl_getfield api v ''load'')),
           wl_close api L x))"

text \<open>What \<open>read_workload_sweep\<close> reads from the file. An entry of \<open>values\<close> that is not a number is \<open>None\<close>.\<close>

definition workload_sweep :: "('l, 'v, 'p, 'x) workload_api \<Rightarrow> string \<Rightarrow> 'p \<Rightarrow> u32 \<Rightarrow> 'x \<Rightarrow> lua_sweep option option \<times> 'x" where
  "workload_sweep api path kc seed x =
     (case open_workload api path kc seed x of
        (Inl _, x) \<Rightarrow> (None, x)
      | (Inr (L, v), x) \<Rightarrow>
          (let sw = wl_getfield api v ''sweep''; vals = wl_getfield api sw ''values''
           in (Some (if wl_istable api sw
                     then Some \<lparr>ls_param = map_option c_str (wl_tostring api (wl_getfield api sw ''param'')),
                                ls_values = (if wl_istable api vals
                                             then Some (map (\<lambda>i. if wl_isnumber api (wl_geti api vals i)
                                                                 then Some (wl_tointeger api (wl_geti api vals i)) else None)
                                                          [1..c_int (wl_len api vals)])
                                             else None),
                                ls_seed_per_value = wl_toboolean api (wl_getfield api sw ''seed_per_value'')\<rparr>
                     else None),
               wl_close api L x)))"

text \<open>A seeding thread.\<close>

record load_worker =
  lw_tid :: int
  lw_nthreads :: int
  lw_seed :: u32
  lw_ctx :: "string \<rightharpoonup> int"

definition seed_threads :: "config \<Rightarrow> int" where
  "seed_threads cfg = (if cfg_seed_threads cfg > 0 then cfg_seed_threads cfg else run_threads cfg)"

definition load_workers :: "config \<Rightarrow> load_worker list" where
  "load_workers cfg =
     map (\<lambda>t. \<lparr>lw_tid = int t, lw_nthreads = seed_threads cfg, lw_seed = cfg_seed cfg + of_nat t,
              lw_ctx = make_ctx cfg (int t) (seed_threads cfg)\<rparr>) [0..<nat (seed_threads cfg)]"

text \<open>The counters it leaves and whether it failed. Calling \<open>load\<close> tells whether it succeeded, with the events it caused.\<close>

definition load_worker_main ::
  "('l, 'v, 'p, 'x) workload_api \<Rightarrow> ('l \<Rightarrow> 'v \<Rightarrow> (string \<rightharpoonup> int) \<Rightarrow> 'x \<Rightarrow> bool \<times> stat_event list \<times> 'x) \<Rightarrow> string \<Rightarrow> 'p \<Rightarrow>
   load_worker \<Rightarrow> 'x \<Rightarrow> op_stats \<times> bool \<times> 'x" where
  "load_worker_main api call_load path kc lw x =
     (case open_workload api path kc (lw_seed lw) x of
        (Inl _, x) \<Rightarrow> (stats_reset, True, x)
      | (Inr (L, v), x) \<Rightarrow>
          (let f = wl_getfield api v ''load''
           in if wl_isfunction api f
              then (case call_load L f (lw_ctx lw) x of (ok, evs, x) \<Rightarrow> (fold note_event evs stats_reset, \<not> ok, wl_close api L x))
              else (stats_reset, False, wl_close api L x)))"

text \<open>A worker thread, around the loop \<open>worker_main\<close> of \<open>KB_Run\<close>. Without \<open>run()\<close> it fails like a file that does not load.\<close>

definition worker_thread ::
  "('l, 'v, 'p, 'x) workload_api \<Rightarrow> ('x \<Rightarrow> u64 \<times> 'x) \<Rightarrow> ('l \<Rightarrow> 'v \<Rightarrow> int \<Rightarrow> 'x \<Rightarrow> bool \<times> stat_event list \<times> 'x) \<Rightarrow> string \<Rightarrow> 'p \<Rightarrow>
   config \<Rightarrow> worker \<Rightarrow> 'x \<Rightarrow> (worker \<times> 'x) option" where
  "worker_thread api now call_run path kc cfg w x =
     (case open_workload api path kc (w_seed w) x of
        (Inl _, x) \<Rightarrow> worker_main now (\<lambda>_ x. (False, [], x)) (\<lambda>x. (False, x)) cfg w x
      | (Inr (L, v), x) \<Rightarrow>
          (let f = wl_getfield api v ''run''
           in map_option (\<lambda>(w, x). (w, wl_close api L x)) (worker_main now (call_run L f) (\<lambda>x. (wl_isfunction api f, x)) cfg w x)))"

subsection \<open>What Lua promises\<close>

text \<open>\<open>cnt\<close> counts the interpreters that are open: making one and closing one changes it by one, running a file leaves it.\<close>

definition lua_counts :: "('l, 'v, 'p, 'x) workload_api \<Rightarrow> ('x \<Rightarrow> int) \<Rightarrow> bool" where
  "lua_counts api cnt \<longleftrightarrow>
     (\<forall>x. cnt (snd (wl_newstate api x)) = cnt x + 1) \<and>
     (\<forall>path L x. cnt (snd (snd (wl_dofile api path L x))) = cnt x) \<and>
     (\<forall>L x. cnt (wl_close api L x) = cnt x - 1)"

text \<open>The registry returns what was stored; neither a new global table nor the file, which cannot form the key, changes the entry.\<close>

definition lua_registry :: "('l, 'v, 'p, 'x) workload_api \<Rightarrow> bool" where
  "lua_registry api \<longleftrightarrow>
     (\<forall>k p L. wl_getreg api k (wl_setreg api k p L) = Some p) \<and>
     (\<forall>k ns g L. wl_getreg api k (wl_newlib api ns g L) = wl_getreg api k L) \<and>
     (\<forall>path L x. wl_getreg api KVLUA_CTX_KEY (fst (snd (wl_dofile api path L x))) = wl_getreg api KVLUA_CTX_KEY L)"

lemma ctx_from_register: "lua_registry api \<Longrightarrow> ctx_from api (kvlua_register api kc L) = Some kc"
  by (simp add: lua_registry_def ctx_from_def kvlua_register_def)

text \<open>The names of the module are those the verbs have.\<close>

lemma kv_funcs_verbs: "(verb_op name \<noteq> None) = (name \<in> set kv_funcs)"
  by (auto simp: kv_funcs_def verb_op_def)

lemma lua_countsD:
  assumes "lua_counts api cnt"
  shows "wl_newstate api x = (L, y) \<Longrightarrow> cnt y = cnt x + 1" "wl_dofile api path L x = (r, L', y) \<Longrightarrow> cnt y = cnt x"
    "cnt (wl_close api L x) = cnt x - 1"
proof -
  note c = assms [unfolded lua_counts_def]
  show "wl_newstate api x = (L, y) \<Longrightarrow> cnt y = cnt x + 1" using c [THEN conjunct1, THEN spec [of _ x]] by simp
  show "wl_dofile api path L x = (r, L', y) \<Longrightarrow> cnt y = cnt x"
    using c [THEN conjunct2, THEN conjunct1, THEN spec [of _ path], THEN spec [of _ L], THEN spec [of _ x]] by simp
  show "cnt (wl_close api L x) = cnt x - 1" using c by blast
qed

text \<open>What opening a file leaves behind.\<close>

lemma open_workload_opened:
  assumes c: "lua_counts api cnt" and r: "lua_registry api"
  shows "case open_workload api path kc seed x of
      (Inl msg, y) \<Rightarrow> cnt y = cnt x
    | (Inr (L, v), y) \<Rightarrow> cnt y = cnt x + 1 \<and> wl_istable api v \<and> ctx_from api L = Some kc"
proof -
  obtain L y where n: "wl_newstate api x = (L, y)" by (cases "wl_newstate api x")
  define cmd where "cmd = snprintf 64 (''math.randomseed('' @ show_nat (unat seed) @ '')'')"
  define L1 where "L1 = kvlua_register api kc (wl_dostring api cmd (wl_openlibs api L))"
  obtain res L2 z where d: "wl_dofile api path L1 y = (res, L2, z)" by (metis prod_cases3)
  have cnt: "cnt z = cnt x + 1" "cnt (wl_close api L2 z) = cnt x"
    using lua_countsD(1) [OF c n] lua_countsD(2) [OF c d] lua_countsD(3) [OF c] by simp_all
  have "ctx_from api L2 = ctx_from api L1"
    using r d unfolding lua_registry_def ctx_from_def by (metis fst_conv snd_conv)
  then have "ctx_from api L2 = Some kc" unfolding L1_def ctx_from_register [OF r] .
  moreover have "open_workload api path kc seed x =
      (case (res, L2, z) of
         (Inl msg, L, x) \<Rightarrow> (Inl (''error loading '' @ path @ '': '' @ msg @ nl), wl_close api L x)
       | (Inr None, L, x) \<Rightarrow> (Inl (path @ '': workload must `return` a table'' @ nl), wl_close api L x)
       | (Inr (Some v), L, x) \<Rightarrow>
           if wl_istable api v then (Inr (L, v), x)
           else (Inl (path @ '': workload must `return` a table'' @ nl), wl_close api L x))"
    unfolding open_workload_def n d [symmetric] by (simp add: L1_def cmd_def Let_def)
  ultimately show ?thesis using cnt by (simp split: sum.split option.split)
qed

lemma worker_loop_keeps:
  fixes cnt :: "'x \<Rightarrow> int"
  assumes n: "\<And>x. cnt (snd (now x)) = cnt x" and r: "\<And>i x. cnt (snd (snd (run i x))) = cnt x"
    and s: "worker_loop now run cfg t0 w x = Some wx"
  shows "cnt (snd wx) = cnt x"
proof -
  let ?P = "\<lambda>(now :: 'x \<Rightarrow> u64 \<times> 'x) (run :: int \<Rightarrow> 'x \<Rightarrow> bool \<times> stat_event list \<times> 'x) (cfg :: config) (t0 :: u64) (w :: worker) x wx.
    (\<forall>x. cnt (snd (now x)) = cnt x) \<longrightarrow> (\<forall>i x. cnt (snd (snd (run i x))) = cnt x) \<longrightarrow> cnt (snd wx) = cnt x"
  have "?P now run cfg t0 w x wx"
  proof (rule worker_loop.raw_induct [where P = ?P and xa = "(((((now, run), cfg), t0), w), x)" and y = wx, unfolded prod.case, OF _ s], intro impI)
    fix loop and now :: "'x \<Rightarrow> u64 \<times> 'x" and run :: "int \<Rightarrow> 'x \<Rightarrow> bool \<times> stat_event list \<times> 'x" and cfg t0 w x wx
    assume IH: "\<And>now run cfg t0 w x wx. loop now run cfg t0 w x = Some wx \<Longrightarrow> ?P now run cfg t0 w x wx"
      and e: "(if cfg_secs cfg \<le> 0 \<and> w_units w \<ge> w_ops w then Some (w\<lparr>w_done := True\<rparr>, x)
        else (case (if cfg_secs cfg > 0 then now x else (0, x)) of (t, x) \<Rightarrow>
          if cfg_secs cfg > 0 \<and> t - t0 \<ge> double_to_u64 (dmul (cfg_secs cfg) 1000000000) then Some (w\<lparr>w_done := True\<rparr>, x)
          else (case run (w_units w + 1) x of (ok, evs, x) \<Rightarrow>
            if \<not> ok then Some (after_run False evs w, x) else loop now run cfg t0 (after_run True evs w) x))) = Some wx"
      and n: "\<forall>x. cnt (snd (now x)) = cnt x" and r: "\<forall>i x. cnt (snd (snd (run i x))) = cnt x"
    obtain t x1 where t: "(if cfg_secs cfg > 0 then now x else (0, x)) = (t, x1)" by fastforce
    obtain ok evs x2 where c: "run (w_units w + 1) x1 = (ok, evs, x2)" by (metis prod_cases3)
    have "cnt x1 = cnt x" using t n by (metis snd_conv)
    moreover have "cnt x2 = cnt x1" using c r by (metis snd_conv)
    ultimately show "cnt (snd wx) = cnt x" using e IH [of now run cfg t0 "after_run True evs w" x2 wx] n r unfolding t
      by (auto simp: c split: if_splits)
  qed
  then show ?thesis using n r by blast
qed

lemma worker_main_keeps:
  fixes cnt :: "'x \<Rightarrow> int"
  assumes n: "\<And>x. cnt (snd (now x)) = cnt x" and r: "\<And>i x. cnt (snd (snd (run i x))) = cnt x" and o1: "\<And>x. cnt (snd (open_ok x)) = cnt x"
    and s: "worker_main now run open_ok cfg w x = Some (w', x')"
  shows "cnt x' = cnt x"
proof -
  obtain ok x1 where o2: "open_ok x = (ok, x1)" by fastforce
  obtain t0 x2 where t: "now x1 = (t0, x2)" by fastforce
  have "cnt x1 = cnt x" "cnt x2 = cnt x1" using o1 [of x] n [of x1] o2 t by simp_all
  moreover have "cnt x' = cnt x2" if ok
    using worker_loop_keeps [where cnt = cnt, OF n r] s that by (force simp: worker_main_def o2 t Let_def)
  moreover have "x' = x1" if "\<not> ok" using s that by (simp add: worker_main_def o2 Let_def)
  ultimately show ?thesis by (cases ok) simp_all
qed

subsection \<open>Properties\<close>

text \<open>
  C38. Every Lua interpreter the program makes is closed again, once, on every path: by the set-up of a store, by reading the sweep,
  by a seeding thread and by a worker thread, whether the file does not load, returns no table, lacks the function, or the function
  fails. An interpreter that runs a workload has a table as the workload, and its \<open>kv\<close> verbs find the context it was opened with.
\<close>

theorem workload_states_closed:
  assumes c: "lua_counts api cnt" and r: "lua_registry api"
    and calls: "\<And>L f m x. cnt (snd (snd (call_load L f m x))) = cnt x" "\<And>L f i x. cnt (snd (snd (call_run L f i x))) = cnt x"
      "\<And>x. cnt (snd (now x)) = cnt x"
  shows "cnt (snd (workload_info api path kc seed x)) = cnt x \<and>
    cnt (snd (workload_sweep api path kc seed x)) = cnt x \<and>
    cnt (snd (snd (load_worker_main api call_load path kc lw x))) = cnt x \<and>
    (\<forall>w' y. worker_thread api now call_run path kc cfg w x = Some (w', y) \<longrightarrow> cnt y = cnt x) \<and>
    (\<forall>L v y. open_workload api path kc seed x = (Inr (L, v), y) \<longrightarrow> wl_istable api v \<and> ctx_from api L = Some kc)"
proof -
  note opened = open_workload_opened [OF c r, where path = path and kc = kc and x = x] and close = lua_countsD(3) [OF c]
  have "cnt y = cnt x" if "worker_thread api now call_run path kc cfg w x = Some (w', y)" for w' y
  proof (cases "open_workload api path kc (w_seed w) x")
    case (Pair res z)
    show ?thesis
    proof (cases res)
      case (Inl msg)
      have "worker_main now (\<lambda>_ x. (False, [], x)) (\<lambda>x. (False, x)) cfg w z = Some (w', y)"
        using that by (simp add: worker_thread_def Pair Inl)
      from worker_main_keeps [where cnt = cnt, OF _ _ _ this] show ?thesis
        using calls(3) opened [where seed = "w_seed w"] by (simp add: Pair Inl)
    next
      case (Inr Lv)
      obtain L v where Lv: "Lv = (L, v)" by (cases Lv)
      let ?m = "worker_main now (call_run L (wl_getfield api v ''run'')) (\<lambda>x. (wl_isfunction api (wl_getfield api v ''run''), x)) cfg w z"
      have "map_option (\<lambda>(w, x). (w, wl_close api L x)) ?m = Some (w', y)"
        using that by (simp add: worker_thread_def Pair Inr Lv Let_def)
      then obtain y' where "?m = Some (w', y')" and y: "y = wl_close api L y'" by (cases ?m) auto
      from worker_main_keeps [where cnt = cnt, OF _ _ _ this(1)] have "cnt y' = cnt z" using calls(2,3) by simp
      then show ?thesis using close opened [where seed = "w_seed w"] unfolding y by (simp add: Pair Inr Lv)
    qed
  qed
  moreover have "cnt (snd (workload_info api path kc seed x)) = cnt x \<and> cnt (snd (workload_sweep api path kc seed x)) = cnt x"
  proof (cases "open_workload api path kc seed x")
    case (Pair res z)
    then show ?thesis using opened [where seed = seed] close
      by (cases res) (simp_all add: workload_info_def workload_sweep_def Let_def split_beta)
  qed
  moreover have "cnt (snd (snd (load_worker_main api call_load path kc lw x))) = cnt x"
  proof (cases "open_workload api path kc (lw_seed lw) x")
    case (Pair res z)
    then show ?thesis using opened [where seed = "lw_seed lw"] close calls(1)
      by (cases res) (simp_all add: load_worker_main_def Let_def split_beta)
  qed
  moreover have "\<forall>L v y. open_workload api path kc seed x = (Inr (L, v), y) \<longrightarrow> wl_istable api v \<and> ctx_from api L = Some kc"
    using opened [where seed = seed] by auto
  ultimately show ?thesis by blast
qed

definition sample_lua :: "(string \<rightharpoonup> nat, nat, nat, int) workload_api" where
  "sample_lua =
     \<lparr>wl_newstate = (\<lambda>x. (Map.empty, x + 1)), wl_openlibs = (\<lambda>L. L), wl_dostring = (\<lambda>s L. L),
      wl_setreg = (\<lambda>k p L. L(k \<mapsto> p)), wl_getreg = (\<lambda>k L. L k), wl_newlib = (\<lambda>ns g L. L),
      wl_dofile = (\<lambda>path L x. (if path = ''bad.lua'' then Inl ''syntax error'' else Inr (Some 0), L, x)),
      wl_istable = (\<lambda>v. v = 0), wl_isfunction = (\<lambda>v. v = 1), wl_isnumber = (\<lambda>v. False), wl_tostring = (\<lambda>v. None),
      wl_tointeger = (\<lambda>v. 0), wl_toboolean = (\<lambda>v. None), wl_len = (\<lambda>v. 0), wl_geti = (\<lambda>v i. 2),
      wl_getfield = (\<lambda>v f. 1), wl_close = (\<lambda>L x. x - 1)\<rparr>"

lemma sample_lua_ok: "lua_counts sample_lua (\<lambda>x. x)" "lua_registry sample_lua"
  by (simp_all add: lua_counts_def lua_registry_def sample_lua_def)

theorem workload_states_closed_witness:
  "snd (workload_info sample_lua ''bad.lua'' 7 1 5) = 5 \<and>
   (\<exists>L v y. open_workload sample_lua ''w.lua'' 7 1 5 = (Inr (L, v), y) \<and> ctx_from sample_lua L = Some 7)"
proof -
  note closed = workload_states_closed [OF sample_lua_ok, where call_load = "\<lambda>L f m x. (True, [], x)" and call_run = "\<lambda>L f i x. (True, [], x)"
      and now = "\<lambda>x. (0, x)" and kc = 7 and seed = 1 and x = 5, simplified]
  have "\<exists>L v y. open_workload sample_lua ''w.lua'' 7 1 5 = (Inr (L, v), y)"
    by (simp add: open_workload_def sample_lua_def Let_def)
  then show ?thesis using closed by meson
qed

end
