(* ===== verification/KB_Main.thy ===== *)
theory KB_Main
  imports KB_Workload
begin

text \<open>
  \<open>main\<close> of \<open>src/src/main.c\<close> as a whole: seeding a store (\<open>measure_setup\<close>), the timed phase on it (\<open>measure_timed\<close>), the
  samples of the timeline and of the seeding, and the order in which \<open>main\<close> puts everything together.

  Parameters are the Lua files, the threads (the seeding threads and the timed threads return what they leave behind), the clock,
  the file system and the engines. The threads that take the samples and print status lines are in \<open>KB_Status\<close>.
\<close>

subsection \<open>The two phases of a cell\<close>

text \<open>
  \<open>opened\<close> is what opening a store does to the world. \<open>load\<close> runs the seeding threads (\<open>load_worker_main\<close>) and tells which of them
  failed. A store whose set-up fails is closed again.
\<close>

type_synonym ('c, 'a, 'x) store_setup = "config \<Rightarrow> reporter list \<times> 'x \<Rightarrow> ('c, 'a) kv_store option \<times> string option \<times> string option \<times> reporter list \<times> 'x"

definition measure_setup ::
  "('c, kv_options option, 'a) backends \<Rightarrow> ('l, 'v, 'p, 'x) workload_api \<Rightarrow> 'p \<Rightarrow> (('c, 'a) kv_store \<Rightarrow> 'x \<Rightarrow> 'x) \<Rightarrow>
   (config \<Rightarrow> load_worker list \<Rightarrow> ('c, 'a) kv_store \<Rightarrow> reporter list \<times> 'x \<Rightarrow> bool list \<times> ('c, 'a) kv_store \<times> reporter list \<times> 'x) \<Rightarrow>
   (('c, 'a) kv_store \<Rightarrow> 'x \<Rightarrow> 'x) \<Rightarrow> string \<Rightarrow> ('c, 'a, 'x) store_setup" where
  "measure_setup reg api kc opened load close path cfg rx =
     (case backend_find reg (cfg_backend cfg) of
        None \<Rightarrow> (None, None, None, rx)
      | Some e \<Rightarrow>
          (let store = store_open (ent_open e) (cfg_seed cfg) (cfg_data_dir cfg) (cfg_section (cfg_conf cfg) (ent_name e));
               version = Some (store_version store)
           in (case workload_info api path kc (cfg_seed cfg) (opened store (snd rx)) of
                 (None, x) \<Rightarrow> (None, None, version, fst rx, close store x)
               | (Some (nm, has_load), x) \<Rightarrow>
                   (let name = (case nm of Some s \<Rightarrow> snprintf 128 s | None \<Rightarrow> ''(unnamed)'')
                    in if \<not> has_load then (Some store, Some name, version, fst rx, x)
                       else (case load cfg (load_workers cfg) store (fst rx, x) of (errs, store, reps, x) \<Rightarrow>
                         if True \<in> set errs then (None, Some name, version, reps, close store x)
                         else (Some store, Some name, version, reps, x))))))"

text \<open>\<open>threads\<close> runs the workers to their end and gives the clock before the first starts and after the last is joined.\<close>

definition measure_timed ::
  "(config \<Rightarrow> worker list \<Rightarrow> ('c, 'a) kv_store \<Rightarrow> reporter list \<times> 'x \<Rightarrow> worker list \<times> u64 \<times> u64 \<times> ('c, 'a) kv_store \<times> reporter list \<times> 'x) \<Rightarrow>
   config \<Rightarrow> nat \<Rightarrow> string \<Rightarrow> ('c, 'a) kv_store \<Rightarrow> reporter list \<times> 'x \<Rightarrow> point_result \<times> ('c, 'a) kv_store \<times> reporter list \<times> 'x" where
  "measure_timed threads cfg run_no version store rx =
     (case threads cfg (new_workers cfg) store rx of (ws, t0, t1, store, rx) \<Rightarrow>
        (timed_result ws (ddiv (u64_to_double (t1 - t0)) 1000000000) version, store, rx))"

text \<open>Both phases on a workload file, with the engines, Lua and the threads as parameters.\<close>

definition program_phases ::
  "('c, kv_options option, 'a) backends \<Rightarrow> ('l, 'v, 'p, 'x) workload_api \<Rightarrow> 'p \<Rightarrow> (('c, 'a) kv_store \<Rightarrow> 'x \<Rightarrow> 'x) \<Rightarrow>
   (config \<Rightarrow> load_worker list \<Rightarrow> ('c, 'a) kv_store \<Rightarrow> reporter list \<times> 'x \<Rightarrow> bool list \<times> ('c, 'a) kv_store \<times> reporter list \<times> 'x) \<Rightarrow>
   (config \<Rightarrow> worker list \<Rightarrow> ('c, 'a) kv_store \<Rightarrow> reporter list \<times> 'x \<Rightarrow> worker list \<times> u64 \<times> u64 \<times> ('c, 'a) kv_store \<times> reporter list \<times> 'x) \<Rightarrow>
   (('c, 'a) kv_store \<Rightarrow> 'x \<Rightarrow> 'x) \<Rightarrow> string \<Rightarrow> ('x, ('c, 'a) kv_store) phases" where
  "program_phases reg api kc opened load threads close path =
     \<lparr>ev_setup = measure_setup reg api kc opened load close path, ev_timed = measure_timed threads, ev_close = close\<rparr>"

subsection \<open>Samples\<close>

abbreviation SAMPLE_METRIC_MAX :: nat where "SAMPLE_METRIC_MAX \<equiv> 256"

record samp_labels =
  sp_workload :: string
  sp_engine :: string
  sp_threads :: int
  sp_sweep_param :: "string option"
  sp_sweep_value :: int
  sp_interval :: double
  sp_t0 :: u64

record sampler =
  sp_prev_ops :: u64
  sp_prev_units :: int
  sp_last :: u64

definition samp_stat_cb :: "string \<times> double \<Rightarrow> (string \<times> double) list \<Rightarrow> (string \<times> double) list" where
  "samp_stat_cb nv m = (if length m < SAMPLE_METRIC_MAX then m @ [nv] else m)"

definition seconds_between :: "u64 \<Rightarrow> u64 \<Rightarrow> double" where
  "seconds_between a b = ddiv (u64_to_double (b - a)) 1000000000"

text \<open>One tick at the clock \<open>now\<close>: what the workers, the engine, the probes and the disk show at that moment.\<close>

definition sampler_tick ::
  "samp_labels \<Rightarrow> u64 \<Rightarrow> worker list \<Rightarrow> (string \<times> double) list \<Rightarrow> probes \<Rightarrow> u64 option \<Rightarrow> sampler \<Rightarrow> report_sample \<times> sampler" where
  "sampler_tick lb now ws engine_stats g disk sm =
     (let dt = seconds_between (sp_last sm) now;
          cur_ops = sum_list (map (\<lambda>w. prim_ops (w_stats w)) ws);
          cur_units = sum_list (map w_units ws);
          m = [(''wu_per_s'', if dt > 0 then ddiv (int_to_double (cur_units - sp_prev_units sm)) dt else 0),
               (''ops_per_s'', if dt > 0 then ddiv (u64_to_double (cur_ops - sp_prev_ops sm)) dt else 0)];
          m = fold samp_stat_cb engine_stats m;
          m = fold (\<lambda>p m. case p_sample p of Some calls \<Rightarrow> fold samp_stat_cb calls m | None \<Rightarrow> m) (g_sel g) m;
          m = (case disk of Some b \<Rightarrow> if length m < SAMPLE_METRIC_MAX then m @ [(''disk_bytes'', u64_to_double b)] else m | None \<Rightarrow> m)
      in (\<lparr>rs_workload = sp_workload lb, rs_engine = sp_engine lb, rs_threads = sp_threads lb, rs_sweep_param = sp_sweep_param lb,
           rs_sweep_value = sp_sweep_value lb, rs_phase = Some ''run'', rs_elapsed = seconds_between (sp_t0 lb) now, rs_m = m\<rparr>,
          \<lparr>sp_prev_ops = cur_ops, sp_prev_units = cur_units, sp_last = now\<rparr>))"

definition seed_tick :: "samp_labels \<Rightarrow> u64 \<Rightarrow> op_stats list \<Rightarrow> u64 \<times> u64 \<Rightarrow> report_sample \<times> u64 \<times> u64" where
  "seed_tick lb now stats prev =
     (case prev of (prev_t, prev_keys) \<Rightarrow>
        let keys = sum_list (map prim_ops stats); dt = seconds_between prev_t now
        in (\<lparr>rs_workload = sp_workload lb, rs_engine = sp_engine lb, rs_threads = sp_threads lb, rs_sweep_param = sp_sweep_param lb,
             rs_sweep_value = sp_sweep_value lb, rs_phase = Some ''seed'', rs_elapsed = seconds_between (sp_t0 lb) now,
             rs_m = [(''keys_per_s'', if dt > 0 then ddiv (u64_to_double (keys - prev_keys)) dt else 0), (''seed_keys'', u64_to_double keys)]\<rparr>,
            now, keys))"

text \<open>The distance of two ticks while seeding.\<close>

definition seed_interval :: "bool \<Rightarrow> double \<Rightarrow> u64" where
  "seed_interval sampling interval =
     (let iv = (if sampling then (if interval > 0 \<and> interval < 1 / 4 then interval else 1 / 4) else 1);
          iv_ns = double_to_u64 (dmul iv 1000000000)
      in if iv_ns < 20000000 then 20000000 else iv_ns)"

subsection \<open>The program\<close>

text \<open>The workload files one after the other; the first component collects the summary tables.\<close>

definition run_files ::
  "(string \<Rightarrow> lua_sweep option option) \<Rightarrow> (string \<Rightarrow> ('x, 's) phases) \<Rightarrow> plan \<Rightarrow> string \<times> reporter list \<times> 'x \<Rightarrow> string \<times> reporter list \<times> 'x" where
  "run_files sweep ev p =
     fold (\<lambda>path s. case s of (out, reps, x) \<Rightarrow>
             case run_file (ev path) (sweep path) (pl_cfg p) (pl_engines p) (pl_tlist p) (nat (pl_repeat p)) (reps, x) of
               (rows, text, reps, x) \<Rightarrow> (out @ text, reps, x)) (pl_wl p)"

text \<open>
  Everything before the run ends in a plan. Then the reporters are opened, the run and the probes are reported, every workload
  file is run in turn, and the reporters are closed. The result is what went to standard output besides the reporters (the summary
  tables), the report files that were closed, the plotter's directory if it is started, and the world.
\<close>

definition kb_main ::
  "('c, kv_options option, 'a) backends \<Rightarrow> (string \<Rightarrow> string option) \<Rightarrow> (string \<Rightarrow> bool) \<Rightarrow> (string \<Rightarrow> bool) \<Rightarrow> string \<Rightarrow> probes \<Rightarrow>
   (nat \<Rightarrow> bool) option \<Rightarrow> (string \<Rightarrow> lua_sweep option option) \<Rightarrow> (affinity \<Rightarrow> string \<Rightarrow> ('x, 's) phases) \<Rightarrow> string list \<Rightarrow> 'x \<Rightarrow>
   (string \<times> string list \<times> string option \<times> 'x) outcome" where
  "kb_main reg fs can_mkdir can_open ts g allowed sweep ev args x =
     and_then (make_plan reg fs can_mkdir ts g args) (\<lambda>p.
     (case reporters_parse can_open (pl_report p) of (rc, reps) \<Rightarrow>
        if rc \<noteq> 0 then Exit 2
        else
          (let reps = reporters_run reps (pl_run p);
               aff = snd (kb_affinity_init kb_initial (cfg_pin (pl_cfg p) \<noteq> 0) allowed);
               probes = probe_set_data_dir (pl_probes p) (cfg_data_dir (pl_cfg p));
               reps = snd (emit_probes probes reps);
               (out, reps, x) = run_files sweep (ev aff) p ([], reps, x);
               (files, reps) = reporters_close reps
           in Go (out, files, if pl_auto_plot p \<and> pl_rd_dir p \<noteq> [] then Some (pl_rd_dir p) else None, x))))"


subsection \<open>Samples stay in their arrays\<close>

lemma fold_samp_length: "length m \<le> SAMPLE_METRIC_MAX \<Longrightarrow> length (fold samp_stat_cb calls m) \<le> SAMPLE_METRIC_MAX"
  by (induction calls arbitrary: m) (simp_all add: samp_stat_cb_def)

lemma fold_probe_length:
  "length m \<le> SAMPLE_METRIC_MAX \<Longrightarrow>
   length (fold (\<lambda>p m. case p_sample p of Some calls \<Rightarrow> fold samp_stat_cb calls m | None \<Rightarrow> m) ps m) \<le> SAMPLE_METRIC_MAX"
  by (induction ps arbitrary: m) (simp_all add: fold_samp_length split: option.split)

lemma sampler_tick_bounded: "length (rs_m (fst (sampler_tick lb now ws st g disk sm))) \<le> SAMPLE_METRIC_MAX"
proof -
  have "length (fold (\<lambda>p m. case p_sample p of Some calls \<Rightarrow> fold samp_stat_cb calls m | None \<Rightarrow> m) (g_sel g) (fold samp_stat_cb st [a, b])) \<le> SAMPLE_METRIC_MAX" for a b
    by (intro fold_probe_length fold_samp_length) simp
  then show ?thesis unfolding sampler_tick_def Let_def by (simp split: option.split)
qed

subsection \<open>Exit statuses\<close>

definition usual_exit :: "'a outcome \<Rightarrow> bool" where
  "usual_exit r \<longleftrightarrow> (\<forall>n. r = Exit n \<longrightarrow> n = 0 \<or> n = 2)"

lemma usual_exit_simps [simp]: "usual_exit (Go x)" "usual_exit Undef" "usual_exit (Exit n) \<longleftrightarrow> n = 0 \<or> n = 2"
  by (auto simp: usual_exit_def)

lemma usual_exit_then: "usual_exit r \<Longrightarrow> (\<And>x. usual_exit (f x)) \<Longrightarrow> usual_exit (and_then r f)"
  by (cases r) simp_all

lemma usual_exit_defined [simp]: "usual_exit (defined x)"
  by (simp add: defined_def split: option.split)

lemma usual_exit_numbers [simp]: "usual_exit (arg_long s)" "usual_exit (arg_double s)"
  by (simp_all add: arg_long_def arg_double_def split: prod.split)

lemma usual_exit_plain: "usual_exit (plain_arg a m)"
  by (simp add: plain_arg_def)

lemma usual_exit_branch:
  "pred_option usual_exit x \<Longrightarrow> pred_option usual_exit y \<Longrightarrow> pred_option usual_exit (if c then x else y)"
  by simp

lemma usual_exit_option_value: "pred_option usual_exit (value_option a v m)"
  unfolding value_option_def by (intro usual_exit_branch) (simp_all add: usual_exit_then)

lemma usual_exit_value: "value_option a v m = Some r \<Longrightarrow> usual_exit r"
  using usual_exit_option_value [of a v m] by simp

lemma usual_exit_option:
  "(x = None \<Longrightarrow> usual_exit a) \<Longrightarrow> (\<And>y. x = Some y \<Longrightarrow> usual_exit (f y)) \<Longrightarrow> usual_exit (case x of None \<Rightarrow> a | Some y \<Rightarrow> f y)"
  by (simp split: option.split)

lemma usual_exit_if:
  "(c \<Longrightarrow> usual_exit a) \<Longrightarrow> (\<not> c \<Longrightarrow> usual_exit b) \<Longrightarrow> usual_exit (if c then a else b)"
  by simp

lemma usual_exit_pair: "(\<And>a b. p = (a, b) \<Longrightarrow> usual_exit (f a b)) \<Longrightarrow> usual_exit (case p of (a, b) \<Rightarrow> f a b)"
  by (cases p) simp

lemmas usual_exit_intros = usual_exit_then usual_exit_option usual_exit_if usual_exit_pair

lemma usual_exit_args: "usual_exit (parse_args args m)"
proof (induction args m rule: parse_args.induct)
  case (3 a v args m)
  show ?case
  proof (cases "value_option a v m")
    case None
    have "usual_exit (and_then (plain_arg a m) (parse_args (v # args)))"
      by (rule usual_exit_then [OF usual_exit_plain 3(1) [OF None]])
    then show ?thesis using None by simp
  next
    case (Some r)
    have "usual_exit (and_then r (parse_args args))"
      using usual_exit_then [OF usual_exit_value [OF Some] 3(2) [OF Some]] .
    then show ?thesis using Some by simp
  qed
qed (simp_all add: usual_exit_plain)

lemma usual_exit_prescan: "usual_exit (prescan fs args st)"
  by (induction fs args st rule: prescan.induct) (auto split: prod.split)

lemma usual_exit_config: "usual_exit (effective_config fs args)"
  unfolding effective_config_def
  by (auto intro!: usual_exit_then usual_exit_prescan usual_exit_args split: option.split prod.split)

lemma usual_exit_find: "usual_exit (find_engines reg ts)"
  by (induction ts) (auto split: option.split intro!: usual_exit_then)

lemma usual_exit_engines: "usual_exit (resolve_engines reg b)"
  unfolding resolve_engines_def by (auto intro!: usual_exit_then usual_exit_find split: option.split)

lemma usual_exit_plan: "usual_exit (make_plan reg fs can_mkdir ts g args)"
  unfolding make_plan_def Let_def
  by (intro usual_exit_intros usual_exit_config usual_exit_engines; simp)

lemma fold_keep_third:
  "(\<And>y s. cnt (snd (snd (f y s))) = cnt (snd (snd s))) \<Longrightarrow> cnt (snd (snd (fold f ys s))) = cnt (snd (snd s))"
  by (induction ys arbitrary: s) simp_all

lemma run_files_open:
  fixes x :: 'a
  assumes "\<And>path. counts_stores (ev path) cnt"
  shows "cnt (snd (snd (run_files sweep ev p (out, reps, x)))) = cnt x"
proof -
  have "cnt (snd (snd (run_files sweep ev p (out, reps, x)))) = cnt (snd (snd (out, reps, x)))"
    unfolding run_files_def
  proof (rule fold_keep_third)
    fix path and s :: "string \<times> reporter list \<times> 'a"
    obtain t q y where s: "s = (t, q, y)" by (cases s)
    obtain rs tb q2 z where r: "run_file (ev path) (sweep path) (pl_cfg p) (pl_engines p) (pl_tlist p) (nat (pl_repeat p)) (q, y) = (rs, tb, q2, z)"
      using prod_cases4 by blast
    show "cnt (snd (snd (case s of (out, reps, x) \<Rightarrow>
        case run_file (ev path) (sweep path) (pl_cfg p) (pl_engines p) (pl_tlist p) (nat (pl_repeat p)) (reps, x) of
          (rows, text, reps, x) \<Rightarrow> (out @ text, reps, x)))) = cnt (snd (snd s))"
      unfolding s using run_file_open [OF assms r] r by simp
  qed
  then show ?thesis by simp
qed

lemma map_upt_int_upto: "0 \<le> k \<Longrightarrow> map int [0..<nat k] = [0..k - 1]"
  by (rule nth_equalityI) (simp_all add: nth_upto)

text \<open>
  For every way to count open stores that setting up increases by one when it succeeds and closing decreases by one, the count
  at the end of the program is the one at the start.
\<close>

lemma main_closes_stores:
  assumes "\<forall>aff path. counts_stores (ev aff path) cnt"
  shows "case kb_main reg fs can_mkdir can_open ts g allowed sweep ev args x of
    Go (out, files, plot, x') \<Rightarrow> cnt x' = cnt x | Exit n \<Rightarrow> n = 0 \<or> n = 2 | Undef \<Rightarrow> True"
proof -
  have closed: "cnt c = cnt x" if r: "run_files sweep (ev aff) p ([], reps, x) = (a, b, c)" for aff p reps x a b c
  proof -
    have "cnt (snd (snd (run_files sweep (ev aff) p ([], reps, x)))) = cnt x"
      by (rule run_files_open) (use assms in blast)
    then show ?thesis unfolding r by simp
  qed
  show ?thesis
    unfolding kb_main_def using usual_exit_plan [of reg fs can_mkdir ts g args]
    by (cases "make_plan reg fs can_mkdir ts g args") (auto simp: Let_def split: prod.split dest: closed)
qed

text \<open>
  What the phases do to the number of open stores and of open interpreters: opening and closing a store, and the calls of Lua, each
  change their own count by one; when the threads of a phase have been joined both counts are what they were, since every
  thread closes the interpreter it opens (\<open>workload_states_closed\<close>).
\<close>

definition world_counts ::
  "('l, 'v, 'p, 'x) workload_api \<Rightarrow> ('s \<Rightarrow> 'x \<Rightarrow> 'x) \<Rightarrow> (config \<Rightarrow> load_worker list \<Rightarrow> 's \<Rightarrow> reporter list \<times> 'x \<Rightarrow> bool list \<times> 's \<times> reporter list \<times> 'x) \<Rightarrow>
   (config \<Rightarrow> worker list \<Rightarrow> 's \<Rightarrow> reporter list \<times> 'x \<Rightarrow> worker list \<times> u64 \<times> u64 \<times> 's \<times> reporter list \<times> 'x) \<Rightarrow>
   ('s \<Rightarrow> 'x \<Rightarrow> 'x) \<Rightarrow> int \<Rightarrow> int \<Rightarrow> ('x \<Rightarrow> int) \<Rightarrow> bool" where
  "world_counts api opened load threads close store_cost lua_cost cnt \<longleftrightarrow>
     (\<forall>x. cnt (snd (wl_newstate api x)) = cnt x + lua_cost) \<and>
     (\<forall>path L x. cnt (snd (snd (wl_dofile api path L x))) = cnt x) \<and>
     (\<forall>L x. cnt (wl_close api L x) = cnt x - lua_cost) \<and>
     (\<forall>s x. cnt (opened s x) = cnt x + store_cost \<and> cnt (close s x) = cnt x - store_cost) \<and>
     (\<forall>cfg ws s rx. cnt (snd (snd (snd (load cfg ws s rx)))) = cnt (snd rx)) \<and>
     (\<forall>cfg ws s rx. cnt (snd (snd (snd (snd (snd (threads cfg ws s rx)))))) = cnt (snd rx))"

lemma world_countsD:
  assumes "world_counts api opened load threads close a b cnt"
  shows "cnt (snd (wl_newstate api x)) = cnt x + b" "cnt (snd (snd (wl_dofile api path L x))) = cnt x" "cnt (wl_close api L x) = cnt x - b"
    "cnt (opened s x) = cnt x + a" "cnt (close s x) = cnt x - a"
    "cnt (snd (snd (snd (load cfg lws s rx)))) = cnt (snd rx)"
    "cnt (snd (snd (snd (snd (snd (threads cfg ws s rx)))))) = cnt (snd rx)"
  using assms unfolding world_counts_def by blast+

lemma workload_info_counts:
  assumes w: "world_counts api opened load threads close a b cnt"
  shows "cnt (snd (workload_info api path kc seed x)) = cnt x"
proof -
  note c = world_countsD [OF w]
  obtain L y where n: "wl_newstate api x = (L, y)" by (cases "wl_newstate api x")
  define L1 where "L1 = kvlua_register api kc (wl_dostring api (snprintf 64 (''math.randomseed('' @ show_nat (unat seed) @ '')'')) (wl_openlibs api L))"
  obtain r L2 z where d: "wl_dofile api path L1 y = (r, L2, z)" by (metis prod_cases3)
  have "cnt y = cnt x + b" using c(1) [where x = x] n by simp
  moreover have "cnt z = cnt y" using c(2) [where path = path and L = L1 and x = y] d by simp
  moreover have "cnt (wl_close api L' z) = cnt z - b" for L' by (rule c(3))
  ultimately have closed: "cnt (wl_close api L' z) = cnt x" for L' by simp
  have "\<exists>L'. snd (workload_info api path kc seed x) = wl_close api L' z"
    unfolding workload_info_def open_workload_def n prod.case Let_def L1_def [symmetric] d
    by (auto split: sum.split option.split)
  then show ?thesis using closed by auto
qed

lemma program_phases_count:
  assumes w: "world_counts api opened load threads close 1 b cnt"
  shows "counts_stores (program_phases reg api kc opened load threads close path) cnt"
proof -
  note info = workload_info_counts [OF w, where kc = kc]
  note c = world_countsD [OF w]
  note oc = c(4,5)
  have loads: "load cfg ws s rx = (e, s', r, x) \<Longrightarrow> cnt x = cnt (snd rx)" for cfg ws s rx e s' r x
    using c(6) [where cfg = cfg and lws = ws and s = s and rx = rx] by simp
  have runs: "threads cfg ws s rx = (ws', t0, t1, s', r, x) \<Longrightarrow> cnt x = cnt (snd rx)" for cfg ws s rx ws' t0 t1 s' r x
    using c(7) [where cfg = cfg and ws = ws and s = s and rx = rx] by simp
  have "case measure_setup reg api kc opened load close path cfg rx of (store, name, version, rx') \<Rightarrow>
      cnt (snd rx') = cnt (snd rx) + (if store = None then 0 else 1)" for cfg rx
  proof (cases "backend_find reg (cfg_backend cfg)")
    case (Some e)
    define store where "store = store_open (ent_open e) (cfg_seed cfg) (cfg_data_dir cfg) (cfg_section (cfg_conf cfg) (ent_name e))"
    obtain r x where i: "workload_info api path kc (cfg_seed cfg) (opened store (snd rx)) = (r, x)" by fastforce
    then have "cnt x = cnt (snd rx) + 1" using info [where path = path and seed = "cfg_seed cfg" and x = "opened store (snd rx)"] oc(1) by simp
    then show ?thesis
      by (cases r) (auto simp: measure_setup_def Some Let_def store_def [symmetric] i oc loads split: prod.split)
  qed (simp add: measure_setup_def)
  moreover have "case measure_timed threads cfg n v s rx of (R, s', rx') \<Rightarrow> cnt (snd rx') = cnt (snd rx)" for cfg n v s rx
    using runs by (auto simp: measure_timed_def split: prod.split)
  ultimately show ?thesis using oc(2) by (simp add: counts_stores_def program_phases_def)
qed

lemma world_counts_add:
  assumes "world_counts api opened load threads close a b f" "world_counts api opened load threads close c d g"
  shows "world_counts api opened load threads close (a + c) (b + d) (\<lambda>x. f x + g x)"
  using assms unfolding world_counts_def by auto

subsection \<open>Properties\<close>



lemma both_results:
  fixes f g :: "'x \<Rightarrow> int"
  assumes "case r of Go (a, b, c, y) \<Rightarrow> f y = f x | Exit n \<Rightarrow> P n | Undef \<Rightarrow> True"
    and "case r of Go (a, b, c, y) \<Rightarrow> f y + g y = f x + g x | Exit n \<Rightarrow> P n | Undef \<Rightarrow> True"
  shows "case r of Go (a, b, c, y) \<Rightarrow> f y = f x \<and> g y = g x | Exit n \<Rightarrow> P n | Undef \<Rightarrow> True"
  using assms by (cases r) auto


definition sample_world :: "(string \<rightharpoonup> nat, nat, nat, int \<times> int) workload_api" where
  "sample_world =
     \<lparr>wl_newstate = (\<lambda>(a, b). (Map.empty, (a, b + 1))), wl_openlibs = (\<lambda>L. L), wl_dostring = (\<lambda>s L. L),
      wl_setreg = (\<lambda>k p L. L(k \<mapsto> p)), wl_getreg = (\<lambda>k L. L k), wl_newlib = (\<lambda>ns g L. L),
      wl_dofile = (\<lambda>path L x. (Inr (Some 0), L, x)), wl_istable = (\<lambda>v. v = 0), wl_isfunction = (\<lambda>v. v = 1),
      wl_isnumber = (\<lambda>v. False), wl_tostring = (\<lambda>v. None), wl_tointeger = (\<lambda>v. 0), wl_toboolean = (\<lambda>v. None),
      wl_len = (\<lambda>v. 0), wl_geti = (\<lambda>v i. 2), wl_getfield = (\<lambda>v f. 1), wl_close = (\<lambda>L (a, b). (a, b - 1))\<rparr>"

definition sample_registry :: "(skiplist, kv_options option, unit) backends" where
  "sample_registry = [\<lparr>ent_name = ''skiplist'', ent_open = skiplist_backend_open, ent_persistent = False\<rparr>]"


end
