(* ===== verification/KB_Ticker.thy ===== *)
theory KB_Ticker
  imports KB_Prelude
begin

text \<open>
  The threads of \<open>src/src/main.c\<close> that watch a run: \<open>sampler_main\<close>, \<open>progress_main\<close> and \<open>seed_progress_main\<close> share one
  loop. Until the flag \<open>stop\<close> is set, they sleep in small steps up to a deadline on the clock, read the clock again and report
  what they see. \<open>ticker\<close> is that loop; the threads are its instances in \<open>KB_Status\<close>.

  The machine below the loop is a record: reading the flag, reading the clock, sleeping, and looking at the counters, each on
  the state of the world \<open>'x\<close>. The loops need not end, hence \<^theory_text>\<open>partial_function (option)\<close>; that they do once the flag is
  set, and that no tick comes before its deadline, are the theorems of this file.
\<close>

subsection \<open>The code\<close>

text \<open>\<open>now_ns\<close>: the two fields of the monotonic clock as one number of nanoseconds.\<close>

definition now_ns :: "int \<Rightarrow> int \<Rightarrow> u64" where
  "now_ns tv_sec tv_nsec = word_of_int tv_sec * 1000000000 + word_of_int tv_nsec"

record ('o, 'x) machine =
  m_stop :: "'x \<Rightarrow> bool \<times> 'x"
  m_now :: "'x \<Rightarrow> u64 \<times> 'x"
  m_nap :: "u64 \<Rightarrow> 'x \<Rightarrow> 'x"
  m_look :: "'x \<Rightarrow> 'o \<times> 'x"

text \<open>\<open>while (!stop && now_ns() < until) nanosleep(step);\<close>\<close>

partial_function (option) wait_until :: "('o, 'x) machine \<Rightarrow> u64 \<Rightarrow> u64 \<Rightarrow> 'x \<Rightarrow> 'x option" where
  "wait_until M nap until x =
     (case m_stop M x of (stop, x) \<Rightarrow>
        if stop then Some x
        else (case m_now M x of (t, x) \<Rightarrow>
          if t < until then wait_until M nap until (m_nap M nap x) else Some x))"

text \<open>\<open>deadline k s\<close> is the end of the tick \<open>k\<close> in the state \<open>s\<close> of the thread, \<open>f\<close> what a tick does to that state.\<close>

partial_function (option) ticker ::
  "('o, 'x) machine \<Rightarrow> u64 \<Rightarrow> (nat \<Rightarrow> 's \<Rightarrow> u64) \<Rightarrow> (u64 \<Rightarrow> 'o \<Rightarrow> 's \<Rightarrow> 's) \<Rightarrow> nat \<Rightarrow> 's \<Rightarrow> 'x \<Rightarrow> ('s \<times> 'x) option" where
  "ticker M nap deadline f k s x =
     (case m_stop M x of (stop, x) \<Rightarrow>
        if stop then Some (s, x)
        else Option.bind (wait_until M nap (deadline (Suc k) s) x) (\<lambda>x.
          case m_stop M x of (stop, x) \<Rightarrow>
            if stop then Some (s, x)
            else (case m_now M x of (now, x) \<Rightarrow>
                  case m_look M x of (seen, x) \<Rightarrow> ticker M nap deadline f (Suc k) (f now seen s) x)))"

subsection \<open>The clock\<close>

lemma unat_now_ns:
  assumes "0 \<le> s" "s < 2 ^ 34" "0 \<le> n" "n < 1000000000"
  shows "int (unat (now_ns s n)) = s * 1000000000 + n"
proof -
  have "now_ns s n = word_of_int (s * 1000000000 + n)"
    by (simp add: now_ns_def)
  then have "uint (now_ns s n) = (s * 1000000000 + n) mod 2 ^ 64" by (simp only: uint_word_of_int) simp
  moreover have "0 \<le> s * 1000000000 + n" "s * 1000000000 + n < 2 ^ 64" using assms by simp_all
  ultimately show ?thesis by simp
qed

text \<open>Later readings of the clock are later numbers, for the first 544 years.\<close>

lemma now_ns_mono:
  assumes "0 \<le> s" "0 \<le> n" "n < 1000000000" "0 \<le> n'" "n' < 1000000000" "s' < 2 ^ 34" "s < s' \<or> s = s' \<and> n \<le> n'"
  shows "now_ns s n \<le> now_ns s' n'"
proof -
  have "int (unat (now_ns s n)) \<le> int (unat (now_ns s' n'))"
    using assms by (subst (1 2) unat_now_ns) auto
  then show ?thesis by (simp only: word_le_nat_alt of_nat_le_iff)
qed

subsection \<open>A machine whose clock runs and whose flag is set in the end\<close>

text \<open>
  \<open>time\<close> is the reading of the clock at a state, \<open>left\<close> a bound on how often the clock is still read before the flag is set.
  Nothing turns the clock back, and the flag stays set.
\<close>

definition machine_ok :: "('o, 'x) machine \<Rightarrow> ('x \<Rightarrow> u64) \<Rightarrow> ('x \<Rightarrow> nat) \<Rightarrow> bool" where
  "machine_ok M time left \<longleftrightarrow>
     (\<forall>x. (left x = 0 \<longrightarrow> fst (m_stop M x)) \<and> left (snd (m_stop M x)) \<le> left x \<and> time x \<le> time (snd (m_stop M x)) \<and>
       (fst (m_stop M x) \<longrightarrow> fst (m_stop M (snd (m_stop M x))))) \<and>
     (\<forall>x. fst (m_now M x) = time (snd (m_now M x)) \<and> time x \<le> time (snd (m_now M x)) \<and> left (snd (m_now M x)) \<le> left x - 1) \<and>
     (\<forall>d x. left (m_nap M d x) \<le> left x \<and> time x \<le> time (m_nap M d x)) \<and>
     (\<forall>x. left (snd (m_look M x)) \<le> left x \<and> time x \<le> time (snd (m_look M x)))"

named_theorems machine \<open>what a machine promises, by its operations\<close>

lemma machine_stop [machine]:
  assumes "machine_ok M time left" "m_stop M x = (b, y)"
  shows "left x = 0 \<Longrightarrow> b" "left y \<le> left x" "time x \<le> time y" "b \<Longrightarrow> fst (m_stop M y)"
  using assms unfolding machine_ok_def by (metis fst_conv, metis snd_conv, metis snd_conv, metis fst_conv snd_conv)

lemma machine_now [machine]:
  assumes "machine_ok M time left" "m_now M x = (t, y)"
  shows "t = time y" "time x \<le> time y" "left y \<le> left x - 1"
  using assms unfolding machine_ok_def by (metis fst_conv snd_conv, metis snd_conv, metis snd_conv)

lemma machine_nap [machine]:
  assumes "machine_ok M time left"
  shows "left (m_nap M d x) \<le> left x" "time x \<le> time (m_nap M d x)"
  using assms unfolding machine_ok_def by blast+

lemma machine_look [machine]:
  assumes "machine_ok M time left" "m_look M x = (z, y)"
  shows "left y \<le> left x" "time x \<le> time y"
  using assms unfolding machine_ok_def by (metis snd_conv, metis snd_conv)

subsection \<open>Waiting\<close>

lemma wait_until_returns:
  assumes ok: "machine_ok M time left"
  shows "\<exists>y. wait_until M nap until x = Some y \<and> time x \<le> time y \<and> left y \<le> left x \<and>
    (until \<le> time y \<or> fst (m_stop M y))"
proof (induction "left x" arbitrary: x rule: less_induct)
  case less
  obtain stop y where s: "m_stop M x = (stop, y)" by (cases "m_stop M x")
  obtain t z where n: "m_now M y = (t, z)" by (cases "m_now M y")
  note sx = machine_stop [OF ok s] and nx = machine_now [OF ok n] and nap = machine_nap [OF ok, where d = nap and x = z]
  show ?case
  proof (cases stop)
    case True
    then show ?thesis using s sx by (subst wait_until.simps) auto
  next
    case False
    then have "0 < left x" using sx(1) by blast
    show ?thesis
    proof (cases "t < until")
      case True
      let ?x' = "m_nap M nap z"
      have "left ?x' < left x" using sx(2) nx(3) nap(1) \<open>0 < left x\<close> by linarith
      from less [OF this] obtain w where w: "wait_until M nap until ?x' = Some w" "time ?x' \<le> time w" "left w \<le> left ?x'"
        "until \<le> time w \<or> fst (m_stop M w)" by blast
      have "wait_until M nap until x = Some w" using s n False True w(1) by (subst wait_until.simps) simp
      moreover have "time x \<le> time w" using sx(3) nx(2) nap(2) w(2) by order
      moreover have "left w \<le> left x" using \<open>left ?x' < left x\<close> w(3) by linarith
      ultimately show ?thesis using w(4) by blast
    next
      case late: False
      have "wait_until M nap until x = Some z" using s n False late by (subst wait_until.simps) simp
      moreover have "time x \<le> time z" using sx(3) nx(2) by order
      moreover have "left z \<le> left x" using sx(2) nx(3) by linarith
      moreover have "until \<le> time z" using late nx(1) by order
      ultimately show ?thesis by blast
    qed
  qed
qed

subsection \<open>Ticks\<close>

text \<open>Every tick is taken after its deadline in the state the ticks before it left.\<close>

fun on_time :: "(nat \<Rightarrow> 's \<Rightarrow> u64) \<Rightarrow> (u64 \<Rightarrow> 'o \<Rightarrow> 's \<Rightarrow> 's) \<Rightarrow> nat \<Rightarrow> 's \<Rightarrow> (u64 \<times> 'o) list \<Rightarrow> bool" where
  "on_time deadline f k s [] \<longleftrightarrow> True"
| "on_time deadline f k s ((t, seen) # ticks) \<longleftrightarrow> deadline (Suc k) s \<le> t \<and> on_time deadline f (Suc k) (f t seen s) ticks"

abbreviation ticks_of :: "(u64 \<Rightarrow> 'o \<Rightarrow> 's \<Rightarrow> 's) \<Rightarrow> (u64 \<times> 'o) list \<Rightarrow> 's \<Rightarrow> 's" where
  "ticks_of f \<equiv> fold (\<lambda>(t, seen). f t seen)"

text \<open>The loop ends, and what it did is a sequence of ticks in the order of the clock, none before its deadline.\<close>

lemma ticker_returns:
  fixes M :: "('o, 'x) machine"
  assumes ok: "machine_ok M time left"
  shows "\<exists>ticks y. ticker M nap deadline f k s x = Some (ticks_of f ticks s, y) \<and>
    sorted (map fst ticks) \<and> (\<forall>t \<in> fst ` set ticks. time x \<le> t \<and> t \<le> time y) \<and> time x \<le> time y \<and>
    on_time deadline f k s ticks"
proof (induction "left x" arbitrary: k s x rule: less_induct)
  case less
  obtain stop x1 where s: "m_stop M x = (stop, x1)" by (cases "m_stop M x")
  obtain x2 where w: "wait_until M nap (deadline (Suc k) s) x1 = Some x2" "time x1 \<le> time x2" "left x2 \<le> left x1"
      "deadline (Suc k) s \<le> time x2 \<or> fst (m_stop M x2)"
    using wait_until_returns [OF ok] by blast
  obtain stop2 x3 where s2: "m_stop M x2 = (stop2, x3)" by (cases "m_stop M x2")
  obtain t x4 where n: "m_now M x3 = (t, x4)" by (cases "m_now M x3")
  obtain seen x5 where l: "m_look M x4 = (seen, x5)" by (cases "m_look M x4")
  note sx = machine_stop [OF ok s] and s2x = machine_stop [OF ok s2] and nx = machine_now [OF ok n] and lx = machine_look [OF ok l]
  show ?case
  proof (cases "stop \<or> stop2")
    case True
    have "ticker M nap deadline f k s x = Some (s, if stop then x1 else x3)"
      using s w(1) s2 True by (subst ticker.simps) auto
    then have "ticker M nap deadline f k s x = Some (ticks_of f [] s, if stop then x1 else x3)" by simp
    moreover have "time x \<le> time (if stop then x1 else x3)" using sx(3) w(2) s2x(3) by (auto intro: order_trans)
    moreover have "sorted (map fst ([] :: (u64 \<times> 'o) list))" "\<forall>t \<in> fst ` set []. time x \<le> t \<and> t \<le> time (if stop then x1 else x3)"
      "on_time deadline f k s []" by simp_all
    ultimately show ?thesis by blast
  next
    case False
    have "0 < left x" using sx(1) False by blast
    then have less_left: "left x5 < left x" using sx(2) w(3) s2x(2) nx(3) lx(1) by linarith
    have past: "deadline (Suc k) s \<le> t" using w(4) s2 False nx(1,2) s2x(3) by auto
    have le: "time x \<le> t" "t \<le> time x5" using sx(3) w(2) s2x(3) nx(1,2) lx(2) by order+
    from less [OF less_left, of "Suc k" "f t seen s"] obtain ticks y where
      r: "ticker M nap deadline f (Suc k) (f t seen s) x5 = Some (ticks_of f ticks (f t seen s), y)" and
      t: "sorted (map fst ticks)" "\<forall>t \<in> fst ` set ticks. time x5 \<le> t \<and> t \<le> time y" "time x5 \<le> time y"
        "on_time deadline f (Suc k) (f t seen s) ticks" by blast
    have "ticker M nap deadline f k s x = Some (ticks_of f ((t, seen) # ticks) s, y)"
      using s w(1) s2 n l r False by (subst ticker.simps) simp
    moreover have "sorted (map fst ((t, seen) # ticks))" "\<forall>u \<in> fst ` set ((t, seen) # ticks). time x \<le> u \<and> u \<le> time y" "time x \<le> time y"
      using t(1,2,3) le by (auto intro: order_trans)
    moreover have "on_time deadline f k s ((t, seen) # ticks)" using past t(4) by simp
    ultimately show ?thesis by blast
  qed
qed

subsection \<open>How many ticks\<close>

text \<open>With deadlines at the multiples of a step after \<open>t0\<close>, tick \<open>n\<close> is not before \<open>n\<close> steps, unless the clock reaches \<open>2 ^ 63\<close> ns.\<close>

lemma unat_of_nat_u64: "n < 2 ^ 64 \<Longrightarrow> unat (of_nat n :: u64) = n"
  by (simp add: unat_of_nat)

lemma absolute_ticks:
  assumes "on_time (\<lambda>k s. t0 + of_nat k * d) f k s ticks" "\<forall>t \<in> fst ` set ticks. t \<le> T" "t0 \<le> T" "unat T < 2 ^ 63" "unat d < 2 ^ 63"
    "unat t0 + k * unat d \<le> unat T"
  shows "unat t0 + (k + length ticks) * unat d \<le> unat T"
  using assms
proof (induction ticks arbitrary: k s)
  case (Cons tick ticks)
  obtain t seen where tick: "tick = (t, seen)" by (cases tick)
  have "unat t0 + Suc k * unat d < 2 ^ 64" using Cons.prems(4-6) by simp
  moreover have w: "t0 + of_nat (Suc k) * d = of_nat (unat t0 + Suc k * unat d)" by (simp only: of_nat_add of_nat_mult of_nat_unat) (simp only: ucast_id)
  ultimately have "unat (t0 + of_nat (Suc k) * d) = unat t0 + Suc k * unat d" by (simp only: w unat_of_nat_u64)
  moreover have "t0 + of_nat (Suc k) * d \<le> T" using Cons.prems(1,2) tick by (auto intro: order_trans)
  ultimately have "unat t0 + Suc k * unat d \<le> unat T" by (simp only: word_le_nat_alt)
  moreover have "on_time (\<lambda>k s. t0 + of_nat k * d) f (Suc k) (f t seen s) ticks" "\<forall>t \<in> fst ` set ticks. t \<le> T"
    using Cons.prems(1,2) tick by simp_all
  ultimately have "unat t0 + (Suc k + length ticks) * unat d \<le> unat T"
    using Cons.IH [of "Suc k"] Cons.prems(3-5) by blast
  then show ?case by simp
qed simp

text \<open>With deadlines a step after the last tick, the same bound holds.\<close>

lemma relative_ticks:
  assumes "on_time (\<lambda>k s. last_t s + d) f k s ticks" "\<forall>t \<in> fst ` set ticks. t \<le> T" "last_t s \<le> T" "unat T < 2 ^ 63" "unat d < 2 ^ 63"
    and upd: "\<And>t seen s. last_t (f t seen s) = t"
  shows "unat (last_t s) + length ticks * unat d \<le> unat T"
  using assms(1-5)
proof (induction ticks arbitrary: k s)
  case (Cons tick ticks)
  obtain t seen where tick: "tick = (t, seen)" by (cases tick)
  have "unat (last_t s) + unat d < 2 ^ 64" using Cons.prems(3-5) by (simp add: word_le_nat_alt)
  then have "unat (last_t s + d) = unat (last_t s) + unat d" by (simp add: unat_word_ariths)
  moreover have "last_t s + d \<le> t" using Cons.prems(1) tick by simp
  moreover have "unat t + length ticks * unat d \<le> unat T"
    using Cons.IH [of "Suc k" "f t seen s"] Cons.prems tick by (simp add: upd)
  ultimately show ?case by (simp add: word_le_nat_alt)
qed (simp add: word_le_nat_alt)

lemma relative_spacing:
  assumes "on_time (\<lambda>k s. last_t s + d) f k s ticks" and upd: "\<And>t seen s. last_t (f t seen s) = t" and "i < length ticks"
  shows "(if i = 0 then last_t s else fst (ticks ! (i - 1))) + d \<le> fst (ticks ! i)"
  using assms(1,3)
proof (induction ticks arbitrary: k s i)
  case (Cons tick ticks)
  obtain t seen where tick: "tick = (t, seen)" by (cases tick)
  show ?case
  proof (cases i)
    case 0
    then show ?thesis using Cons.prems(1) tick by simp
  next
    case (Suc j)
    then have "(if j = 0 then t else fst (ticks ! (j - 1))) + d \<le> fst (ticks ! j)"
      using Cons.IH [of "Suc k" "f t seen s" j] Cons.prems tick Suc unfolding upd by simp
    then show ?thesis using Suc tick by (cases j) simp_all
  qed
qed simp

subsection \<open>A scripted machine\<close>

text \<open>The clock reads what a script says, never backwards, and the flag is set at its end.\<close>

definition scripted :: "'o \<Rightarrow> ('o, u64 \<times> u64 list) machine" where
  "scripted seen =
     \<lparr>m_stop = (\<lambda>x. (snd x = [], x)),
      m_now = (\<lambda>(t, ts). case ts of [] \<Rightarrow> (t, (t, [])) | u # us \<Rightarrow> (max t u, (max t u, us))),
      m_nap = (\<lambda>d x. x), m_look = (\<lambda>x. (seen, x))\<rparr>"

lemma scripted_ok: "machine_ok (scripted seen) fst (\<lambda>x. length (snd x))"
  unfolding machine_ok_def scripted_def by (auto split: prod.split list.split)

end
