(* ===== verification/KB_Status.thy ===== *)
theory KB_Status
  imports KB_Main KB_Ticker
begin

text \<open>
  The threads of \<open>src/src/main.c\<close> that watch a run, as instances of the loop in \<open>KB_Ticker\<close>: \<open>sampler_main\<close> (the samples of the
  timeline), \<open>progress_main\<close> (the status line of a timed phase) and \<open>seed_progress_main\<close> (status lines and samples of the seeding);
  the lines that announce a phase, and the call of the plotter.

  What goes to the standard error stream is the list of the lines. What a thread sees of the workers, the engine and the probes at a tick is
  what \<open>m_look\<close> of its machine returns.
\<close>

subsection \<open>The timeline\<close>

type_synonym look = "worker list \<times> (string \<times> double) list \<times> probes \<times> u64 option"

definition sampler_step :: "samp_labels \<Rightarrow> u64 \<Rightarrow> look \<Rightarrow> reporter list \<times> sampler \<Rightarrow> reporter list \<times> sampler" where
  "sampler_step lb now seen s =
     (case seen of (ws, engine_stats, g, disk) \<Rightarrow> case sampler_tick lb now ws engine_stats g disk (snd s) of (rs, sm) \<Rightarrow> (reporters_sample (fst s) rs, sm))"

definition sample_distance :: "samp_labels \<Rightarrow> u64" where
  "sample_distance lb = double_to_u64 (dmul (sp_interval lb) 1000000000)"

definition sampler_main :: "(look, 'x) machine \<Rightarrow> samp_labels \<Rightarrow> reporter list \<Rightarrow> 'x \<Rightarrow> (reporter list \<times> 'x) option" where
  "sampler_main M lb reps x =
     map_option (\<lambda>((reps, sm), x). (reps, x))
       (ticker M 10000000 (\<lambda>tick s. sp_last (snd s) + sample_distance lb) (sampler_step lb)
          0 (reps, \<lparr>sp_prev_ops = 0, sp_prev_units = 0, sp_last = sp_t0 lb\<rparr>) x)"

subsection \<open>The timed phase\<close>

definition PROGRESS_TICK_NS :: u64 where "PROGRESS_TICK_NS = 1000000000"
definition PROGRESS_STEP_NS :: u64 where "PROGRESS_STEP_NS = 20000000"

definition cell_tag :: "int \<Rightarrow> string option \<Rightarrow> int \<Rightarrow> string" where
  "cell_tag threads sweep_param value =
     snprintf 48 (''t'' @ show_int threads @ (case sweep_param of Some p \<Rightarrow> '' '' @ p @ ''='' @ show_int value | None \<Rightarrow> []))"

record progress =
  pg_target :: int
  pg_secs :: double
  pg_prev_units :: int
  pg_prev_t :: u64

definition progress_tick :: "samp_labels \<Rightarrow> u64 \<Rightarrow> worker list \<Rightarrow> progress \<Rightarrow> string \<times> progress" where
  "progress_tick lb now ws pg =
     (let units = sum_list (map w_units ws); dt = seconds_between (pg_prev_t pg) now;
          rate = (if dt > 0 then ddiv (int_to_double (units - pg_prev_units pg)) dt else 0);
          elapsed = seconds_between (sp_t0 lb) now;
          head = ''  '' @ sp_workload lb @ '' '' @ sp_engine lb @ '' '' @ cell_tag (sp_threads lb) (sp_sweep_param lb) (sp_sweep_value lb) @ ''  '' @
                 pad_left 5 (fmt_fixed 1 elapsed);
          line = (if pg_secs pg > 0 then head @ ''/'' @ fmt_fixed 0 (pg_secs pg) @ ''s  '' @ pad_left 9 (fmt_fixed 0 rate) @ '' wu/s''
                  else head @ ''s  '' @ pad_left 9 (fmt_fixed 0 rate) @ '' wu/s  '' @
                       pad_left 3 (fmt_fixed 0 (if pg_target pg > 0 then ddiv (dmul 100 (int_to_double units)) (int_to_double (pg_target pg)) else 0)) @
                       ''% ('' @ show_int units @ ''/'' @ show_int (pg_target pg) @ '')'')
      in (line @ nl, pg\<lparr>pg_prev_units := units, pg_prev_t := now\<rparr>))"

definition progress_step :: "samp_labels \<Rightarrow> u64 \<Rightarrow> worker list \<Rightarrow> string list \<times> progress \<Rightarrow> string list \<times> progress" where
  "progress_step lb now ws s = (case progress_tick lb now ws (snd s) of (line, pg) \<Rightarrow> (fst s @ [line], pg))"

definition progress_main :: "(worker list, 'x) machine \<Rightarrow> samp_labels \<Rightarrow> int \<Rightarrow> double \<Rightarrow> 'x \<Rightarrow> (string list \<times> 'x) option" where
  "progress_main M lb target secs x =
     map_option (\<lambda>((out, pg), x). (out, x))
       (ticker M PROGRESS_STEP_NS (\<lambda>tick s. sp_t0 lb + of_nat tick * PROGRESS_TICK_NS) (progress_step lb)
          0 ([], \<lparr>pg_target = target, pg_secs = secs, pg_prev_units = 0, pg_prev_t = sp_t0 lb\<rparr>) x)"

definition running_line :: "string \<Rightarrow> string \<Rightarrow> config \<Rightarrow> nat \<Rightarrow> nat \<Rightarrow> string" where
  "running_line name eng cfg run_no run_of =
     ''  running '' @ name @ '' on '' @ eng @ ''  '' @ cell_tag (run_threads cfg) (cfg_sweep_param cfg) (cfg_sweep_value cfg) @
     ''  run '' @ show_nat run_no @ ''/'' @ show_nat run_of @ nl"

subsection \<open>Seeding\<close>

record seed_print =
  sd_print_t :: u64
  sd_print_keys :: u64
  sd_last_sec :: u64

text \<open>At most one line per whole second.\<close>

definition seed_print_tick :: "samp_labels \<Rightarrow> bool \<Rightarrow> u64 \<Rightarrow> u64 \<Rightarrow> seed_print \<Rightarrow> string list \<times> seed_print" where
  "seed_print_tick lb show_it now keys sd =
     (let sec = (now - sp_t0 lb) div 1000000000
      in if show_it \<and> sec > sd_last_sec sd then
           (let pdt = seconds_between (sd_print_t sd) now;
                prate = (if pdt > 0 then ddiv (u64_to_double (keys - sd_print_keys sd)) pdt else 0)
            in ([''  seeding '' @ sp_workload lb @ '' '' @ sp_engine lb @ ''  '' @ pad_left 5 (fmt_fixed 1 (seconds_between (sp_t0 lb) now)) @ ''s  '' @
                pad_left 12 (show_nat (unat keys)) @ '' keys  '' @ pad_left 10 (fmt_fixed 0 prate) @ '' keys/s'' @ nl],
                \<lparr>sd_print_t = now, sd_print_keys = keys, sd_last_sec = sec\<rparr>))
         else ([], sd))"

record seed_state =
  ss_out :: "string list"
  ss_print :: seed_print
  ss_prev :: "u64 \<times> u64"
  ss_reporters :: "reporter list"

definition seed_step :: "samp_labels \<Rightarrow> bool \<Rightarrow> bool \<Rightarrow> u64 \<Rightarrow> op_stats list \<Rightarrow> seed_state \<Rightarrow> seed_state" where
  "seed_step lb show_it sampling now stats s =
     (case seed_print_tick lb show_it now (sum_list (map prim_ops stats)) (ss_print s) of (lines, sd) \<Rightarrow>
      case seed_tick lb now stats (ss_prev s) of (rs, prev) \<Rightarrow>
        \<lparr>ss_out = ss_out s @ lines, ss_print = sd, ss_prev = prev,
         ss_reporters = (if sampling then reporters_sample (ss_reporters s) rs else ss_reporters s)\<rparr>)"

definition seed_progress_main ::
  "(op_stats list, 'x) machine \<Rightarrow> samp_labels \<Rightarrow> bool \<Rightarrow> bool \<Rightarrow> reporter list \<Rightarrow> 'x \<Rightarrow> (string list \<times> reporter list \<times> 'x) option" where
  "seed_progress_main M lb show_it sampling reps x =
     map_option (\<lambda>(s, x). (ss_out s, ss_reporters s, x))
       (ticker M PROGRESS_STEP_NS (\<lambda>tick s. sp_t0 lb + of_nat tick * seed_interval sampling (sp_interval lb)) (seed_step lb show_it sampling)
          0 \<lparr>ss_out = [], ss_print = \<lparr>sd_print_t = sp_t0 lb, sd_print_keys = 0, sd_last_sec = 0\<rparr>, ss_prev = (sp_t0 lb, 0), ss_reporters = reps\<rparr> x)"

definition seeding_line :: "string \<Rightarrow> string \<Rightarrow> int \<Rightarrow> string" where
  "seeding_line name eng threads = ''  seeding '' @ name @ '' on '' @ eng @ '' with '' @ show_int threads @ '' threads'' @ nl"

definition seeded_line :: "string \<Rightarrow> u64 \<Rightarrow> u64 \<Rightarrow> u64 \<Rightarrow> string" where
  "seeded_line name ls now seeded =
     (let secs = seconds_between ls now
      in ''  seeded '' @ name @ '' in '' @ fmt_fixed 1 secs @ ''s  '' @ show_nat (unat seeded) @ '' keys  '' @
         fmt_fixed 0 (if secs > 0 then ddiv (u64_to_double seeded) secs else 0) @ '' keys/s'' @ nl)"

subsection \<open>The plotter\<close>

text \<open>The shell command; \<open>strrchr\<close> finds the directory of the program in \<open>argv[0]\<close>.\<close>

abbreviation quote_char :: char where "quote_char \<equiv> CHR 0x27"

definition quoted :: "string \<Rightarrow> string" where
  "quoted s = [quote_char] @ s @ [quote_char]"

definition plot_command :: "string \<Rightarrow> string \<Rightarrow> string" where
  "plot_command argv0 dir =
     (let base = rev (drop 1 (dropWhile (\<lambda>c. c \<noteq> CHR ''/'') (rev argv0)));
          path = snprintf 700 (if CHR ''/'' \<in> set argv0 then base @ ''/scripts/plot.py'' else ''scripts/plot.py'')
      in snprintf 2048 (''python3 '' @ quoted path @ '' '' @ quoted dir @ '' --out '' @ quoted (dir @ ''/figures'')))"

text \<open>\<open>run\<close> is \<open>system()\<close>; the result is what goes to the error stream.\<close>

definition run_plotter :: "(string \<Rightarrow> 'x \<Rightarrow> int \<times> 'x) \<Rightarrow> string \<Rightarrow> string \<Rightarrow> 'x \<Rightarrow> string list \<times> 'x" where
  "run_plotter run argv0 dir x =
     (case run (plot_command argv0 dir) x of (rc, x) \<Rightarrow>
        ((''keybench: plotting into '' @ dir @ ''/figures'' @ nl) #
         (if rc \<noteq> 0 then [''keybench: plot step failed, is python3 with matplotlib installed?'' @ nl] else []), x))"

text \<open>
  How a shell reads a command: inside single quotes everything up to the next quote is literal. A directory without a quote, in a
  command that fits its buffer, reaches the plotter as it is.
\<close>

fun sh_words :: "string option \<Rightarrow> bool \<Rightarrow> string \<Rightarrow> string list" where
  "sh_words w quote [] = (case w of None \<Rightarrow> [] | Some u \<Rightarrow> [u])"
| "sh_words w True (c # cs) = (let u = (case w of None \<Rightarrow> [] | Some u \<Rightarrow> u) in
     if c = quote_char then sh_words (Some u) False cs else sh_words (Some (u @ [c])) True cs)"
| "sh_words w False (c # cs) = (let u = (case w of None \<Rightarrow> [] | Some u \<Rightarrow> u) in
     if c = quote_char then sh_words (Some u) True cs
     else if c = CHR '' '' then (case w of None \<Rightarrow> sh_words None False cs | Some u \<Rightarrow> u # sh_words None False cs)
     else sh_words (Some (u @ [c])) False cs)"

lemma sh_words_quoted:
  "quote_char \<notin> set s \<Longrightarrow> sh_words (Some u) True (s @ quote_char # cs) = sh_words (Some (u @ s)) False cs"
  by (induction s arbitrary: u) auto

lemma sh_words_quoted_word:
  assumes "quote_char \<notin> set s"
  shows "sh_words None False (quoted s @ cs) = sh_words (Some s) False cs"
  using sh_words_quoted [OF assms, of "[]"] by (simp add: quoted_def)

lemma plot_command_words:
  assumes "quote_char \<notin> set argv0" "quote_char \<notin> set dir" "length argv0 < 600" "length dir < 600"
  shows "\<exists>path. sh_words None False (plot_command argv0 dir) = [''python3'', path, dir, ''--out'', dir @ ''/figures'']"
proof -
  define base where "base = rev (drop 1 (dropWhile (\<lambda>c. c \<noteq> CHR ''/'') (rev argv0)))"
  define path where "path = (if CHR ''/'' \<in> set argv0 then base @ ''/scripts/plot.py'' else ''scripts/plot.py'')"
  have base: "set base \<subseteq> set argv0" "length base \<le> length argv0"
    unfolding base_def using set_dropWhileD [of _ _ "rev argv0"] length_dropWhile_le [of _ "rev argv0"]
    by (auto dest!: in_set_dropD intro: order_trans [OF diff_le_self])
  have path: "snprintf 700 path = path" "quote_char \<notin> set path" "length path < 650"
    using assms base by (auto simp: path_def snprintf_def)
  have "plot_command argv0 dir = ''python3 '' @ quoted path @ '' '' @ quoted dir @ '' --out '' @ quoted (dir @ ''/figures'')"
    unfolding plot_command_def Let_def base_def [symmetric] path_def [symmetric] path(1)
    using path(3) assms(4) by (simp add: snprintf_def quoted_def)
  moreover have "sh_words None False (''python3 '' @ quoted path @ '' '' @ quoted dir @ '' --out '' @ quoted (dir @ ''/figures'')) =
      [''python3'', path, dir, ''--out'', dir @ ''/figures'']"
    using path(2) assms(2) sh_words_quoted_word [of "dir @ ''/figures''" "[]"]
    by (simp add: sh_words_quoted_word)
  ultimately show ?thesis by auto
qed

subsection \<open>How often the threads report\<close>

lemma progress_out: "length (fst (ticks_of (progress_step lb) ticks s)) = length (fst s) + length ticks"
  by (induction ticks arbitrary: s) (auto simp: progress_step_def split: prod.split)

lemma sampler_last: "sp_last (snd (sampler_step lb t seen s)) = t"
  by (cases seen) (simp add: sampler_step_def sampler_tick_def Let_def)

text \<open>While seeding, every line stands for a later whole second.\<close>

definition seed_lines_ok :: "u64 \<Rightarrow> u64 \<Rightarrow> seed_state \<Rightarrow> bool" where
  "seed_lines_ok t0 T s \<longleftrightarrow> length (ss_out s) \<le> unat (sd_last_sec (ss_print s)) \<and>
     unat t0 + unat (sd_last_sec (ss_print s)) * 1000000000 \<le> unat T"

lemma seed_step_lines:
  assumes ok: "seed_lines_ok (sp_t0 lb) T s" and t: "sp_t0 lb \<le> t" "t \<le> T"
  shows "seed_lines_ok (sp_t0 lb) T (seed_step lb show_it sampling t stats s)"
proof -
  let ?sec = "(t - sp_t0 lb) div 1000000000"
  have "unat ?sec * 1000000000 \<le> unat (t - sp_t0 lb)" by (simp add: unat_div)
  then have sec: "unat (sp_t0 lb) + unat ?sec * 1000000000 \<le> unat T" using t by (simp add: unat_sub word_le_nat_alt)
  show ?thesis
  proof (cases "show_it \<and> ?sec > sd_last_sec (ss_print s)")
    case True
    then have "unat (sd_last_sec (ss_print s)) < unat ?sec" by (simp add: word_less_nat_alt)
    then show ?thesis using ok sec True
      by (simp add: seed_lines_ok_def seed_step_def seed_print_tick_def Let_def split: prod.split)
  next
    case False
    then have "ss_out (seed_step lb show_it sampling t stats s) = ss_out s" "ss_print (seed_step lb show_it sampling t stats s) = ss_print s"
      by (auto simp: seed_step_def seed_print_tick_def Let_def split: prod.split)
    then show ?thesis using ok by (simp add: seed_lines_ok_def)
  qed
qed

lemma seed_ticks_lines:
  assumes "seed_lines_ok (sp_t0 lb) T s" "\<forall>t \<in> fst ` set ticks. sp_t0 lb \<le> t \<and> t \<le> T"
  shows "seed_lines_ok (sp_t0 lb) T (ticks_of (seed_step lb show_it sampling) ticks s)"
  using assms by (induction ticks arbitrary: s) (auto simp: seed_step_lines)

subsection \<open>Properties\<close>


definition sample_labels :: samp_labels where
  "sample_labels = \<lparr>sp_workload = ''w'', sp_engine = ''skiplist'', sp_threads = 1, sp_sweep_param = None, sp_sweep_value = 0, sp_interval = 1, sp_t0 = 0\<rparr>"


text \<open>
  C40. The sampler returns once it is told to stop, what it handed to the reporters are the samples of its ticks in the order of
  the clock, and two samples, and the start and the first sample, are never closer than the interval that was asked for.
\<close>

theorem samples_on_time:
  assumes "machine_ok M time left"
  shows "\<exists>ticks y. sampler_main M lb reps x = Some (fst (ticks_of (sampler_step lb) ticks (reps, \<lparr>sp_prev_ops = 0, sp_prev_units = 0, sp_last = sp_t0 lb\<rparr>)), y) \<and>
    sorted (map fst ticks) \<and>
    (\<forall>i < length ticks. (if i = 0 then sp_t0 lb else fst (ticks ! (i - 1))) + sample_distance lb \<le> fst (ticks ! i)) \<and>
    (sp_t0 lb \<le> time x \<and> unat (time y) < 2 ^ 63 \<and> unat (sample_distance lb) < 2 ^ 63 \<longrightarrow>
       unat (sp_t0 lb) + length ticks * unat (sample_distance lb) \<le> unat (time y))"
proof -
  let ?s = "(reps, \<lparr>sp_prev_ops = 0, sp_prev_units = 0, sp_last = sp_t0 lb\<rparr>)"
  let ?dl = "\<lambda>(tick :: nat) (s :: reporter list \<times> sampler). sp_last (snd s) + sample_distance lb"
  obtain ticks y where r: "ticker M 10000000 ?dl (sampler_step lb) 0 ?s x = Some (ticks_of (sampler_step lb) ticks ?s, y)"
    and t: "sorted (map fst ticks)" "\<forall>t \<in> fst ` set ticks. time x \<le> t \<and> t \<le> time y" "time x \<le> time y" and on: "on_time ?dl (sampler_step lb) 0 ?s ticks"
    using ticker_returns [OF assms, of 10000000 ?dl "sampler_step lb" 0 ?s x] by blast
  have "sampler_main M lb reps x = Some (fst (ticks_of (sampler_step lb) ticks ?s), y)"
    unfolding sampler_main_def r by (simp add: case_prod_beta)
  moreover have "(if i = 0 then sp_t0 lb else fst (ticks ! (i - 1))) + sample_distance lb \<le> fst (ticks ! i)" if "i < length ticks" for i
    using relative_spacing [where last_t = "\<lambda>s. sp_last (snd s)", OF on sampler_last that] by (simp only: snd_conv sampler.simps)
  moreover have "unat (sp_t0 lb) + length ticks * unat (sample_distance lb) \<le> unat (time y)"
    if "sp_t0 lb \<le> time x" "unat (time y) < 2 ^ 63" "unat (sample_distance lb) < 2 ^ 63"
    using relative_ticks [where last_t = "\<lambda>s. sp_last (snd s)" and T = "time y", OF on _ _ _ _ sampler_last] that t
    by (auto intro: order_trans)
  ultimately show ?thesis using t(1) by blast
qed

theorem samples_on_time_witness:
  "\<exists>reps' y. sampler_main (scripted ([], [], probes_init, None)) sample_labels [] (0, [1000000000, 1000000000, 2000000000]) = Some (reps', y)"
  using samples_on_time [OF scripted_ok, of "([], [], probes_init, None)" sample_labels "[]" "(0, [1000000000, 1000000000, 2000000000])"] by blast

end
