(* ===== verification/Spec2Isabelle.thy ===== *)
theory Spec2Isabelle
  imports KB_Kvlua KB_Config KB_Registry KB_Affinity KB_Reporter KB_Rocksdb KB_Tidesdb KB_Summary KB_Sysprobe KB_Status
begin

text \<open>
  A verification library for keybench, a benchmark driver for key-value engines written in C.

  The program. \<open>main\<close> (\<open>src/src/main.c\<close>) reads arguments and a configuration file (\<open>config.c\<close>), resolves the engines
  in a registry (\<open>registry.c\<close>) and runs every Lua workload over a grid of engines, thread counts and swept values. For a cell it opens a
  store (\<open>store.c\<close>) over an engine (\<open>backends/skiplist\<close>, \<open>backends/rocksdb\<close>, \<open>backends/tidesdb\<close>), seeds it with
  threads that call the workload's \<open>load()\<close>, and times threads that call its \<open>run()\<close>. The verbs a workload calls (\<open>kvlua.c\<close>)
  record one latency in a histogram (\<open>hist.c\<close>) and count on the counters of their thread; the counters are merged, summarised over the
  repeats and handed to reporters (\<open>reporter.c\<close>). Probes (\<open>probe.c\<close>, \<open>probe_system.c\<close>, \<open>probe_build.c\<close>) add what is
  known of the machine; threads may be pinned (\<open>affinity.c\<close>).

  The theories, from the bottom up; each names its source file and its conventions in its first text.

  \<^item> \<open>KB_Prelude\<close>: machine types, collections of facts, generic lemmas. \<open>KB_Double\<close>: IEEE double arithmetic as rounded rationals, with
    the locale \<open>rounding\<close>. \<open>KB_Cstring\<close>: the C library's string functions the program uses.
  \<^item> \<open>KB_Hist\<close>: \<open>hist.c\<close>. Merging is recording the concatenated samples, the percentile is the order statistic up to its bucket,
    with an error below one part in 128, and where the code is wrong for values below 64.
  \<^item> \<open>KB_Bench\<close>: \<open>bench.h\<close>, the key order and the engine vtable, and the abstract store: sorted rows with put, delete, get and range.
  \<^item> \<open>KB_Skiplist\<close>, \<open>KB_Skiplist_Rep\<close>, \<open>KB_Skiplist_Correct\<close>, \<open>KB_Skiplist_Inv\<close>: \<open>skiplist.c\<close> on a heap of nodes: the code, the
    representation invariant and its lemmas, one correctness lemma per operation, and what holds of every reachable skiplist
    (refinement of the sorted rows, no leak, no dangling pointer, termination of all walks, levels).
  \<^item> \<open>KB_Store\<close>: \<open>store.c\<close> over any engine. The locales \<open>engine\<close> and \<open>exact_engine\<close> state what a client relies on; they are
    interpreted on the skiplist, and the other two engines satisfy the first when their libraries keep their promises. \<open>KB_Rocksdb\<close>, \<open>KB_Tidesdb\<close>: the two engines over records of their libraries'
    calls; the store reads back its writes, and the TidesDB engine releases every object on every path.
  \<^item> \<open>KB_Kvlua\<close>: \<open>kvlua.c\<close>, the eight verbs and the counters. Each call is accounted for once; over the skiplist the verbs return
    what the rows say.
  \<^item> \<open>KB_Config\<close>, \<open>KB_Registry\<close>, \<open>KB_Affinity\<close>, \<open>KB_Reporter\<close>: the files of those names (\<open>KB_Registry\<close> also \<open>probe.c\<close>). Reading
    back a written configuration, the two registries as interpretations of one locale, even pinning, the reporter list and the table format.
  \<^item> \<open>KB_Cli\<close>: arguments, configuration, the replay file and the plan of a run, from \<open>main.c\<close>. A run replayed from the file it
    saved has the same plan; what \<open>main\<close> has established when a run starts.
  \<^item> \<open>KB_Summary\<close>: medians and rates of a cell. \<open>KB_Run\<close>: the worker threads as a step relation over all schedules, and each alone as
    a loop. \<open>KB_Grid\<close>: the three modes of the grid. \<open>KB_Workload\<close>: opening a workload in Lua, and the threads around it.
    \<open>KB_Main\<close>: the two phases of a cell, samples, and \<open>main\<close> as a whole; nothing it opens stays open.
  \<^item> \<open>KB_Ticker\<close>, \<open>KB_Status\<close>: the threads that watch a run, with their waiting; they return when stopped and keep their pace.
  \<^item> \<open>KB_System\<close>, \<open>KB_Sysprobe\<close>: the size of a directory as the size of a tree, mounts, devices and both probes.

  Conventions. A C struct is a record with prefixed fields, \<open>uint64_t\<close> and \<open>unsigned\<close> are words that wrap, \<open>int\<close> and \<open>long\<close> are
  integers with the conversions written out where the code narrows. \<open>None\<close> stands for a bad pointer, an abort, or a loop that does not
  end; every loop that may not end is a \<^theory_text>\<open>partial_function (option)\<close> with a lemma that says when it returns. Code outside the repository
  (Lua, RocksDB, TidesDB, the operating system, the clock) is a record of functions or an argument, and what the program relies on is a named
  predicate (\<open>rocks_ok\<close>, \<open>tides_ok\<close>, \<open>tides_held\<close>, \<open>lua_counts\<close>, \<open>lua_registry\<close>, \<open>machine_ok\<close>, \<open>world_counts\<close>) with a concrete instance.

  Bounds. The histogram theorems hold for samples below \<open>2 ^ 58\<close> ns and fewer than \<open>2 ^ 52\<close> of them, beyond which the C arithmetic
  wraps or loses integers. \<open>du_bytes\<close> is modelled with its limits of 2000000 entries, 64 pending directories and paths of 4096 bytes;
  the theorem needs a tree within them (\<open>fits\<close>). The clock of the watching threads stays below \<open>2 ^ 63\<close> ns. The other array bounds
  (32 registry entries, 8 reporters, 64 workloads and swept values, 256 metrics) are those of the code. No fuel is used.

  Not modelled. Failure of \<open>malloc\<close>, which aborts the program. Infinities, NaNs and subnormal numbers. The usage text and the messages
  on the error stream, except the status lines. Relaxed atomics beyond sequential consistency: a reader of a counter sees some value it had.
  The Lua workloads and the scripts, which are not C. A scan callback that calls verbs of \<open>kv\<close> itself.
\<close>

end
